(* ===== verification/Prelude.thy ===== *)
theory Prelude
  imports Main "HOL-Library.Word" "HOL-Library.Monad_Syntax"
begin

section \<open>Shared vocabulary of the development\<close>

text \<open>
  What every component uses: the names of the machine types, the convention for Go's
  failures, and a few list facts that the byte-level components share.

  Conventions.
  \<^item> A Go \<^verbatim>\<open>int\<close> that counts bytes or indexes memory is an \<open>int\<close>; atomics whose wrap-around
    matters are \<open>word\<close>s of the source's width.
  \<^item> A definition of type \<open>'a option\<close> whose result is \<open>None\<close> stands for a Go run-time panic (nil
    dereference, slice bounds) or for a loop that does not return; a property that an
    operation works always states that the result is \<open>Some\<close>.
  \<^item> A Go \<^verbatim>\<open>(value, error)\<close> pair is a sum \<open>error + 'a\<close>, \<open>Inl\<close> for the error.
\<close>

type_synonym byte = "8 word"
type_synonym addr = nat
type_synonym i32 = "32 word"
type_synonym errno = "64 word"

text \<open>Collections: equations of slices and memory, and of the node heap.\<close>

named_theorems slice_simps
named_theorems heap_simps

subsection \<open>Lists\<close>

lemma take_nat_append_drop [simp]: "take (nat n) xs @ drop (nat n) xs = xs"
  by simp

lemma sum_list_map_eq_0:
  "(\<And>x. x \<in> set xs \<Longrightarrow> f x = (0::int)) \<Longrightarrow> sum_list (map f xs) = 0"
  by (induction xs) auto

lemma sum_list_map_nonneg_int:
  "(\<And>x. x \<in> set xs \<Longrightarrow> (0::int) \<le> f x) \<Longrightarrow> 0 \<le> sum_list (map f xs)"
  by (induction xs) force+

lemma concat_map_Nil:
  "(\<And>x. x \<in> set xs \<Longrightarrow> f x = []) \<Longrightarrow> concat (map f xs) = []"
  by (induction xs) auto

lemma length_concat_map_int:
  "int (length (concat (map f xs))) = sum_list (map (\<lambda>x. int (length (f x))) xs)"
  by (induction xs) auto

end
