(* ===== verification/Errors.thy ===== *)
theory Errors
  imports Prelude
begin

section \<open>Errors (connection\_errors.go)\<close>

text \<open>
  The error numbers netpoll adds to \<^verbatim>\<open>syscall.Errno\<close>, the \<^verbatim>\<open>exception\<close> wrapper and its methods.
  \<^verbatim>\<open>syscall.Errno\<close>'s own methods (\<^verbatim>\<open>Is\<close>, \<^verbatim>\<open>Timeout\<close>, \<^verbatim>\<open>Temporary\<close>) are written out for
  Linux; its message table is an argument \<open>sysmsg\<close>.
\<close>

unbundle bit_operations_syntax

subsection \<open>Error values\<close>

text \<open>
  An error value: a bare \<^verbatim>\<open>syscall.Errno\<close>, a \<^verbatim>\<open>*exception\<close>, an error built from a text
  (\<^verbatim>\<open>errors.New\<close>) or from a format and one number (\<^verbatim>\<open>fmt.Errorf\<close>), \<^verbatim>\<open>io.EOF\<close>, an \<^verbatim>\<open>*os.SyscallError\<close>, and the four
  sentinels of package \<^verbatim>\<open>oserror\<close> that \<^verbatim>\<open>Errno.Is\<close> knows.
\<close>

datatype error =
    Errno errno
  | Exc errno string
  | EText string
  | EFmt string int
  | IoEOF
  | SyscallError string errno
  | ErrPermission
  | ErrExist
  | ErrNotExist
  | ErrUnsupportedOp

record exception =
  no :: errno
  suffix :: string

definition ErrConnClosed :: errno where "ErrConnClosed = 0x101"
definition ErrReadTimeout :: errno where "ErrReadTimeout = 0x102"
definition ErrDialTimeout :: errno where "ErrDialTimeout = 0x103"
definition ErrDialNoDeadline :: errno where "ErrDialNoDeadline = 0x104"
definition ErrUnsupported :: errno where "ErrUnsupported = 0x105"
definition ErrEOF :: errno where "ErrEOF = 0x106"
definition ErrWriteTimeout :: errno where "ErrWriteTimeout = 0x107"
definition ErrConcurrentAccess :: errno where "ErrConcurrentAccess = 0x108"

definition ErrnoMask :: errno where "ErrnoMask = 0xFF"

text \<open>The Linux numbers of the system errors the sources name.\<close>

definition EPERM :: errno where "EPERM = 1"
definition ENOENT :: errno where "ENOENT = 2"
definition EINTR :: errno where "EINTR = 4"
definition ENXIO :: errno where "ENXIO = 6"
definition EAGAIN :: errno where "EAGAIN = 11"
definition EACCES :: errno where "EACCES = 13"
definition EEXIST :: errno where "EEXIST = 17"
definition ENFILE :: errno where "ENFILE = 23"
definition EMFILE :: errno where "EMFILE = 24"
definition ENOSYS :: errno where "ENOSYS = 38"
definition ENOTEMPTY :: errno where "ENOTEMPTY = 39"
definition EOPNOTSUPP :: errno where "EOPNOTSUPP = 95"
definition ETIMEDOUT :: errno where "ETIMEDOUT = 110"

lemmas errno_defs =
  ErrConnClosed_def ErrReadTimeout_def ErrDialTimeout_def ErrDialNoDeadline_def
  ErrUnsupported_def ErrEOF_def ErrWriteTimeout_def ErrConcurrentAccess_def
  EPERM_def ENOENT_def EINTR_def ENXIO_def EAGAIN_def EACCES_def EEXIST_def ENFILE_def
  EMFILE_def ENOSYS_def ENOTEMPTY_def EOPNOTSUPP_def ETIMEDOUT_def

subsection \<open>Methods of syscall.Errno\<close>

definition Errno_Is :: "errno \<Rightarrow> error \<Rightarrow> bool" where
  "Errno_Is e target =
     (case target of
        ErrPermission \<Rightarrow> e = EACCES \<or> e = EPERM
      | ErrExist \<Rightarrow> e = EEXIST \<or> e = ENOTEMPTY
      | ErrNotExist \<Rightarrow> e = ENOENT
      | ErrUnsupportedOp \<Rightarrow> e = ENOSYS \<or> e = EOPNOTSUPP
      | _ \<Rightarrow> False)"

definition Errno_Timeout :: "errno \<Rightarrow> bool" where
  "Errno_Timeout e \<longleftrightarrow> e = EAGAIN \<or> e = ETIMEDOUT"

definition Errno_Temporary :: "errno \<Rightarrow> bool" where
  "Errno_Temporary e \<longleftrightarrow> e = EINTR \<or> e = EMFILE \<or> e = ENFILE \<or> Errno_Timeout e"

subsection \<open>The message table and the exception type\<close>

definition errnos :: "string list" where
  "errnos =
     ['''',
      ''connection has been closed'',
      ''connection read timeout'',
      ''dial wait timeout'',
      ''dial no deadline'',
      ''netpoll does not support'',
      ''EOF'',
      ''connection write timeout'',
      ''concurrent connection access'']"

text \<open>
  \<open>error_text\<close> is \<^verbatim>\<open>err.Error()\<close> of an error that is not an \<^verbatim>\<open>Errno\<close>, an argument here.
\<close>

definition Exception :: "(error \<Rightarrow> string) \<Rightarrow> error \<Rightarrow> string \<Rightarrow> error" where
  "Exception error_text err sfx =
     (case err of
        Errno n \<Rightarrow> Exc n sfx
      | _ \<Rightarrow> if sfx = '''' then err else EText (error_text err @ '' '' @ sfx))"

text \<open>
  \<^verbatim>\<open>Error\<close>: the table is indexed when bit 8 of the number is set; \<open>None\<close> is the index out of
  range.
\<close>

definition exception_Error :: "(errno \<Rightarrow> string) \<Rightarrow> exception \<Rightarrow> string option" where
  "exception_Error sysmsg e =
     do {
       s \<leftarrow> (if no e AND 0x100 \<noteq> 0
             then (let i = unat (no e AND ErrnoMask)
                   in if i < length errnos then Some (errnos ! i) else None)
             else Some '''');
       let s = (if s = '''' then sysmsg (no e) else s);
       Some (if suffix e \<noteq> '''' then s @ '' '' @ suffix e else s)
     }"

text \<open>
  \<^verbatim>\<open>Is\<close>: \<open>same\<close> is the pointer comparison \<^verbatim>\<open>e == target\<close>.
\<close>

definition exception_Is :: "bool \<Rightarrow> exception \<Rightarrow> error \<Rightarrow> bool" where
  "exception_Is same e target =
     (if same then True
      else if target = Errno (no e) then True
      else if no e = ErrEOF \<and> target = Errno ErrConnClosed then True
      else Errno_Is (no e) target)"

definition exception_Unwrap :: "exception \<Rightarrow> error" where
  "exception_Unwrap e = Errno (no e)"

definition exception_Timeout :: "exception \<Rightarrow> bool" where
  "exception_Timeout e =
     (if no e = ErrDialTimeout \<or> no e = ErrReadTimeout \<or> no e = ErrWriteTimeout
      then True else Errno_Timeout (no e))"

definition exception_Temporary :: "exception \<Rightarrow> bool" where
  "exception_Temporary e = Errno_Temporary (no e)"

definition netpoll_errnos :: "errno list" where
  "netpoll_errnos =
     [ErrConnClosed, ErrReadTimeout, ErrDialTimeout, ErrDialNoDeadline,
      ErrUnsupported, ErrEOF, ErrWriteTimeout, ErrConcurrentAccess]"

subsection \<open>Properties\<close>

lemma errno_index:
  assumes "i < length netpoll_errnos"
  shows "unat (netpoll_errnos ! i AND ErrnoMask) = Suc i"
    and "netpoll_errnos ! i AND 0x100 \<noteq> 0"
proof -
  have "i \<in> {0, 1, 2, 3, 4, 5, 6, 7}"
    using assms by (auto simp: netpoll_errnos_def)
  then show "unat (netpoll_errnos ! i AND ErrnoMask) = Suc i"
    by (auto simp: netpoll_errnos_def errno_defs ErrnoMask_def)
  from \<open>i \<in> {0, 1, 2, 3, 4, 5, 6, 7}\<close> show "netpoll_errnos ! i AND 0x100 \<noteq> 0"
    by (auto simp: netpoll_errnos_def errno_defs)
qed

text \<open>
  C4: every error number netpoll defines has its own, non-empty message: \<^verbatim>\<open>Error()\<close> of the
  exception built from the i-th number never indexes the table out of range, never falls back
  to the system's message, and is the i-th text followed by the suffix.
\<close>

theorem exception_Error_netpoll:
  assumes "i < length netpoll_errnos"
  shows "exception_Error sysmsg \<lparr>no = netpoll_errnos ! i, suffix = sfx\<rparr> =
           Some (errnos ! Suc i @ (if sfx = '''' then '''' else '' '' @ sfx))
         \<and> errnos ! Suc i \<noteq> ''''"
proof -
  have ne: "errnos ! Suc i \<noteq> ''''" and len: "Suc i < length errnos"
  proof -
    have "i \<in> {0, 1, 2, 3, 4, 5, 6, 7}"
      using assms by (auto simp: netpoll_errnos_def)
    then show "errnos ! Suc i \<noteq> ''''" "Suc i < length errnos"
      by (auto simp: errnos_def)
  qed
  show ?thesis
    using errno_index [OF assms] ne len by (auto simp: exception_Error_def Let_def)
qed

theorem exception_Error_netpoll_witness:
  "(5::nat) < length netpoll_errnos \<and>
   exception_Error (\<lambda>_. ''sys'') \<lparr>no = netpoll_errnos ! 5, suffix = ''peer close''\<rparr> =
     Some ''EOF peer close''"
  using exception_Error_netpoll [of 5 "\<lambda>_. ''sys''" "''peer close''"]
  by (simp add: netpoll_errnos_def errnos_def)

end
