(* ===== verification/Slices.thy ===== *)
theory Slices
  imports Prelude
begin

section \<open>Go slices and the byte allocator (nocopy.go)\<close>

text \<open>
  Byte slices alias: \<^verbatim>\<open>Malloc\<close> hands out a window of a node's buffer that the caller fills
  later, \<^verbatim>\<open>Refer\<close> and \<^verbatim>\<open>WriteDirect\<close> make two nodes share one array. So memory is a store of
  arrays and a slice is a window of one of them, with Go's length and capacity.

  \<open>cells m a i\<close> is byte \<open>i\<close> of array \<open>a\<close>. Allocation takes the next unused array and leaves its
  bytes as they are, since \<^verbatim>\<open>mcache.Malloc\<close> and \<^verbatim>\<open>dirtmake.Bytes\<close> return uninitialised memory.
  \<open>freed\<close> lists the arrays given back to \<^verbatim>\<open>mcache.Free\<close>; from then on the cache may hand them
  to someone else. Array 0 is the array of the nil slice.

  \<^verbatim>\<open>mcache\<close> is a third-party package: the capacity it rounds a request up to is the field
  \<open>mcache_cap\<close> of the globals, and \<open>mcache_ok\<close> is its documented behaviour.
\<close>

subsection \<open>Memory and slices\<close>

record memory =
  cells :: "nat \<Rightarrow> int \<Rightarrow> byte"
  next_arr :: nat
  freed :: "nat list"

record slice =
  s_arr :: nat
  s_off :: int
  s_len :: int
  s_cap :: int

definition nil_slice :: slice where
  "nil_slice = \<lparr>s_arr = 0, s_off = 0, s_len = 0, s_cap = 0\<rparr>"

definition slice_bytes :: "'m memory_scheme \<Rightarrow> slice \<Rightarrow> byte list" where
  "slice_bytes m s = map (\<lambda>i. cells m (s_arr s) (s_off s + int i)) [0..<nat (s_len s)]"

text \<open>The slice expressions \<^verbatim>\<open>s[lo:hi]\<close> and \<^verbatim>\<open>s[lo:hi:mx]\<close>, with their bounds checks.\<close>

definition reslice :: "slice \<Rightarrow> int \<Rightarrow> int \<Rightarrow> slice option" where
  "reslice s lo hi =
     (if 0 \<le> lo \<and> lo \<le> hi \<and> hi \<le> s_cap s
      then Some \<lparr>s_arr = s_arr s, s_off = s_off s + lo, s_len = hi - lo, s_cap = s_cap s - lo\<rparr>
      else None)"

definition reslice3 :: "slice \<Rightarrow> int \<Rightarrow> int \<Rightarrow> int \<Rightarrow> slice option" where
  "reslice3 s lo hi mx =
     (if 0 \<le> lo \<and> lo \<le> hi \<and> hi \<le> mx \<and> mx \<le> s_cap s
      then Some \<lparr>s_arr = s_arr s, s_off = s_off s + lo, s_len = hi - lo, s_cap = mx - lo\<rparr>
      else None)"

text \<open>Storing a list of bytes at the start of a window, and the built-in \<^verbatim>\<open>copy(dst, src)\<close>.\<close>

definition store_bytes :: "slice \<Rightarrow> byte list \<Rightarrow> 'm memory_scheme \<Rightarrow> 'm memory_scheme" where
  "store_bytes s bs m =
     m\<lparr>cells := (cells m)(s_arr s := (\<lambda>i.
         if s_off s \<le> i \<and> i < s_off s + int (length bs)
         then bs ! nat (i - s_off s) else cells m (s_arr s) i))\<rparr>"

definition go_copy :: "slice \<Rightarrow> byte list \<Rightarrow> 'm memory_scheme \<Rightarrow> int \<times> 'm memory_scheme" where
  "go_copy dst src m =
     (let n = min (s_len dst) (int (length src))
      in (n, store_bytes dst (take (nat n) src) m))"

subsection \<open>Allocation\<close>

definition block1k :: int where "block1k = 1 * 1024"
definition block4k :: int where "block4k = 4 * 1024"
definition block8k :: int where "block8k = 8 * 1024"
definition pagesize :: int where "pagesize = block8k"
definition mallocMax :: int where "mallocMax = block8k * block1k"
definition minReuseBytes :: int where "minReuseBytes = 64"

text \<open>
  The package variables of netpoll that the buffers read, and \<^verbatim>\<open>mcache\<close>'s rounding.
\<close>

record globals =
  LinkBufferCap :: int
  defaultLinkBufferSize :: int
  featureAlwaysNoCopyRead :: bool
  mcache_cap :: "int \<Rightarrow> int"

definition mcache_ok :: "globals \<Rightarrow> bool" where
  "mcache_ok g \<longleftrightarrow> (\<forall>c. c \<le> mcache_cap g c)"

definition new_array :: "int \<Rightarrow> int \<Rightarrow> 'm memory_scheme \<Rightarrow> slice \<times> 'm memory_scheme" where
  "new_array sz capacity m =
     (\<lparr>s_arr = next_arr m, s_off = 0, s_len = sz, s_cap = capacity\<rparr>,
      m\<lparr>next_arr := Suc (next_arr m)\<rparr>)"

definition malloc :: "globals \<Rightarrow> int \<Rightarrow> int \<Rightarrow> 'm memory_scheme \<Rightarrow> slice \<times> 'm memory_scheme" where
  "malloc g sz capacity m =
     (if capacity > mallocMax then new_array sz capacity m
      else new_array sz (mcache_cap g capacity) m)"

definition free :: "slice \<Rightarrow> 'm memory_scheme \<Rightarrow> 'm memory_scheme" where
  "free b m = (if s_cap b > mallocMax then m else m\<lparr>freed := s_arr b # freed m\<rparr>)"

text \<open>The built-in \<^verbatim>\<open>append\<close>: in place while the capacity lasts, else into a new array.\<close>

definition go_append :: "slice \<Rightarrow> byte list \<Rightarrow> 'm memory_scheme \<Rightarrow> slice \<times> 'm memory_scheme" where
  "go_append s bs m =
     (let n = s_len s + int (length bs)
      in if n \<le> s_cap s
         then (s\<lparr>s_len := n\<rparr>,
               store_bytes \<lparr>s_arr = s_arr s, s_off = s_off s + s_len s,
                            s_len = int (length bs), s_cap = s_cap s - s_len s\<rparr> bs m)
         else (let (t, m') = new_array n n m
               in (t, store_bytes t (slice_bytes m s @ bs) m')))"

definition slice_ok :: "slice \<Rightarrow> bool" where
  "slice_ok s \<longleftrightarrow> 0 \<le> s_len s \<and> s_len s \<le> s_cap s"

subsection \<open>Facts\<close>

lemma length_slice_bytes [simp]: "length (slice_bytes m s) = nat (s_len s)"
  by (simp add: slice_bytes_def)

lemma slice_bytes_nil [simp]: "slice_bytes m nil_slice = []"
  by (simp add: slice_bytes_def nil_slice_def)

lemma slice_ok_nil [simp]: "slice_ok nil_slice"
  by (simp add: slice_ok_def nil_slice_def)

lemma slice_bytes_empty: "s_len s \<le> 0 \<Longrightarrow> slice_bytes m s = []"
  by (simp add: slice_bytes_def)

lemma nth_slice_bytes:
  "i < nat (s_len s) \<Longrightarrow> slice_bytes m s ! i = cells m (s_arr s) (s_off s + int i)"
  by (simp add: slice_bytes_def)

lemma slice_bytes_cong:
  assumes "\<And>i. s_off s \<le> i \<Longrightarrow> i < s_off s + s_len s \<Longrightarrow>
             cells m (s_arr s) i = cells m' (s_arr s) i"
  shows "slice_bytes m s = slice_bytes m' s"
  using assms by (auto simp: slice_bytes_def)

lemma slice_bytes_cells: "cells m = cells m' \<Longrightarrow> slice_bytes m s = slice_bytes m' s"
  by (simp add: slice_bytes_def)

lemma slice_bytes_take_drop:
  assumes "0 \<le> lo" "lo \<le> hi" "hi \<le> s_len s"
  shows "slice_bytes m \<lparr>s_arr = s_arr s, s_off = s_off s + lo, s_len = hi - lo, s_cap = c\<rparr> =
           take (nat (hi - lo)) (drop (nat lo) (slice_bytes m s))"
  using assms
  by (intro nth_equalityI) (auto simp: nth_slice_bytes ac_simps)

lemma slice_bytes_split:
  assumes "0 \<le> k" "k \<le> s_len s"
  shows "slice_bytes m s =
           slice_bytes m \<lparr>s_arr = s_arr s, s_off = s_off s, s_len = k, s_cap = c\<rparr> @
           slice_bytes m \<lparr>s_arr = s_arr s, s_off = s_off s + k, s_len = s_len s - k, s_cap = d\<rparr>"
proof -
  have "slice_bytes m \<lparr>s_arr = s_arr s, s_off = s_off s, s_len = k, s_cap = c\<rparr> =
          take (nat k) (slice_bytes m s)"
    using slice_bytes_take_drop [of 0 k s m c] assms by simp
  moreover have "slice_bytes m \<lparr>s_arr = s_arr s, s_off = s_off s + k, s_len = s_len s - k, s_cap = d\<rparr> =
          drop (nat k) (slice_bytes m s)"
    using slice_bytes_take_drop [of k "s_len s" s m d] assms by simp
  ultimately show ?thesis by simp
qed

lemma reslice3_SomeD:
  "reslice3 s lo hi mx = Some t \<Longrightarrow>
     0 \<le> lo \<and> lo \<le> hi \<and> hi \<le> mx \<and> mx \<le> s_cap s \<and>
     t = \<lparr>s_arr = s_arr s, s_off = s_off s + lo, s_len = hi - lo, s_cap = mx - lo\<rparr>"
  by (auto simp: reslice3_def split: if_splits)

lemma store_bytes_frame [slice_simps]:
  "next_arr (store_bytes s bs m) = next_arr m"
  "freed (store_bytes s bs m) = freed m"
  "memory.more (store_bytes s bs m) = memory.more m"
  by (simp_all add: store_bytes_def)

lemma slice_bytes_store_other_arr:
  "s_arr t \<noteq> s_arr s \<Longrightarrow> slice_bytes (store_bytes s bs m) t = slice_bytes m t"
  by (intro slice_bytes_cong) (simp add: store_bytes_def)

lemma slice_bytes_store_disjoint:
  assumes "s_arr t \<noteq> s_arr s \<or> s_off t + s_len t \<le> s_off s \<or> s_off s + int (length bs) \<le> s_off t"
  shows "slice_bytes (store_bytes s bs m) t = slice_bytes m t"
  using assms by (intro slice_bytes_cong) (auto simp: store_bytes_def)

lemma slice_bytes_store_same:
  assumes "s_arr t = s_arr s" "s_off t = s_off s" "s_len t = int (length bs)"
  shows "slice_bytes (store_bytes s bs m) t = bs"
  using assms by (intro nth_equalityI) (auto simp: nth_slice_bytes store_bytes_def)

lemma new_array_simps [slice_simps]:
  "new_array sz c m = (s, m') \<longleftrightarrow>
     s = \<lparr>s_arr = next_arr m, s_off = 0, s_len = sz, s_cap = c\<rparr> \<and>
     m' = m\<lparr>next_arr := Suc (next_arr m)\<rparr>"
  by (auto simp: new_array_def)

lemma malloc_fresh:
  assumes "mcache_ok g" "malloc g sz c m = (s, m')"
  shows "s_arr s = next_arr m" "s_off s = 0" "s_len s = sz" "c \<le> s_cap s"
    "m' = m\<lparr>next_arr := Suc (next_arr m)\<rparr>"
  using assms by (auto simp: malloc_def mcache_ok_def slice_simps split: if_splits)

lemma free_frame [simp]:
  "cells (free b m) = cells m"
  "next_arr (free b m) = next_arr m"
  "memory.more (free b m) = memory.more m"
  by (simp_all add: free_def)

end
