(* ===== verification/Nodes.thy ===== *)
theory Nodes
  imports Slices
begin

section \<open>Link-buffer nodes on the heap (nocopy\_linkbuffer.go)\<close>

text \<open>
  A \<^verbatim>\<open>linkBufferNode\<close> is a record on a heap of nodes; pointers are optional addresses, \<open>None\<close>
  for nil. \<^verbatim>\<open>linkedPool\<close>, a \<^verbatim>\<open>sync.Pool\<close>, is the list of addresses put back: \<^verbatim>\<open>Get\<close> takes one of
  them (the last put) and allocates a new node when there is none.
\<close>

unbundle bit_operations_syntax

subsection \<open>The heap\<close>

record node =
  buf :: slice
  off :: int
  malloc_n :: int
  refer :: int
  mode :: "8 word"
  origin :: "addr option"
  next_n :: "addr option"

record world = memory +
  nodes :: "addr \<Rightarrow> node option"
  next_addr :: addr
  pool :: "addr list"

definition readonlyMask :: "8 word" where "readonlyMask = 1"
definition nocopyReadMask :: "8 word" where "nocopyReadMask = 2"
definition defaultLinkBufferMode :: "8 word" where "defaultLinkBufferMode = 0"

definition set_node :: "addr \<Rightarrow> node \<Rightarrow> world \<Rightarrow> world" where
  "set_node a nd w = w\<lparr>nodes := (nodes w)(a \<mapsto> nd)\<rparr>"

definition deref :: "world \<Rightarrow> addr option \<Rightarrow> node option" where
  "deref w p = Option.bind p (nodes w)"

definition upd_node :: "addr \<Rightarrow> (node \<Rightarrow> node) \<Rightarrow> world \<Rightarrow> world option" where
  "upd_node a f w = map_option (\<lambda>nd. set_node a (f nd) w) (nodes w a)"

subsection \<open>Operations of one node\<close>

definition node_Len :: "node \<Rightarrow> int" where
  "node_Len nd = s_len (buf nd) - off nd"

definition node_IsEmpty :: "node \<Rightarrow> bool" where
  "node_IsEmpty nd \<longleftrightarrow> off nd = s_len (buf nd)"

definition node_Reset :: "node \<Rightarrow> node option" where
  "node_Reset nd =
     (if origin nd \<noteq> None \<or> refer nd \<noteq> 1 then Some nd
      else map_option (\<lambda>b. nd\<lparr>off := 0, malloc_n := 0, buf := b\<rparr>) (reslice (buf nd) 0 0))"

definition node_Next :: "int \<Rightarrow> node \<Rightarrow> (slice \<times> node) option" where
  "node_Next n nd =
     map_option (\<lambda>p. (p, nd\<lparr>off := off nd + n\<rparr>))
       (reslice3 (buf nd) (off nd) (off nd + n) (off nd + n))"

definition node_Peek :: "int \<Rightarrow> node \<Rightarrow> slice option" where
  "node_Peek n nd = reslice3 (buf nd) (off nd) (off nd + n) (off nd + n)"

definition node_Malloc :: "int \<Rightarrow> node \<Rightarrow> (slice \<times> node) option" where
  "node_Malloc n nd =
     map_option (\<lambda>p. (p, nd\<lparr>malloc_n := malloc_n nd + n\<rparr>))
       (reslice3 (buf nd) (malloc_n nd) (malloc_n nd + n) (malloc_n nd + n))"

definition getMode :: "8 word \<Rightarrow> node \<Rightarrow> bool" where
  "getMode msk nd \<longleftrightarrow> mode nd AND msk > 0"

definition setMode :: "8 word \<Rightarrow> bool \<Rightarrow> node \<Rightarrow> node" where
  "setMode msk enable nd =
     (if enable then nd\<lparr>mode := mode nd OR msk\<rparr>
      else nd\<lparr>mode := mode nd AND NOT msk\<rparr>)"

definition reusable :: "node \<Rightarrow> bool" where
  "reusable nd \<longleftrightarrow> mode nd AND (readonlyMask OR nocopyReadMask) = 0"

subsection \<open>Allocation, sharing and release\<close>

definition blank_node :: node where
  "blank_node = \<lparr>buf = nil_slice, off = 0, malloc_n = 0, refer = 1,
                 mode = 0, origin = None, next_n = None\<rparr>"

definition linkedPool_Get :: "world \<Rightarrow> addr \<times> world" where
  "linkedPool_Get w =
     (case pool w of
        [] \<Rightarrow> (next_addr w,
               w\<lparr>nodes := (nodes w)(next_addr w \<mapsto> blank_node), next_addr := Suc (next_addr w)\<rparr>)
      | a # as \<Rightarrow> (a, w\<lparr>pool := as\<rparr>))"

definition linkedPool_Put :: "addr \<Rightarrow> world \<Rightarrow> world" where
  "linkedPool_Put a w = w\<lparr>pool := a # pool w\<rparr>"

definition newLinkBufferNode :: "globals \<Rightarrow> int \<Rightarrow> world \<Rightarrow> (addr \<times> world) option" where
  "newLinkBufferNode g sz w =
     (let (a, w) = linkedPool_Get w
      in case nodes w a of
           None \<Rightarrow> None
         | Some nd \<Rightarrow>
             (let nd = nd\<lparr>off := 0, malloc_n := 0, refer := 1, mode := defaultLinkBufferMode\<rparr>
              in if sz \<le> 0 then Some (a, set_node a (setMode readonlyMask True nd) w)
                 else (let sz = (if sz < LinkBufferCap g then LinkBufferCap g else sz);
                           (b, w) = malloc g 0 sz w
                       in Some (a, set_node a (nd\<lparr>buf := b\<rparr>) w))))"

definition node_Refer :: "globals \<Rightarrow> int \<Rightarrow> addr \<Rightarrow> world \<Rightarrow> (addr \<times> world) option" where
  "node_Refer g n a w =
     do {
       (p, w) \<leftarrow> newLinkBufferNode g 0 w;
       nd \<leftarrow> nodes w a;
       (s, nd') \<leftarrow> node_Next n nd;
       let w = set_node a nd' w;
       let r = (case origin nd' of Some r \<Rightarrow> r | None \<Rightarrow> a);
       w \<leftarrow> upd_node p (\<lambda>x. x\<lparr>buf := s, origin := Some r\<rparr>) w;
       w \<leftarrow> upd_node r (\<lambda>x. x\<lparr>refer := refer x + 1\<rparr>) w;
       Some (p, w)
     }"

partial_function (option) node_Release :: "addr \<Rightarrow> world \<Rightarrow> world option" where
  "node_Release a w =
     (case nodes w a of
        None \<Rightarrow> None
      | Some nd \<Rightarrow>
          Option.bind (case origin nd of None \<Rightarrow> Some w | Some r \<Rightarrow> node_Release r w)
            (\<lambda>w. case nodes w a of
                None \<Rightarrow> None
              | Some nd \<Rightarrow>
                  (let nd = nd\<lparr>refer := refer nd - 1\<rparr>
                   in if refer nd = 0
                      then (let w = (if reusable nd then free (buf nd) w else w);
                                nd = nd\<lparr>buf := nil_slice, origin := None, next_n := None\<rparr>
                            in Some (linkedPool_Put a (set_node a nd w)))
                      else Some (set_node a nd w))))"

declare node_Release.simps [code]

end
