(* ===== verification/LinkBuffer.thy ===== *)
theory LinkBuffer
  imports Nodes Errors
begin

section \<open>LinkBuffer: state and operations (nocopy\_linkbuffer.go)\<close>

text \<open>
  \<^verbatim>\<open>UnsafeLinkBuffer\<close>, a chain of nodes with four cursors: \<^verbatim>\<open>head\<close> (first node not released),
  \<^verbatim>\<open>read\<close> (reader), \<^verbatim>\<open>flush\<close> (last submitted node) and \<^verbatim>\<open>write\<close> (writer). Every operation takes
  the buffer and the heap and returns both; loops that follow \<^verbatim>\<open>next\<close> pointers are partial
  functions, so following a nil pointer or a cycle is \<open>None\<close>.
\<close>

subsection \<open>State\<close>

record LinkBuffer =
  length_b :: int
  mallocSize :: int
  head :: "addr option"
  read :: "addr option"
  flush :: "addr option"
  write_n :: "addr option"
  caches :: "slice list"
  cachePeek :: "slice option"

type_synonym 'a lb_result = "('a \<times> LinkBuffer \<times> world) option"

definition zero_LinkBuffer :: LinkBuffer where
  "zero_LinkBuffer = \<lparr>length_b = 0, mallocSize = 0, head = None, read = None,
                      flush = None, write_n = None, caches = [], cachePeek = None\<rparr>"

definition BinaryInplaceThreshold :: int where "BinaryInplaceThreshold = block4k"

definition untilErr :: error where
  "untilErr = EText ''link buffer read slice cannot find delim''"

definition NewLinkBuffer :: "globals \<Rightarrow> int option \<Rightarrow> world \<Rightarrow> (LinkBuffer \<times> world) option" where
  "NewLinkBuffer g sz w =
     do {
       let l = (case sz of None \<Rightarrow> 0 | Some l \<Rightarrow> l);
       (node, w) \<leftarrow> newLinkBufferNode g l w;
       Some (zero_LinkBuffer\<lparr>head := Some node, read := Some node,
                             flush := Some node, write_n := Some node\<rparr>, w)
     }"

definition lb_Len :: "LinkBuffer \<Rightarrow> int" where
  "lb_Len b = length_b b"

definition lb_IsEmpty :: "LinkBuffer \<Rightarrow> bool" where
  "lb_IsEmpty b \<longleftrightarrow> lb_Len b = 0"

subsection \<open>Shared steps\<close>

definition recalLen :: "int \<Rightarrow> LinkBuffer \<Rightarrow> int \<times> LinkBuffer" where
  "recalLen delta b =
     (let b = (if delta < 0
               then b\<lparr>cachePeek := (case cachePeek b of
                        None \<Rightarrow> None
                      | Some c \<Rightarrow> Some (if s_len c > 0 then c\<lparr>s_len := 0\<rparr> else c))\<rparr>
               else b)
      in (length_b b + delta, b\<lparr>length_b := length_b b + delta\<rparr>))"

partial_function (option) isSingleNode_loop :: "LinkBuffer \<Rightarrow> world \<Rightarrow> LinkBuffer option" where
  "isSingleNode_loop b w =
     (case deref w (read b) of
        None \<Rightarrow> None
      | Some nd \<Rightarrow>
          if node_Len nd = 0 \<and> read b \<noteq> flush b
          then isSingleNode_loop (b\<lparr>read := next_n nd\<rparr>) w
          else Some b)"

definition isSingleNode :: "int \<Rightarrow> LinkBuffer \<Rightarrow> world \<Rightarrow> (bool \<times> LinkBuffer) option" where
  "isSingleNode readN b w =
     (if readN \<le> 0 then Some (True, b)
      else do {
        b \<leftarrow> isSingleNode_loop b w;
        nd \<leftarrow> deref w (read b);
        Some (node_Len nd \<ge> readN, b)
      })"

text \<open>The copy loop of \<^verbatim>\<open>Next\<close> and \<^verbatim>\<open>readBinary\<close> over several nodes.\<close>

partial_function (option) read_loop ::
    "int \<Rightarrow> slice \<Rightarrow> int \<Rightarrow> LinkBuffer \<Rightarrow> world \<Rightarrow> (LinkBuffer \<times> world) option" where
  "read_loop ack p pIdx b w =
     (if ack > 0 then
        do {
          r \<leftarrow> read b;
          nd \<leftarrow> nodes w r;
          let l = node_Len nd;
          if l \<ge> ack then
            do {
              (src, nd') \<leftarrow> node_Next ack nd;
              dst \<leftarrow> reslice p pIdx (s_len p);
              let w = set_node r nd' w;
              let (k, w) = go_copy dst (slice_bytes w src) w;
              Some (b, w)
            }
          else if l > 0 then
            do {
              (src, nd') \<leftarrow> node_Next l nd;
              dst \<leftarrow> reslice p pIdx (s_len p);
              let w = set_node r nd' w;
              let (k, w) = go_copy dst (slice_bytes w src) w;
              read_loop (ack - l) p (pIdx + k) (b\<lparr>read := next_n nd'\<rparr>) w
            }
          else read_loop (ack - l) p pIdx (b\<lparr>read := next_n nd\<rparr>) w
        }
      else Some (b, w))"

subsection \<open>Reader\<close>

definition lb_Next :: "globals \<Rightarrow> int \<Rightarrow> LinkBuffer \<Rightarrow> world \<Rightarrow> (error + slice) lb_result" where
  "lb_Next g n b w =
     (if n \<le> 0 then Some (Inr nil_slice, b, w)
      else if lb_Len b < n then Some (Inl (EFmt ''link buffer next[%d] not enough'' n), b, w)
      else do {
        let b = snd (recalLen (- n) b);
        (single, b) \<leftarrow> isSingleNode n b w;
        if single then
          do {
            r \<leftarrow> read b;
            nd \<leftarrow> nodes w r;
            (p, nd') \<leftarrow> node_Next n nd;
            Some (Inr p, b, set_node r nd' w)
          }
        else
          do {
            let (p, b, w) =
              (if block1k < n \<and> n \<le> mallocMax
               then (let (p, w) = malloc g n n w in (p, b\<lparr>caches := caches b @ [p]\<rparr>, w))
               else (let (p, w) = new_array n n w in (p, b, w)));
            (b, w) \<leftarrow> read_loop n p 0 b w;
            Some (Inr p, b, w)
          }
      })"

partial_function (option) Peek_loop ::
    "int \<Rightarrow> int \<Rightarrow> addr option \<Rightarrow> slice \<Rightarrow> world \<Rightarrow> (slice \<times> world) option" where
  "Peek_loop n scanned node p w =
     (if s_len p < n then
        do {
          nd \<leftarrow> deref w node;
          let l = node_Len nd;
          if scanned + l \<le> s_len p then Peek_loop n (scanned + l) (next_n nd) p w
          else
            do {
              let start = s_len p - scanned;
              let copyn = n - s_len p;
              let nodeLeftN = l - start;
              let copyn = (if copyn > nodeLeftN then nodeLeftN else copyn);
              s \<leftarrow> node_Peek l nd;
              s' \<leftarrow> reslice s start (start + copyn);
              let (p, w) = go_append p (slice_bytes w s') w;
              Peek_loop n (scanned + l) (next_n nd) p w
            }
        }
      else Some (p, w))"

text \<open>The cache \<^verbatim>\<open>Peek\<close> copies into: kept if it is large enough, else replaced.\<close>

definition peek_cache :: "globals \<Rightarrow> int \<Rightarrow> LinkBuffer \<Rightarrow> world \<Rightarrow> slice \<times> LinkBuffer \<times> world" where
  "peek_cache g n b w =
     (let (b, w) =
        (case cachePeek b of
           Some c \<Rightarrow> if s_cap c < n then (b\<lparr>cachePeek := None\<rparr>, free c w) else (b, w)
         | None \<Rightarrow> (b, w))
      in case cachePeek b of
           Some c \<Rightarrow> (c, b, w)
         | None \<Rightarrow> (let (c, w) = malloc g 0 n w in (c, b\<lparr>cachePeek := Some c\<rparr>, w)))"

definition lb_Peek :: "globals \<Rightarrow> int \<Rightarrow> LinkBuffer \<Rightarrow> world \<Rightarrow> (error + slice) lb_result" where
  "lb_Peek g n b w =
     (if n \<le> 0 then Some (Inr nil_slice, b, w)
      else if lb_Len b < n then Some (Inl (EFmt ''link buffer peek[%d] not enough'' n), b, w)
      else do {
        (single, b) \<leftarrow> isSingleNode n b w;
        if single then
          do {
            nd \<leftarrow> deref w (read b);
            p \<leftarrow> node_Peek n nd;
            Some (Inr p, b, w)
          }
        else
          do {
            let (p, b, w) = peek_cache g n b w;
            if s_len p \<ge> n then
              do { q \<leftarrow> reslice p 0 n; Some (Inr q, b, w) }
            else
              do {
                (p, w) \<leftarrow> Peek_loop n 0 (read b) p w;
                q \<leftarrow> reslice p 0 n;
                Some (Inr q, b\<lparr>cachePeek := Some p\<rparr>, w)
              }
          }
      })"

partial_function (option) Skip_loop ::
    "int \<Rightarrow> LinkBuffer \<Rightarrow> world \<Rightarrow> (LinkBuffer \<times> world) option" where
  "Skip_loop ack b w =
     (if ack > 0 then
        do {
          r \<leftarrow> read b;
          nd \<leftarrow> nodes w r;
          let l = node_Len nd;
          if l \<ge> ack then Some (b, set_node r (nd\<lparr>off := off nd + ack\<rparr>) w)
          else Skip_loop (ack - l) (b\<lparr>read := next_n nd\<rparr>) w
        }
      else Some (b, w))"

definition lb_Skip :: "int \<Rightarrow> LinkBuffer \<Rightarrow> world \<Rightarrow> (error option) lb_result" where
  "lb_Skip n b w =
     (if n \<le> 0 then Some (None, b, w)
      else if lb_Len b < n then Some (Some (EFmt ''link buffer skip[%d] not enough'' n), b, w)
      else do {
        let b = snd (recalLen (- n) b);
        (b, w) \<leftarrow> Skip_loop n b w;
        Some (None, b, w)
      })"

partial_function (option) Release_read_loop :: "LinkBuffer \<Rightarrow> world \<Rightarrow> LinkBuffer option" where
  "Release_read_loop b w =
     (if read b \<noteq> flush b then
        (case deref w (read b) of
           None \<Rightarrow> None
         | Some nd \<Rightarrow>
             if node_Len nd = 0 then Release_read_loop (b\<lparr>read := next_n nd\<rparr>) w
             else Some b)
      else Some b)"

partial_function (option) Release_head_loop ::
    "LinkBuffer \<Rightarrow> world \<Rightarrow> (LinkBuffer \<times> world) option" where
  "Release_head_loop b w =
     (if head b \<noteq> read b then
        do {
          node \<leftarrow> head b;
          nd \<leftarrow> nodes w node;
          w \<leftarrow> node_Release node w;
          Release_head_loop (b\<lparr>head := next_n nd\<rparr>) w
        }
      else Some (b, w))"

definition lb_Release :: "LinkBuffer \<Rightarrow> world \<Rightarrow> (LinkBuffer \<times> world) option" where
  "lb_Release b w =
     do {
       b \<leftarrow> Release_read_loop b w;
       (b, w) \<leftarrow> Release_head_loop b w;
       let w = fold free (caches b) w;
       let b = b\<lparr>caches := []\<rparr>;
       Some (case cachePeek b of
               None \<Rightarrow> (b, w)
             | Some c \<Rightarrow> (b\<lparr>cachePeek := None\<rparr>, free c w))
     }"

definition lb_readBinary :: "globals \<Rightarrow> int \<Rightarrow> LinkBuffer \<Rightarrow> world \<Rightarrow> slice lb_result" where
  "lb_readBinary g n b w =
     do {
       let b = snd (recalLen (- n) b);
       (single, b) \<leftarrow> isSingleNode n b w;
       if single then
         do {
           r \<leftarrow> read b;
           nd \<leftarrow> nodes w r;
           if \<not> getMode readonlyMask nd \<and> getMode nocopyReadMask nd then
             do { (p, nd) \<leftarrow> node_Next n nd; Some (p, b, set_node r nd w) }
           else if \<not> getMode readonlyMask nd \<and> featureAlwaysNoCopyRead g \<and> n \<ge> minReuseBytes then
             do { (p, nd) \<leftarrow> node_Next n (setMode nocopyReadMask True nd);
                  Some (p, b, set_node r nd w) }
           else
             do {
               let (p, w) = new_array n n w;
               (src, nd) \<leftarrow> node_Next n nd;
               let w = set_node r nd w;
               let (_, w) = go_copy p (slice_bytes w src) w;
               Some (p, b, w)
             }
         }
       else
         do {
           let (p, w) = new_array n n w;
           (b, w) \<leftarrow> read_loop n p 0 b w;
           Some (p, b, w)
         }
     }"

definition lb_ReadString :: "globals \<Rightarrow> int \<Rightarrow> LinkBuffer \<Rightarrow> world \<Rightarrow> (error + slice) lb_result" where
  "lb_ReadString g n b w =
     (if n \<le> 0 then Some (Inr nil_slice, b, w)
      else if lb_Len b < n then
        Some (Inl (EFmt ''link buffer read string[%d] not enough'' n), b, w)
      else do { (p, b, w) \<leftarrow> lb_readBinary g n b w; Some (Inr p, b, w) })"

definition lb_ReadBinary :: "globals \<Rightarrow> int \<Rightarrow> LinkBuffer \<Rightarrow> world \<Rightarrow> (error + slice) lb_result" where
  "lb_ReadBinary g n b w =
     (if n \<le> 0 then Some (Inr nil_slice, b, w)
      else if lb_Len b < n then
        Some (Inl (EFmt ''link buffer read binary[%d] not enough'' n), b, w)
      else do { (p, b, w) \<leftarrow> lb_readBinary g n b w; Some (Inr p, b, w) })"

partial_function (option) ReadByte_loop :: "LinkBuffer \<Rightarrow> world \<Rightarrow> byte lb_result" where
  "ReadByte_loop b w =
     do {
       r \<leftarrow> read b;
       nd \<leftarrow> nodes w r;
       if node_Len nd \<ge> 1 then
         do {
           (p, nd') \<leftarrow> node_Next 1 nd;
           Some (slice_bytes w p ! 0, b, set_node r nd' w)
         }
       else ReadByte_loop (b\<lparr>read := next_n nd\<rparr>) w
     }"

definition lb_ReadByte :: "LinkBuffer \<Rightarrow> world \<Rightarrow> (error + byte) lb_result" where
  "lb_ReadByte b w =
     (if lb_Len b < 1 then Some (Inl (EText ''link buffer read byte is empty''), b, w)
      else do {
        let b = snd (recalLen (-1) b);
        (x, b, w) \<leftarrow> ReadByte_loop b w;
        Some (Inr x, b, w)
      })"

text \<open>\<^verbatim>\<open>bytes.IndexByte\<close>: the first position of a byte, or -1.\<close>

definition IndexByte :: "byte list \<Rightarrow> byte \<Rightarrow> int" where
  "IndexByte bs c =
     (let k = length (takeWhile (\<lambda>x. x \<noteq> c) bs)
      in if k < length bs then int k else -1)"

partial_function (option) indexByte_loop ::
    "byte \<Rightarrow> int \<Rightarrow> int \<Rightarrow> int \<Rightarrow> addr option \<Rightarrow> world \<Rightarrow> int option" where
  "indexByte_loop c sz unread skip node w =
     (if unread > 0 then
        do {
          nd \<leftarrow> deref w node;
          let l = node_Len nd;
          let n = (if l \<ge> unread then unread else l);
          if skip \<ge> n then indexByte_loop c sz (unread - n) (skip - n) (next_n nd) w
          else
            do {
              s \<leftarrow> node_Peek n nd;
              s' \<leftarrow> reslice s skip (s_len s);
              let i = IndexByte (slice_bytes w s') c;
              if i \<ge> 0 then Some ((sz - unread) + skip + i)
              else indexByte_loop c sz (unread - n) 0 (next_n nd) w
            }
        }
      else Some (-1))"

definition lb_indexByte :: "byte \<Rightarrow> int \<Rightarrow> LinkBuffer \<Rightarrow> world \<Rightarrow> int option" where
  "lb_indexByte c skip b w =
     (let sz = lb_Len b
      in if skip \<ge> sz then Some (-1) else indexByte_loop c sz sz skip (read b) w)"

definition lb_Until :: "globals \<Rightarrow> byte \<Rightarrow> LinkBuffer \<Rightarrow> world \<Rightarrow> (error + slice) lb_result" where
  "lb_Until g delim b w =
     do {
       n \<leftarrow> lb_indexByte delim 0 b w;
       if n < 0 then Some (Inl untilErr, b, w) else lb_Next g (n + 1) b w
     }"

end
