(* ===== verification/LinkBufferW.thy ===== *)
theory LinkBufferW
  imports LinkBuffer
begin

section \<open>LinkBuffer: slicing, writing and the connection interface (nocopy\_linkbuffer.go)\<close>

text \<open>
  \<^verbatim>\<open>Slice\<close>, the Writer methods, \<^verbatim>\<open>Close\<close>, and the methods the connection uses directly
  (\<^verbatim>\<open>Bytes\<close>, \<^verbatim>\<open>GetBytes\<close>, \<^verbatim>\<open>book\<close>, \<^verbatim>\<open>bookAck\<close>, \<^verbatim>\<open>calcMaxSize\<close>, \<^verbatim>\<open>resetTail\<close>, \<^verbatim>\<open>memorySize\<close>).
\<close>

subsection \<open>Slice\<close>

text \<open>
  The loop that refers the nodes after the first; \<open>p\<close> is the slice buffer under construction.
\<close>

partial_function (option) Slice_loop ::
    "globals \<Rightarrow> int \<Rightarrow> LinkBuffer \<Rightarrow> LinkBuffer \<Rightarrow> world \<Rightarrow> (LinkBuffer \<times> LinkBuffer \<times> world) option"
where
  "Slice_loop g ack p b w =
     (if ack > 0 then
        do {
          r \<leftarrow> read b;
          nd \<leftarrow> nodes w r;
          let l = node_Len nd;
          if l \<ge> ack then
            do {
              (x, w) \<leftarrow> node_Refer g ack r w;
              fl \<leftarrow> flush p;
              w \<leftarrow> upd_node fl (\<lambda>x'. x'\<lparr>next_n := Some x\<rparr>) w;
              Some (p\<lparr>flush := Some x\<rparr>, b, w)
            }
          else if l > 0 then
            do {
              (x, w) \<leftarrow> node_Refer g l r w;
              fl \<leftarrow> flush p;
              w \<leftarrow> upd_node fl (\<lambda>x'. x'\<lparr>next_n := Some x\<rparr>) w;
              Slice_loop g (ack - l) (p\<lparr>flush := Some x\<rparr>) (b\<lparr>read := next_n nd\<rparr>) w
            }
          else Slice_loop g (ack - l) p (b\<lparr>read := next_n nd\<rparr>) w
        }
      else Some (p, b, w))"

text \<open>The deferred function of \<^verbatim>\<open>Slice\<close>: it makes the slice read-only.\<close>

definition Slice_defer :: "LinkBuffer \<Rightarrow> world \<Rightarrow> LinkBuffer option" where
  "Slice_defer p w =
     do {
       nd \<leftarrow> deref w (flush p);
       Some (p\<lparr>flush := next_n nd, write_n := next_n nd\<rparr>)
     }"

definition lb_Slice :: "globals \<Rightarrow> int \<Rightarrow> LinkBuffer \<Rightarrow> world \<Rightarrow> (error + LinkBuffer) lb_result" where
  "lb_Slice g n b w =
     (if n \<le> 0 then do { (p, w) \<leftarrow> NewLinkBuffer g (Some 0) w; Some (Inr p, b, w) }
      else if lb_Len b < n then Some (Inl (EFmt ''link buffer readv[%d] not enough'' n), b, w)
      else do {
        let b = snd (recalLen (- n) b);
        let p = zero_LinkBuffer\<lparr>length_b := n\<rparr>;
        (single, b) \<leftarrow> isSingleNode n b w;
        if single then
          do {
            r \<leftarrow> read b;
            (node, w) \<leftarrow> node_Refer g n r w;
            p \<leftarrow> Slice_defer (p\<lparr>head := Some node, read := Some node, flush := Some node\<rparr>) w;
            Some (Inr p, b, w)
          }
        else
          do {
            r \<leftarrow> read b;
            nd \<leftarrow> nodes w r;
            let l = node_Len nd;
            (node, w) \<leftarrow> node_Refer g l r w;
            let b = b\<lparr>read := next_n nd\<rparr>;
            let p = p\<lparr>head := Some node, read := Some node, flush := Some node\<rparr>;
            (p, b, w) \<leftarrow> Slice_loop g (n - l) p b w;
            (b, w) \<leftarrow> lb_Release b w;
            p \<leftarrow> Slice_defer p w;
            Some (Inr p, b, w)
          }
      })"

subsection \<open>Writer\<close>

partial_function (option) growth_loop ::
    "globals \<Rightarrow> int \<Rightarrow> LinkBuffer \<Rightarrow> world \<Rightarrow> (LinkBuffer \<times> world) option" where
  "growth_loop g n b w =
     do {
       wr \<leftarrow> write_n b;
       nd \<leftarrow> nodes w wr;
       if getMode readonlyMask nd \<or> s_cap (buf nd) - malloc_n nd < n then
         (case next_n nd of
            None \<Rightarrow>
              do {
                (x, w) \<leftarrow> newLinkBufferNode g n w;
                w \<leftarrow> upd_node wr (\<lambda>y. y\<lparr>next_n := Some x\<rparr>) w;
                Some (b\<lparr>write_n := Some x\<rparr>, w)
              }
          | Some x \<Rightarrow> growth_loop g n (b\<lparr>write_n := Some x\<rparr>) w)
       else Some (b, w)
     }"

definition growth :: "globals \<Rightarrow> int \<Rightarrow> LinkBuffer \<Rightarrow> world \<Rightarrow> (LinkBuffer \<times> world) option" where
  "growth g n b w = (if n \<le> 0 then Some (b, w) else growth_loop g n b w)"

definition write_Malloc :: "int \<Rightarrow> LinkBuffer \<Rightarrow> world \<Rightarrow> (slice \<times> world) option" where
  "write_Malloc n b w =
     do {
       wr \<leftarrow> write_n b;
       nd \<leftarrow> nodes w wr;
       (s, nd') \<leftarrow> node_Malloc n nd;
       Some (s, set_node wr nd' w)
     }"

definition lb_Malloc :: "globals \<Rightarrow> int \<Rightarrow> LinkBuffer \<Rightarrow> world \<Rightarrow> slice lb_result" where
  "lb_Malloc g n b w =
     (if n \<le> 0 then Some (nil_slice, b, w)
      else do {
        let b = b\<lparr>mallocSize := mallocSize b + n\<rparr>;
        (b, w) \<leftarrow> growth g n b w;
        (s, w) \<leftarrow> write_Malloc n b w;
        Some (s, b, w)
      })"

definition lb_MallocLen :: "LinkBuffer \<Rightarrow> int" where
  "lb_MallocLen b = mallocSize b"

partial_function (option) MallocAck_loop ::
    "int \<Rightarrow> LinkBuffer \<Rightarrow> world \<Rightarrow> (LinkBuffer \<times> world) option" where
  "MallocAck_loop ack b w =
     (if ack > 0 then
        do {
          wr \<leftarrow> write_n b;
          nd \<leftarrow> nodes w wr;
          let l = malloc_n nd - s_len (buf nd);
          if l \<ge> ack then Some (b, set_node wr (nd\<lparr>malloc_n := ack + s_len (buf nd)\<rparr>) w)
          else MallocAck_loop (ack - l) (b\<lparr>write_n := next_n nd\<rparr>) w
        }
      else Some (b, w))"

partial_function (option) discard_loop :: "addr option \<Rightarrow> world \<Rightarrow> world option" where
  "discard_loop node w =
     (case node of
        None \<Rightarrow> Some w
      | Some a \<Rightarrow>
          do {
            nd \<leftarrow> nodes w a;
            s \<leftarrow> reslice (buf nd) 0 0;
            discard_loop (next_n nd) (set_node a (nd\<lparr>off := 0, malloc_n := 0, refer := 1, buf := s\<rparr>) w)
          })"

definition lb_MallocAck :: "int \<Rightarrow> LinkBuffer \<Rightarrow> world \<Rightarrow> (error option) lb_result" where
  "lb_MallocAck n b w =
     (if n < 0 then Some (Some (EFmt ''link buffer malloc ack[%d] invalid'' n), b, w)
      else do {
        let b = b\<lparr>mallocSize := n, write_n := flush b\<rparr>;
        (b, w) \<leftarrow> MallocAck_loop n b w;
        nd \<leftarrow> deref w (write_n b);
        w \<leftarrow> discard_loop (next_n nd) w;
        Some (None, b, w)
      })"

text \<open>The loop of \<^verbatim>\<open>Flush\<close> from the flush node up to (not including) \<open>stop\<close>.\<close>

partial_function (option) Flush_loop ::
    "addr option \<Rightarrow> addr option \<Rightarrow> int \<Rightarrow> world \<Rightarrow> (int \<times> world) option" where
  "Flush_loop node stop n w =
     (if node \<noteq> stop then
        do {
          a \<leftarrow> node;
          nd \<leftarrow> nodes w a;
          let delta = malloc_n nd - s_len (buf nd);
          if delta > 0 then
            do {
              s \<leftarrow> reslice (buf nd) 0 (malloc_n nd);
              Flush_loop (next_n nd) stop (n + delta) (set_node a (nd\<lparr>buf := s\<rparr>) w)
            }
          else Flush_loop (next_n nd) stop n w
        }
      else Some (n, w))"

text \<open>\<^verbatim>\<open>b.write.next = newLinkBufferNode(size); b.write = b.write.next\<close>\<close>

definition append_node :: "globals \<Rightarrow> int \<Rightarrow> LinkBuffer \<Rightarrow> world \<Rightarrow> (LinkBuffer \<times> world) option" where
  "append_node g sz b w =
     do {
       wr \<leftarrow> write_n b;
       (x, w) \<leftarrow> newLinkBufferNode g sz w;
       w \<leftarrow> upd_node wr (\<lambda>y. y\<lparr>next_n := Some x\<rparr>) w;
       Some (b\<lparr>write_n := Some x\<rparr>, w)
     }"

definition lb_Flush :: "globals \<Rightarrow> LinkBuffer \<Rightarrow> world \<Rightarrow> (LinkBuffer \<times> world) option" where
  "lb_Flush g b w =
     do {
       let b = b\<lparr>mallocSize := 0\<rparr>;
       nd \<leftarrow> deref w (write_n b);
       (b, w) \<leftarrow> (if s_cap (buf nd) > pagesize then append_node g 0 b w else Some (b, w));
       nd \<leftarrow> deref w (write_n b);
       (n, w) \<leftarrow> Flush_loop (flush b) (next_n nd) 0 w;
       let b = b\<lparr>flush := write_n b\<rparr>;
       Some (snd (recalLen n b), w)
     }"

text \<open>
  \<^verbatim>\<open>WriteBuffer\<close> moves the nodes of \<open>buf\<close> to \<open>b\<close>: the nodes already read are released, then
  those after the write cursor.
\<close>

partial_function (option) WriteBuffer_tail_loop :: "addr option \<Rightarrow> world \<Rightarrow> world option" where
  "WriteBuffer_tail_loop node w =
     (case node of
        None \<Rightarrow> Some w
      | Some a \<Rightarrow>
          do {
            nd \<leftarrow> nodes w a;
            w \<leftarrow> node_Release a w;
            WriteBuffer_tail_loop (next_n nd) w
          })"

definition lb_WriteBuffer ::
    "LinkBuffer option \<Rightarrow> LinkBuffer \<Rightarrow> world \<Rightarrow> (LinkBuffer option \<times> LinkBuffer \<times> world) option" where
  "lb_WriteBuffer bo b w =
     (case bo of
        None \<Rightarrow> Some (None, b, w)
      | Some q \<Rightarrow>
          (let bufLen = lb_Len q; bufMallocLen = lb_MallocLen q
           in if bufLen + bufMallocLen \<le> 0 then Some (Some q, b, w)
              else do {
                wr \<leftarrow> write_n b;
                w \<leftarrow> upd_node wr (\<lambda>y. y\<lparr>next_n := read q\<rparr>) w;
                let b = b\<lparr>write_n := write_n q\<rparr>;
                (q, w) \<leftarrow> Release_head_loop q w;
                nd \<leftarrow> deref w (write_n q);
                w \<leftarrow> WriteBuffer_tail_loop (next_n nd) w;
                let q = q\<lparr>length_b := 0, mallocSize := 0, head := None, read := None,
                          flush := None, write_n := None\<rparr>;
                wr \<leftarrow> write_n b;
                w \<leftarrow> upd_node wr (\<lambda>y. y\<lparr>next_n := None\<rparr>) w;
                let b = (if bufLen > 0 then snd (recalLen bufLen b) else b);
                let b = b\<lparr>mallocSize := mallocSize b + bufMallocLen\<rparr>;
                Some (Some q, b, w)
              }))"

text \<open>The argument of \<^verbatim>\<open>Append\<close>: a link buffer, or some other \<^verbatim>\<open>Writer\<close>.\<close>

datatype writer = WLinkBuffer "LinkBuffer option" | WOther

definition lb_Append ::
    "writer \<Rightarrow> LinkBuffer \<Rightarrow> world \<Rightarrow> ((error + LinkBuffer option) \<times> LinkBuffer \<times> world) option" where
  "lb_Append x b w =
     (case x of
        WOther \<Rightarrow> Some (Inl (EText ''unsupported writer which is not LinkBuffer''), b, w)
      | WLinkBuffer q \<Rightarrow> do { (q, b, w) \<leftarrow> lb_WriteBuffer q b w; Some (Inr q, b, w) })"

definition lb_WriteBinary :: "globals \<Rightarrow> slice \<Rightarrow> LinkBuffer \<Rightarrow> world \<Rightarrow> int lb_result" where
  "lb_WriteBinary g p b w =
     (let n = s_len p
      in if n = 0 then Some (n, b, w)
         else do {
           let b = b\<lparr>mallocSize := mallocSize b + n\<rparr>;
           if n > BinaryInplaceThreshold then
             do {
               (b, w) \<leftarrow> append_node g 0 b w;
               wr \<leftarrow> write_n b;
               q \<leftarrow> reslice p 0 0;
               w \<leftarrow> upd_node wr (\<lambda>y. y\<lparr>buf := q, malloc_n := n\<rparr>) w;
               Some (n, b, w)
             }
           else
             do {
               (b, w) \<leftarrow> growth g n b w;
               (s, w) \<leftarrow> write_Malloc n b w;
               let (k, w) = go_copy s (slice_bytes w p) w;
               Some (k, b, w)
             }
         })"

text \<open>A Go string is a window of read-only memory, the slice \<^verbatim>\<open>unsafeStringToSlice\<close> makes of it.\<close>

definition lb_WriteString :: "globals \<Rightarrow> slice \<Rightarrow> LinkBuffer \<Rightarrow> world \<Rightarrow> int lb_result" where
  "lb_WriteString g s b w =
     (if s_len s = 0 then Some (0, b, w) else lb_WriteBinary g s b w)"

partial_function (option) WriteDirect_find ::
    "addr \<Rightarrow> int \<Rightarrow> world \<Rightarrow> (addr \<times> int) option" where
  "WriteDirect_find org m w =
     do {
       nd \<leftarrow> nodes w org;
       let t = malloc_n nd - s_len (buf nd);
       if t < m then
         do {
           nx \<leftarrow> next_n nd;
           WriteDirect_find nx (m - t) w
         }
       else Some (org, m)
     }"

partial_function (option) last_node :: "addr \<Rightarrow> world \<Rightarrow> addr option" where
  "last_node a w =
     (case nodes w a of
        None \<Rightarrow> None
      | Some nd \<Rightarrow> (case next_n nd of None \<Rightarrow> Some a | Some x \<Rightarrow> last_node x w))"

definition lb_WriteDirect :: "globals \<Rightarrow> slice \<Rightarrow> int \<Rightarrow> LinkBuffer \<Rightarrow> world \<Rightarrow> (LinkBuffer \<times> world) option"
where
  "lb_WriteDirect g extra remainLen b w =
     (let n = s_len extra
      in if n = 0 \<or> remainLen < 0 then Some (b, w)
         else do {
           fl \<leftarrow> flush b;
           (org, m) \<leftarrow> WriteDirect_find fl (mallocSize b - remainLen) w;
           nd \<leftarrow> nodes w org;
           let m = m + s_len (buf nd);
           (dataNode, w) \<leftarrow> newLinkBufferNode g 0 w;
           e \<leftarrow> reslice extra 0 0;
           w \<leftarrow> upd_node dataNode (\<lambda>y. y\<lparr>buf := e, malloc_n := n\<rparr>) w;
           w \<leftarrow>
             (if remainLen > 0 then
                do {
                  (newNode, w) \<leftarrow> newLinkBufferNode g 0 w;
                  nd \<leftarrow> nodes w org;
                  s \<leftarrow> reslice (buf nd) 0 m;
                  w \<leftarrow> upd_node newNode
                        (\<lambda>y. setMode readonlyMask False
                          (y\<lparr>off := m, buf := s, malloc_n := malloc_n nd, next_n := next_n nd\<rparr>)) w;
                  w \<leftarrow> upd_node dataNode (\<lambda>y. y\<lparr>next_n := Some newNode\<rparr>) w;
                  upd_node org
                    (\<lambda>y. setMode readonlyMask True (y\<lparr>malloc_n := m, next_n := Some dataNode\<rparr>)) w
                }
              else
                do {
                  nd \<leftarrow> nodes w org;
                  w \<leftarrow> upd_node dataNode (\<lambda>y. y\<lparr>next_n := next_n nd\<rparr>) w;
                  upd_node org (\<lambda>y. y\<lparr>next_n := Some dataNode\<rparr>) w
                });
           wr \<leftarrow> write_n b;
           wr \<leftarrow> last_node wr w;
           Some (b\<lparr>write_n := Some wr, mallocSize := mallocSize b + n\<rparr>, w)
         })"

definition lb_WriteByte :: "globals \<Rightarrow> byte \<Rightarrow> LinkBuffer \<Rightarrow> world \<Rightarrow> (LinkBuffer \<times> world) option" where
  "lb_WriteByte g x b w =
     do {
       (dst, b, w) \<leftarrow> lb_Malloc g 1 b w;
       Some (b, if s_len dst = 1 then store_bytes dst [x] w else w)
     }"

subsection \<open>Close and the connection interface\<close>

definition lb_Close :: "LinkBuffer \<Rightarrow> world \<Rightarrow> (LinkBuffer \<times> world) option" where
  "lb_Close b w =
     do {
       let b = b\<lparr>length_b := 0, mallocSize := 0\<rparr>;
       (b, w) \<leftarrow> lb_Release b w;
       w \<leftarrow> WriteBuffer_tail_loop (head b) w;
       Some (b\<lparr>head := None, read := None, flush := None, write_n := None\<rparr>, w)
     }"

partial_function (option) Bytes_loop ::
    "addr option \<Rightarrow> addr option \<Rightarrow> slice \<Rightarrow> int \<Rightarrow> world \<Rightarrow> (int \<times> world) option" where
  "Bytes_loop node fl p n w =
     (if node \<noteq> fl then
        do {
          nd \<leftarrow> deref w node;
          if node_Len nd > 0 then
            do {
              dst \<leftarrow> reslice p n (s_len p);
              src \<leftarrow> reslice (buf nd) (off nd) (s_len (buf nd));
              let (k, w) = go_copy dst (slice_bytes w src) w;
              Bytes_loop (next_n nd) fl p (n + k) w
            }
          else Bytes_loop (next_n nd) fl p n w
        }
      else Some (n, w))"

definition lb_Bytes :: "LinkBuffer \<Rightarrow> world \<Rightarrow> (slice \<times> world) option" where
  "lb_Bytes b w =
     (if read b = flush b then
        do {
          nd \<leftarrow> deref w (read b);
          s \<leftarrow> reslice (buf nd) (off nd) (s_len (buf nd));
          Some (s, w)
        }
      else
        do {
          let (p, w) = new_array (lb_Len b) (lb_Len b) w;
          (n, w) \<leftarrow> Bytes_loop (read b) (flush b) p 0 w;
          fd \<leftarrow> deref w (flush b);
          dst \<leftarrow> reslice p n (s_len p);
          src \<leftarrow> reslice (buf fd) (off fd) (s_len (buf fd));
          let (k, w) = go_copy dst (slice_bytes w src) w;
          s \<leftarrow> reslice p 0 (n + k);
          Some (s, w)
        })"

partial_function (option) count_nodes :: "addr option \<Rightarrow> addr option \<Rightarrow> world \<Rightarrow> nat option" where
  "count_nodes node fl w =
     (if node \<noteq> fl then
        do {
          nd \<leftarrow> deref w node;
          k \<leftarrow> count_nodes (next_n nd) fl w;
          Some (Suc k)
        }
      else Some 0)"

text \<open>\<open>room\<close> is \<^verbatim>\<open>len(p) - i\<close>; the second result is the number of free places left.\<close>

partial_function (option) GetBytes_loop ::
    "addr option \<Rightarrow> addr option \<Rightarrow> nat \<Rightarrow> world \<Rightarrow> (slice list \<times> nat) option" where
  "GetBytes_loop node fl room w =
     (if node \<noteq> fl \<and> room > 0 then
        do {
          nd \<leftarrow> deref w node;
          if node_Len nd > 0 then
            do {
              s \<leftarrow> reslice (buf nd) (off nd) (s_len (buf nd));
              (vs, r) \<leftarrow> GetBytes_loop (next_n nd) fl (room - 1) w;
              Some (s # vs, r)
            }
          else GetBytes_loop (next_n nd) fl room w
        }
      else Some ([], room))"

text \<open>\<^verbatim>\<open>GetBytes(p)\<close>: the places of \<open>p\<close> are overwritten, so only their number matters.\<close>

definition lb_GetBytes :: "nat \<Rightarrow> LinkBuffer \<Rightarrow> world \<Rightarrow> slice list option" where
  "lb_GetBytes plen b w =
     do {
       plen \<leftarrow> (if plen = 0 then count_nodes (read b) (flush b) w else Some plen);
       (vs, room) \<leftarrow> GetBytes_loop (read b) (flush b) plen w;
       if room > 0 then
         do {
           fd \<leftarrow> deref w (flush b);
           s \<leftarrow> reslice (buf fd) (off fd) (s_len (buf fd));
           Some (vs @ [s])
         }
       else Some vs
     }"

definition lb_book :: "globals \<Rightarrow> int \<Rightarrow> int \<Rightarrow> LinkBuffer \<Rightarrow> world \<Rightarrow> slice lb_result" where
  "lb_book g bookSize maxSize b w =
     do {
       nd \<leftarrow> deref w (write_n b);
       let l = s_cap (buf nd) - malloc_n nd;
       (l, b, w) \<leftarrow>
         (if l = 0
          then do { (b, w) \<leftarrow> append_node g maxSize b w; Some (maxSize, b, w) }
          else Some (l, b, w));
       let l = (if l > bookSize then bookSize else l);
       (s, w) \<leftarrow> write_Malloc l b w;
       Some (s, b, w)
     }"

definition lb_bookAck :: "int \<Rightarrow> LinkBuffer \<Rightarrow> world \<Rightarrow> int lb_result" where
  "lb_bookAck n b w =
     do {
       wr \<leftarrow> write_n b;
       nd \<leftarrow> nodes w wr;
       let nd = nd\<lparr>malloc_n := n + s_len (buf nd)\<rparr>;
       s \<leftarrow> reslice (buf nd) 0 (malloc_n nd);
       let w = set_node wr (nd\<lparr>buf := s\<rparr>) w;
       let b = b\<lparr>flush := write_n b\<rparr>;
       let (len, b) = recalLen n b;
       Some (len, b, w)
     }"

partial_function (option) calcMaxSize_loop :: "addr option \<Rightarrow> addr option \<Rightarrow> int \<Rightarrow> world \<Rightarrow> int option" where
  "calcMaxSize_loop node rd acc w =
     (if node \<noteq> rd then
        (case deref w node of
           None \<Rightarrow> None
         | Some nd \<Rightarrow> calcMaxSize_loop (next_n nd) rd (acc + s_len (buf nd)) w)
      else Some acc)"

definition lb_calcMaxSize :: "LinkBuffer \<Rightarrow> world \<Rightarrow> int option" where
  "lb_calcMaxSize b w =
     do {
       acc \<leftarrow> calcMaxSize_loop (head b) (read b) 0 w;
       nd \<leftarrow> deref w (read b);
       Some (acc + s_len (buf nd))
     }"

definition lb_resetTail :: "globals \<Rightarrow> int \<Rightarrow> LinkBuffer \<Rightarrow> world \<Rightarrow> (LinkBuffer \<times> world) option" where
  "lb_resetTail g maxSize b w =
     (if maxSize \<le> pagesize then Some (b, w)
      else do {
        (b, w) \<leftarrow> append_node g 0 b w;
        Some (b\<lparr>flush := write_n b\<rparr>, w)
      })"

partial_function (option) memorySize_loop :: "addr option \<Rightarrow> int \<Rightarrow> world \<Rightarrow> int option" where
  "memorySize_loop node acc w =
     (case node of
        None \<Rightarrow> Some acc
      | Some a \<Rightarrow>
          (case nodes w a of
             None \<Rightarrow> None
           | Some nd \<Rightarrow> memorySize_loop (next_n nd) (acc + s_cap (buf nd)) w))"

definition lb_memorySize :: "LinkBuffer \<Rightarrow> world \<Rightarrow> int option" where
  "lb_memorySize b w =
     do {
       acc \<leftarrow> memorySize_loop (head b) 0 w;
       Some (acc + sum_list (map s_cap (caches b)) +
             (case cachePeek b of None \<Rightarrow> 0 | Some c \<Rightarrow> s_cap c))
     }"

end
