(* ===== verification/LinkBufferInv.thy ===== *)
theory LinkBufferInv
  imports LinkBufferW
begin

section \<open>LinkBuffer: abstraction and invariants\<close>

text \<open>
  A link buffer stands for a stream of bytes: what it holds from the read cursor on, the unread
  bytes of each node followed by its bytes that are allocated but not submitted. \<open>lb_rep\<close> is the
  representation invariant of one buffer with its node lists written out (released side,
  readable, unsubmitted, spare); \<open>world_ok\<close> is the invariant of the node heap, the pool and the
  reference counts, relative to the set \<open>own\<close> of nodes that some live buffer owns.
\<close>

subsection \<open>Chains of nodes\<close>

fun lseg :: "(addr \<Rightarrow> node option) \<Rightarrow> addr option \<Rightarrow> addr list \<Rightarrow> addr option \<Rightarrow> bool" where
  "lseg h p [] q \<longleftrightarrow> p = q"
| "lseg h p (a # as) q \<longleftrightarrow>
     p = Some a \<and> (case h a of None \<Rightarrow> False | Some nd \<Rightarrow> lseg h (next_n nd) as q)"

fun chain :: "nat \<Rightarrow> (addr \<Rightarrow> node option) \<Rightarrow> addr option \<Rightarrow> addr list" where
  "chain 0 h p = []"
| "chain (Suc k) h None = []"
| "chain (Suc k) h (Some a) = a # (case h a of None \<Rightarrow> [] | Some nd \<Rightarrow> chain k h (next_n nd))"

definition nd_at :: "world \<Rightarrow> addr \<Rightarrow> node" where
  "nd_at w a = (case nodes w a of Some nd \<Rightarrow> nd | None \<Rightarrow> blank_node)"

subsection \<open>The bytes of a node\<close>

definition unread :: "'m memory_scheme \<Rightarrow> node \<Rightarrow> byte list" where
  "unread m nd = drop (nat (off nd)) (slice_bytes m (buf nd))"

definition pend_len :: "node \<Rightarrow> int" where
  "pend_len nd = max 0 (malloc_n nd - s_len (buf nd))"

definition pend_win :: "node \<Rightarrow> slice" where
  "pend_win nd = \<lparr>s_arr = s_arr (buf nd), s_off = s_off (buf nd) + s_len (buf nd),
                  s_len = malloc_n nd - s_len (buf nd), s_cap = s_cap (buf nd) - s_len (buf nd)\<rparr>"

definition content :: "'m memory_scheme \<Rightarrow> node \<Rightarrow> byte list" where
  "content m nd = unread m nd @ slice_bytes m (pend_win nd)"

definition unreads :: "world \<Rightarrow> addr list \<Rightarrow> byte list" where
  "unreads w as = concat (map (\<lambda>a. unread w (nd_at w a)) as)"

definition contents :: "world \<Rightarrow> addr list \<Rightarrow> byte list" where
  "contents w as = concat (map (\<lambda>a. content w (nd_at w a)) as)"

definition lens :: "world \<Rightarrow> addr list \<Rightarrow> int" where
  "lens w as = sum_list (map (\<lambda>a. node_Len (nd_at w a)) as)"

definition pends :: "world \<Rightarrow> addr list \<Rightarrow> int" where
  "pends w as = sum_list (map (\<lambda>a. pend_len (nd_at w a)) as)"

text \<open>What a buffer holds, from the read cursor on.\<close>

definition stream :: "world \<Rightarrow> LinkBuffer \<Rightarrow> byte list" where
  "stream w b = contents w (chain (next_addr w) (nodes w) (read b))"

subsection \<open>Invariants\<close>

definition writable :: "node \<Rightarrow> bool" where
  "writable nd \<longleftrightarrow> \<not> getMode readonlyMask nd"

definition node_ok :: "node \<Rightarrow> bool" where
  "node_ok nd \<longleftrightarrow> 0 \<le> off nd \<and> off nd \<le> s_len (buf nd) \<and> s_len (buf nd) \<le> s_cap (buf nd) \<and>
                 0 \<le> malloc_n nd \<and> malloc_n nd \<le> s_cap (buf nd) \<and> 0 \<le> s_off (buf nd) \<and>
                 (writable nd \<longrightarrow> s_len (buf nd) \<le> malloc_n nd)"

text \<open>
  No other node lies in the part of a writable node that is still to be allocated.
\<close>

definition apart :: "node \<Rightarrow> node \<Rightarrow> bool" where
  "apart nd c \<longleftrightarrow>
     (writable nd \<longrightarrow>
        s_arr (buf c) \<noteq> s_arr (buf nd) \<or>
        (\<not> writable c \<and>
         s_off (buf c) + max (s_len (buf c)) (malloc_n c) \<le> s_off (buf nd) + malloc_n nd))"

definition peek_ok :: "world \<Rightarrow> addr list \<Rightarrow> byte list \<Rightarrow> slice option \<Rightarrow> bool" where
  "peek_ok w as bs co \<longleftrightarrow>
     (case co of
        None \<Rightarrow> True
      | Some c \<Rightarrow>
          0 \<le> s_len c \<and> s_len c \<le> s_cap c \<and> 0 < s_arr c \<and> s_arr c < next_arr w \<and>
          (\<forall>a\<in>set as. s_arr (buf (nd_at w a)) \<noteq> s_arr c) \<and>
          slice_bytes w c = take (nat (s_len c)) bs)"

definition lb_rep ::
    "world \<Rightarrow> LinkBuffer \<Rightarrow> addr list \<Rightarrow> addr list \<Rightarrow> addr list \<Rightarrow> addr list \<Rightarrow> bool" where
  "lb_rep w b hs rs ws ts \<longleftrightarrow>
     lseg (nodes w) (head b) hs (read b) \<and>
     lseg (nodes w) (read b) rs (flush b) \<and>
     lseg (nodes w) (flush b) ws (write_n b) \<and>
     lseg (nodes w) (write_n b) ts None \<and>
     distinct (hs @ rs @ ws @ ts) \<and>
     (\<forall>a\<in>set (hs @ rs @ ws @ ts). node_ok (nd_at w a) \<and> s_arr (buf (nd_at w a)) < next_arr w) \<and>
     (\<forall>a\<in>set rs. pend_len (nd_at w a) = 0) \<and>
     (\<forall>a\<in>set (tl ts). off (nd_at w a) = 0 \<and> s_len (buf (nd_at w a)) = 0 \<and> malloc_n (nd_at w a) = 0) \<and>
     (\<forall>a\<in>set (rs @ ws @ ts). \<forall>c\<in>set (rs @ ws @ ts). a \<noteq> c \<longrightarrow> apart (nd_at w a) (nd_at w c)) \<and>
     length_b b = lens w (rs @ ws @ ts) \<and>
     mallocSize b = pends w (ws @ ts) \<and>
     peek_ok w (rs @ ws @ ts) (unreads w (rs @ take 1 (ws @ ts))) (cachePeek b)"

text \<open>Everything appended has been submitted: no unread byte lies after the flush cursor.\<close>

definition submitted :: "world \<Rightarrow> LinkBuffer \<Rightarrow> bool" where
  "submitted w b \<longleftrightarrow>
     (\<forall>a\<in>set (tl (chain (next_addr w) (nodes w) (flush b))). node_Len (nd_at w a) = 0)"

definition refs :: "world \<Rightarrow> addr set \<Rightarrow> addr \<Rightarrow> nat" where
  "refs w own a = (if a \<in> own then 1 else 0) + card {c \<in> own. origin (nd_at w c) = Some a}"

definition world_ok :: "world \<Rightarrow> addr set \<Rightarrow> bool" where
  "world_ok w own \<longleftrightarrow>
     finite own \<and> distinct (pool w) \<and> 0 < next_arr w \<and>
     (\<forall>a. nodes w a \<noteq> None \<longrightarrow> a < next_addr w) \<and>
     (\<forall>a\<in>set (pool w). \<exists>nd. nodes w a = Some nd \<and> buf nd = nil_slice \<and>
                          origin nd = None \<and> next_n nd = None) \<and>
     (\<forall>a\<in>own. nodes w a \<noteq> None \<and> a \<notin> set (pool w)) \<and>
     (\<forall>a\<in>own. \<forall>r. origin (nd_at w a) = Some r \<longrightarrow>
        nodes w r \<noteq> None \<and> r \<notin> set (pool w) \<and> origin (nd_at w r) = None) \<and>
     (\<forall>a. a \<notin> set (pool w) \<longrightarrow> int (refs w own a) \<le> refer (nd_at w a) \<or> refs w own a = 0)"

definition lb_inv :: "world \<Rightarrow> addr set \<Rightarrow> LinkBuffer \<Rightarrow> bool" where
  "lb_inv w own b \<longleftrightarrow>
     world_ok w own \<and>
     (\<exists>hs rs ws ts. lb_rep w b hs rs ws ts \<and> set (hs @ rs @ ws @ ts) \<subseteq> own \<and>
        (\<forall>a\<in>set (hs @ rs @ ws @ ts). \<forall>r. origin (nd_at w a) = Some r \<longrightarrow>
           r \<notin> set (hs @ rs @ ws @ ts)))"


definition pendings :: "world \<Rightarrow> addr list \<Rightarrow> byte list" where
  "pendings w as = concat (map (\<lambda>a. slice_bytes w (pend_win (nd_at w a))) as)"

text \<open>Two nodes that differ at most in the read offset, the count and the no-copy flag.\<close>

definition node_like :: "node \<Rightarrow> node \<Rightarrow> bool" where
  "node_like nd nd' \<longleftrightarrow>
     buf nd' = buf nd \<and> malloc_n nd' = malloc_n nd \<and> next_n nd' = next_n nd \<and>
     origin nd' = origin nd \<and> writable nd' = writable nd"

subsection \<open>Facts about chains\<close>

lemma in_set_tlD: "a \<in> set (tl xs) \<Longrightarrow> a \<in> set xs"
  by (cases xs) auto

lemma lseg_append:
  "lseg h p (xs @ ys) q \<longleftrightarrow> (\<exists>m. lseg h p xs m \<and> lseg h m ys q)"
  by (induction xs arbitrary: p) (auto split: option.splits)

lemma lseg_cong:
  "(\<And>a. a \<in> set xs \<Longrightarrow> map_option next_n (h' a) = map_option next_n (h a)) \<Longrightarrow>
     lseg h' p xs q = lseg h p xs q"
proof (induction xs arbitrary: p)
  case (Cons a xs)
  then have "map_option next_n (h' a) = map_option next_n (h a)" by simp
  with Cons show ?case by (cases "h a"; cases "h' a") auto
qed simp

lemma lseg_dom: "lseg h p as q \<Longrightarrow> a \<in> set as \<Longrightarrow> h a \<noteq> None"
  by (induction as arbitrary: p) (auto split: option.splits)

lemma lseg_Cons_iff: "lseg h (Some r) as q \<Longrightarrow> Some r \<noteq> q \<Longrightarrow> \<exists>zs. as = r # zs"
  by (cases as) auto

lemma chain_lseg:
  "lseg h p as None \<Longrightarrow> length as \<le> k \<Longrightarrow> chain k h p = as"
proof (induction as arbitrary: p k)
  case Nil
  then show ?case by (cases k) auto
next
  case (Cons a as)
  then obtain j where "k = Suc j" by (cases k) auto
  with Cons show ?case by (auto split: option.splits)
qed

lemma distinct_below_length:
  assumes "distinct as" "\<And>a. a \<in> set as \<Longrightarrow> a < (n::nat)"
  shows "length as \<le> n"
proof -
  have "length as = card (set as)" using assms(1) by (simp add: distinct_card)
  also have "\<dots> \<le> card {..<n}" by (rule card_mono) (use assms(2) in auto)
  finally show ?thesis by simp
qed

lemma nd_at_Some [simp]: "nodes w a = Some nd \<Longrightarrow> nd_at w a = nd"
  by (simp add: nd_at_def)

subsection \<open>Facts about the bytes of nodes\<close>

lemma length_unread: "node_ok nd \<Longrightarrow> int (length (unread m nd)) = node_Len nd"
  by (simp add: unread_def node_ok_def node_Len_def flip: nat_diff_distrib)

lemma node_Len_nonneg: "node_ok nd \<Longrightarrow> 0 \<le> node_Len nd"
  by (simp add: node_ok_def node_Len_def)

lemma unread_Nil_iff: "node_ok nd \<Longrightarrow> unread m nd = [] \<longleftrightarrow> node_Len nd = 0"
  by (auto simp: unread_def node_ok_def node_Len_def)

lemma length_pend: "int (length (slice_bytes m (pend_win nd))) = pend_len nd"
  by (simp add: pend_win_def pend_len_def)

lemma pend_Nil_iff: "slice_bytes m (pend_win nd) = [] \<longleftrightarrow> pend_len nd = 0"
  using length_pend [of m nd] by (metis length_0_conv of_nat_eq_0_iff)

lemma length_unreads:
  "(\<And>a. a \<in> set as \<Longrightarrow> node_ok (nd_at w a)) \<Longrightarrow> int (length (unreads w as)) = lens w as"
  by (induction as) (auto simp: unreads_def lens_def length_unread)

lemma length_pendings: "int (length (pendings w as)) = pends w as"
  unfolding pendings_def pends_def length_concat_map_int
  by (simp add: length_pend del: length_slice_bytes)

lemma lens_nonneg: "(\<And>a. a \<in> set as \<Longrightarrow> node_ok (nd_at w a)) \<Longrightarrow> 0 \<le> lens w as"
  unfolding lens_def by (rule sum_list_map_nonneg_int) (rule node_Len_nonneg)

lemma pends_nonneg: "0 \<le> pends w as"
  unfolding pends_def by (rule sum_list_map_nonneg_int) (simp add: pend_len_def)

lemma seq_simps [simp]:
  "unreads w [] = []" "unreads w (a # as) = unread w (nd_at w a) @ unreads w as"
  "unreads w (as @ bs) = unreads w as @ unreads w bs"
  "contents w [] = []" "contents w (a # as) = content w (nd_at w a) @ contents w as"
  "contents w (as @ bs) = contents w as @ contents w bs"
  "pendings w [] = []"
  "pendings w (a # as) = slice_bytes w (pend_win (nd_at w a)) @ pendings w as"
  "pendings w (as @ bs) = pendings w as @ pendings w bs"
  "lens w [] = 0" "lens w (a # as) = node_Len (nd_at w a) + lens w as"
  "lens w (as @ bs) = lens w as + lens w bs"
  "pends w [] = 0" "pends w (a # as) = pend_len (nd_at w a) + pends w as"
  "pends w (as @ bs) = pends w as + pends w bs"
  by (simp_all add: unreads_def contents_def pendings_def lens_def pends_def)

text \<open>With nothing unsubmitted before \<open>xs\<close>, the stream is the unread bytes, then the pending ones.\<close>

lemma contents_closed:
  "(\<And>a. a \<in> set rs \<Longrightarrow> pend_len (nd_at w a) = 0) \<Longrightarrow> contents w rs = unreads w rs"
  by (induction rs) (auto simp: content_def pend_Nil_iff)

lemma contents_open:
  "(\<And>a. a \<in> set ws \<Longrightarrow> unread w (nd_at w a) = []) \<Longrightarrow> contents w ws = pendings w ws"
  by (induction ws) (auto simp: content_def)

lemma unreads_empty:
  "(\<And>a. a \<in> set ws \<Longrightarrow> unread w (nd_at w a) = []) \<Longrightarrow> unreads w ws = []"
  by (induction ws) auto

lemma pendings_closed:
  "(\<And>a. a \<in> set rs \<Longrightarrow> pend_len (nd_at w a) = 0) \<Longrightarrow> pendings w rs = []"
  by (induction rs) (auto simp: pend_Nil_iff)

lemma contents_split:
  assumes "\<And>a. a \<in> set rs \<Longrightarrow> pend_len (nd_at w a) = 0"
    and "\<And>a. a \<in> set (tl xs) \<Longrightarrow> unread w (nd_at w a) = []"
  shows "contents w (rs @ xs) = unreads w (rs @ xs) @ pendings w xs"
proof (cases xs)
  case Nil
  then show ?thesis using contents_closed [OF assms(1)] by simp
next
  case (Cons x ys)
  then have "contents w ys = pendings w ys" "unreads w ys = []"
    using assms(2) by (simp_all add: contents_open unreads_empty)
  with Cons show ?thesis using contents_closed [OF assms(1)] by (simp add: content_def)
qed

subsection \<open>Parts of the representation invariant\<close>

lemma lb_repD:
  assumes "lb_rep w b hs rs ws ts"
  shows "lseg (nodes w) (head b) hs (read b)"
    "lseg (nodes w) (read b) rs (flush b)"
    "lseg (nodes w) (flush b) ws (write_n b)"
    "lseg (nodes w) (write_n b) ts None"
    "distinct (hs @ rs @ ws @ ts)"
    "\<And>a. a \<in> set (hs @ rs @ ws @ ts) \<Longrightarrow> node_ok (nd_at w a)"
    "\<And>a. a \<in> set (hs @ rs @ ws @ ts) \<Longrightarrow> s_arr (buf (nd_at w a)) < next_arr w"
    "\<And>a. a \<in> set rs \<Longrightarrow> pend_len (nd_at w a) = 0"
    "\<And>a. a \<in> set (tl ts) \<Longrightarrow>
       off (nd_at w a) = 0 \<and> s_len (buf (nd_at w a)) = 0 \<and> malloc_n (nd_at w a) = 0"
    "\<And>a c. a \<in> set (rs @ ws @ ts) \<Longrightarrow> c \<in> set (rs @ ws @ ts) \<Longrightarrow> a \<noteq> c \<Longrightarrow>
       apart (nd_at w a) (nd_at w c)"
    "length_b b = lens w (rs @ ws @ ts)"
    "mallocSize b = pends w (ws @ ts)"
    "peek_ok w (rs @ ws @ ts) (unreads w (rs @ take 1 (ws @ ts))) (cachePeek b)"
  using assms unfolding lb_rep_def by blast+

lemma lb_rep_chain:
  assumes "lb_rep w b hs rs ws ts"
  shows "lseg (nodes w) (read b) (rs @ ws @ ts) None"
    "lseg (nodes w) (flush b) (ws @ ts) None"
    "lseg (nodes w) (head b) (hs @ rs @ ws @ ts) None"
  using lb_repD(1-4) [OF assms] unfolding lseg_append by blast+

lemma lb_rep_nodes:
  assumes "lb_rep w b hs rs ws ts" "a \<in> set (hs @ rs @ ws @ ts)"
  shows "nodes w a = Some (nd_at w a)"
proof -
  have "nodes w a \<noteq> None"
    using lseg_dom [OF lb_rep_chain(3) [OF assms(1)] assms(2)] .
  then show ?thesis by (auto simp: nd_at_def)
qed

definition bounded :: "world \<Rightarrow> bool" where
  "bounded w \<longleftrightarrow> (\<forall>a. nodes w a \<noteq> None \<longrightarrow> a < next_addr w)"

lemma chain_rep:
  assumes "bounded w" "lseg (nodes w) p as None" "distinct as"
  shows "chain (next_addr w) (nodes w) p = as"
proof (rule chain_lseg [OF assms(2)], rule distinct_below_length [OF assms(3)])
  fix a assume "a \<in> set as"
  with assms(1,2) show "a < next_addr w" by (auto simp: bounded_def dest: lseg_dom)
qed

lemma stream_rep:
  assumes "bounded w" "lb_rep w b hs rs ws ts"
  shows "stream w b = contents w (rs @ ws @ ts)"
  using chain_rep [OF assms(1) lb_rep_chain(1) [OF assms(2)]] lb_repD(5) [OF assms(2)]
  by (simp add: stream_def)

lemma submitted_rep:
  assumes "bounded w" "lb_rep w b hs rs ws ts"
  shows "submitted w b \<longleftrightarrow> (\<forall>a\<in>set (tl (ws @ ts)). node_Len (nd_at w a) = 0)"
  using chain_rep [OF assms(1) lb_rep_chain(2) [OF assms(2)]] lb_repD(5) [OF assms(2)]
  by (simp add: submitted_def)

lemma world_ok_bounded: "world_ok w own \<Longrightarrow> bounded w"
  by (simp add: world_ok_def bounded_def)

text \<open>The stream of a buffer whose appended bytes are all submitted.\<close>

lemma stream_submitted:
  assumes "bounded w" "lb_rep w b hs rs ws ts" "submitted w b"
  shows "stream w b = unreads w (rs @ ws @ ts) @ pendings w (ws @ ts)"
    and "unreads w (rs @ ws @ ts) = unreads w (rs @ take 1 (ws @ ts))"
proof -
  have tl: "unread w (nd_at w a) = []" if "a \<in> set (tl (ws @ ts))" for a
  proof -
    from that have "a \<in> set (hs @ rs @ ws @ ts)"
      by (auto dest: in_set_tlD)
    then have "node_ok (nd_at w a)" by (rule lb_repD(6) [OF assms(2)])
    with that assms show ?thesis by (simp add: submitted_rep unread_Nil_iff)
  qed
  show "stream w b = unreads w (rs @ ws @ ts) @ pendings w (ws @ ts)"
    using contents_split [of rs w "ws @ ts"] lb_repD(8) [OF assms(2)] tl stream_rep [OF assms(1,2)]
    by simp
  show "unreads w (rs @ ws @ ts) = unreads w (rs @ take 1 (ws @ ts))"
    using tl by (cases "ws @ ts") (auto simp: unreads_empty)
qed


subsection \<open>Frames: what a change elsewhere leaves alone\<close>

definition same_mem :: "world \<Rightarrow> world \<Rightarrow> bool" where
  "same_mem w w' \<longleftrightarrow> next_arr w \<le> next_arr w' \<and> (\<forall>x < next_arr w. cells w' x = cells w x)"

definition alike :: "world \<Rightarrow> world \<Rightarrow> addr \<Rightarrow> bool" where
  "alike w w' a \<longleftrightarrow> nodes w' a \<noteq> None \<and> node_like (nd_at w a) (nd_at w' a)"

definition still :: "world \<Rightarrow> world \<Rightarrow> addr \<Rightarrow> bool" where
  "still w w' a \<longleftrightarrow> alike w w' a \<and> off (nd_at w' a) = off (nd_at w a)"

lemma same_mem_refl [simp]: "same_mem w w"
  by (simp add: same_mem_def)

lemma same_mem_trans: "same_mem w w' \<Longrightarrow> same_mem w' w'' \<Longrightarrow> same_mem w w''"
  by (auto simp: same_mem_def)

lemma still_refl: "nodes w a \<noteq> None \<Longrightarrow> still w w a"
  by (simp add: still_def alike_def node_like_def)

lemma still_eq: "nodes w' a = nodes w a \<Longrightarrow> nodes w a \<noteq> None \<Longrightarrow> still w w' a"
  by (auto simp: still_def alike_def node_like_def nd_at_def)

lemma still_alike: "still w w' a \<Longrightarrow> alike w w' a"
  by (simp add: still_def)

lemma still_trans: "still w w' a \<Longrightarrow> still w' w'' a \<Longrightarrow> still w w'' a"
  by (simp add: still_def alike_def node_like_def)

lemma slice_bytes_same_mem:
  "same_mem w w' \<Longrightarrow> s_arr s < next_arr w \<Longrightarrow> slice_bytes w' s = slice_bytes w s"
  by (rule slice_bytes_cong) (simp add: same_mem_def)

lemma pend_like:
  "alike w w' a \<Longrightarrow> same_mem w w' \<Longrightarrow> s_arr (buf (nd_at w a)) < next_arr w \<Longrightarrow>
     slice_bytes w' (pend_win (nd_at w' a)) = slice_bytes w (pend_win (nd_at w a))"
  using slice_bytes_same_mem [of w w' "pend_win (nd_at w a)"]
  by (simp add: alike_def node_like_def pend_win_def)

lemma unread_like:
  "still w w' a \<Longrightarrow> same_mem w w' \<Longrightarrow> s_arr (buf (nd_at w a)) < next_arr w \<Longrightarrow>
     unread w' (nd_at w' a) = unread w (nd_at w a)"
  by (simp add: still_def alike_def node_like_def unread_def slice_bytes_same_mem)

lemma content_like:
  "still w w' a \<Longrightarrow> same_mem w w' \<Longrightarrow> s_arr (buf (nd_at w a)) < next_arr w \<Longrightarrow>
     content w' (nd_at w' a) = content w (nd_at w a)"
  using pend_like [OF still_alike] unread_like by (simp add: content_def)

lemma pendings_like:
  "(\<And>a. a \<in> set as \<Longrightarrow> alike w w' a \<and> s_arr (buf (nd_at w a)) < next_arr w) \<Longrightarrow> same_mem w w' \<Longrightarrow>
     pendings w' as = pendings w as"
  by (induction as) (auto simp: pend_like)

lemma unreads_like:
  "(\<And>a. a \<in> set as \<Longrightarrow> still w w' a \<and> s_arr (buf (nd_at w a)) < next_arr w) \<Longrightarrow> same_mem w w' \<Longrightarrow>
     unreads w' as = unreads w as"
  by (induction as) (auto simp: unread_like)

lemma contents_like:
  "(\<And>a. a \<in> set as \<Longrightarrow> still w w' a \<and> s_arr (buf (nd_at w a)) < next_arr w) \<Longrightarrow> same_mem w w' \<Longrightarrow>
     contents w' as = contents w as"
  by (induction as) (auto simp: content_like)

lemma lens_like: "(\<And>a. a \<in> set as \<Longrightarrow> still w w' a) \<Longrightarrow> lens w' as = lens w as"
  by (induction as) (auto simp: still_def alike_def node_like_def node_Len_def)

lemma pends_like: "(\<And>a. a \<in> set as \<Longrightarrow> alike w w' a) \<Longrightarrow> pends w' as = pends w as"
  by (induction as) (auto simp: alike_def node_like_def pend_len_def)

lemma lseg_alike:
  assumes "\<And>a. a \<in> set xs \<Longrightarrow> alike w w' a" "lseg (nodes w) p xs q"
  shows "lseg (nodes w') p xs q"
proof -
  have "map_option next_n (nodes w' a) = map_option next_n (nodes w a)" if "a \<in> set xs" for a
    using assms(1) [OF that] lseg_dom [OF assms(2) that]
    by (auto simp: alike_def node_like_def nd_at_def)
  with lseg_cong [of xs "nodes w'" "nodes w"] assms(2) show ?thesis by blast
qed

lemma apart_like:
  "alike w w' a \<Longrightarrow> alike w w' c \<Longrightarrow> apart (nd_at w' a) (nd_at w' c) = apart (nd_at w a) (nd_at w c)"
  by (simp add: alike_def node_like_def apart_def)

lemma peek_ok_like:
  assumes "peek_ok w as bs co" "same_mem w w'" "\<And>a. a \<in> set as \<Longrightarrow> alike w w' a"
  shows "peek_ok w' as bs co"
  using assms by (auto simp: peek_ok_def alike_def node_like_def slice_bytes_same_mem same_mem_def
      split: option.splits)

lemma lb_rep_frame:
  assumes rep: "lb_rep w b hs rs ws ts" and mem: "same_mem w w'"
    and st: "\<And>a. a \<in> set (hs @ rs @ ws @ ts) \<Longrightarrow> still w w' a"
  shows "lb_rep w' b hs rs ws ts"
    and "unreads w' (rs @ ws @ ts) = unreads w (rs @ ws @ ts)"
    and "contents w' (rs @ ws @ ts) = contents w (rs @ ws @ ts)"
proof -
  note R = lb_repD [OF rep]
  have al: "alike w w' a" if "a \<in> set (hs @ rs @ ws @ ts)" for a
    using st [OF that] by (simp add: still_def)
  have arr: "s_arr (buf (nd_at w a)) < next_arr w" if "a \<in> set (hs @ rs @ ws @ ts)" for a
    by (rule R(7) [OF that])
  have U: "unreads w' as = unreads w as" "contents w' as = contents w as"
    if "set as \<subseteq> set (hs @ rs @ ws @ ts)" for as
    using that st arr by (auto intro!: unreads_like contents_like mem)
  show "unreads w' (rs @ ws @ ts) = unreads w (rs @ ws @ ts)"
    "contents w' (rs @ ws @ ts) = contents w (rs @ ws @ ts)"
    by (rule U; auto)+
  have sub: "set (take 1 (ws @ ts)) \<subseteq> set (ws @ ts)" by (rule set_take_subset)
  have peek: "unreads w' (rs @ take 1 (ws @ ts)) = unreads w (rs @ take 1 (ws @ ts))"
    by (rule U) (use sub in auto)
  have L: "lseg (nodes w') (head b) hs (read b)" "lseg (nodes w') (read b) rs (flush b)"
    "lseg (nodes w') (flush b) ws (write_n b)" "lseg (nodes w') (write_n b) ts None"
    by (rule lseg_alike [OF al R(1)] lseg_alike [OF al R(2)] lseg_alike [OF al R(3)]
        lseg_alike [OF al R(4)]; auto)+
  have N: "node_ok (nd_at w' a) \<and> s_arr (buf (nd_at w' a)) < next_arr w'"
    if "a \<in> set (hs @ rs @ ws @ ts)" for a
    using R(6) [OF that] R(7) [OF that] st [OF that] mem
    by (auto simp: still_def alike_def node_like_def node_ok_def same_mem_def)
  have P: "pend_len (nd_at w' a) = 0" if "a \<in> set rs" for a
    using R(8) [OF that] al [of a] that by (simp add: alike_def node_like_def pend_len_def)
  have T: "off (nd_at w' a) = 0 \<and> s_len (buf (nd_at w' a)) = 0 \<and> malloc_n (nd_at w' a) = 0"
    if "a \<in> set (tl ts)" for a
    using R(9) [OF that] st [of a] in_set_tlD [OF that]
    by (simp add: still_def alike_def node_like_def)
  have A: "apart (nd_at w' a) (nd_at w' c)"
    if "a \<in> set (rs @ ws @ ts)" "c \<in> set (rs @ ws @ ts)" "a \<noteq> c" for a c
    using R(10) [OF that] apart_like [of w w' a c] al that by simp
  have len: "length_b b = lens w' (rs @ ws @ ts)" "mallocSize b = pends w' (ws @ ts)"
    using R(11,12) lens_like [of "rs @ ws @ ts" w w'] pends_like [of "ws @ ts" w w'] st al by auto
  have pk: "peek_ok w' (rs @ ws @ ts) (unreads w' (rs @ take 1 (ws @ ts))) (cachePeek b)"
    unfolding peek by (rule peek_ok_like [OF R(13) mem]) (use al in auto)
  show "lb_rep w' b hs rs ws ts"
    unfolding lb_rep_def using L R(5) N P T A len pk by blast
qed

subsection \<open>Advancing the read cursor\<close>

text \<open>
  Every reading operation moves the read cursor over the nodes \<open>xs\<close> and takes \<open>k\<close> more bytes of
  the node \<open>r\<close> it stops at; this is what it does to the invariant and to the bytes.
\<close>

definition trim_peek :: "slice option \<Rightarrow> slice option" where
  "trim_peek co = (case co of None \<Rightarrow> None | Some c \<Rightarrow> Some (if s_len c > 0 then c\<lparr>s_len := 0\<rparr> else c))"

lemma peek_ok_trim:
  assumes "peek_ok w as bs co" "same_mem w w'" "\<And>a. a \<in> set as' \<Longrightarrow> alike w w' a" "set as' \<subseteq> set as"
  shows "peek_ok w' as' bs' (trim_peek co)"
  using assms
  by (auto simp: peek_ok_def trim_peek_def alike_def node_like_def same_mem_def slice_bytes_def
      split: option.splits)

lemma unread_advance:
  assumes "alike w w' a" "same_mem w w'" "s_arr (buf (nd_at w a)) < next_arr w"
    and "node_ok (nd_at w a)" "0 \<le> k" "off (nd_at w' a) = off (nd_at w a) + k"
  shows "unread w' (nd_at w' a) = drop (nat k) (unread w (nd_at w a))"
  using assms slice_bytes_same_mem [OF assms(2,3)]
  by (simp add: unread_def alike_def node_like_def node_ok_def nat_add_distrib ac_simps)

lemma lb_rep_advance:
  assumes rep: "lb_rep w b hs (xs @ ys) ws ts" and r: "ys @ ws @ ts = r # zs"
    and mem: "same_mem w w'"
    and al: "\<And>a. a \<in> set (hs @ xs @ ys @ ws @ ts) \<Longrightarrow> alike w w' a"
    and offs: "\<And>a. a \<in> set (hs @ xs) \<Longrightarrow>
                 0 \<le> off (nd_at w' a) \<and> off (nd_at w' a) \<le> s_len (buf (nd_at w' a))"
    and zs: "\<And>a. a \<in> set zs \<Longrightarrow> off (nd_at w' a) = off (nd_at w a)"
    and k: "0 \<le> k" "k \<le> node_Len (nd_at w r)" "off (nd_at w' r) = off (nd_at w r) + k"
    and n: "n = lens w xs + k"
    and b': "head b' = head b" "read b' = Some r" "flush b' = flush b" "write_n b' = write_n b"
      "length_b b' = length_b b - n" "mallocSize b' = mallocSize b"
      "cachePeek b' = trim_peek (cachePeek b)"
  shows "lb_rep w' b' (hs @ xs) ys ws ts"
    and "unreads w' (ys @ ws @ ts) = drop (nat n) (unreads w (xs @ ys @ ws @ ts))"
    and "pendings w' (ws @ ts) = pendings w (ws @ ts)"
proof -
  note R = lb_repD [OF rep]
  have all: "set (hs @ (xs @ ys) @ ws @ ts) = set (hs @ xs @ ys @ ws @ ts)" by auto
  have arr: "s_arr (buf (nd_at w a)) < next_arr w" if "a \<in> set (hs @ xs @ ys @ ws @ ts)" for a
    using R(7) that by auto
  have ok: "node_ok (nd_at w a)" if "a \<in> set (hs @ xs @ ys @ ws @ ts)" for a
    using R(6) that by auto
  have rin: "r \<in> set (hs @ xs @ ys @ ws @ ts)" and zin: "set zs \<subseteq> set (hs @ xs @ ys @ ws @ ts)"
    using r by (metis in_set_conv_decomp list.set_intros(1) set_append Un_iff,
        metis Un_upper2 list.set(2) set_append subset_insertI subset_trans)
  have stz: "still w w' a" if "a \<in> set zs" for a
    using al zs [OF that] zin that by (auto simp: still_def)
  have Uz: "unreads w' zs = unreads w zs"
    using stz arr zin by (intro unreads_like [OF _ mem]) auto
  have ur: "unread w' (nd_at w' r) = drop (nat k) (unread w (nd_at w r))"
    by (rule unread_advance [OF al [OF rin] mem arr [OF rin] ok [OF rin] k(1,3)])
  have lx: "int (length (unreads w xs)) = lens w xs"
    by (rule length_unreads) (use ok in auto)
  have kl: "nat k \<le> length (unread w (nd_at w r))"
    using length_unread [OF ok [OF rin], of w] k(2) by linarith
  have nk: "nat n = length (unreads w xs) + nat k"
    using n lx k(1) by linarith
  have eq: "unreads w (ys @ ws @ ts) = unread w (nd_at w r) @ unreads w zs"
    and eq': "unreads w' (ys @ ws @ ts) = unread w' (nd_at w' r) @ unreads w' zs"
    by (simp_all only: r seq_simps)
  show U: "unreads w' (ys @ ws @ ts) = drop (nat n) (unreads w (xs @ ys @ ws @ ts))"
    using eq eq' kl ur Uz nk by (simp add: unreads_def)
  show "pendings w' (ws @ ts) = pendings w (ws @ ts)"
    using al arr by (intro pendings_like [OF _ mem]) auto
  have Lr: "lseg (nodes w) (head b) (hs @ xs) (Some r)" "lseg (nodes w) (Some r) ys (flush b)"
  proof -
    obtain m where m: "lseg (nodes w) (read b) xs m" "lseg (nodes w) m ys (flush b)"
      using R(2) unfolding lseg_append by blast
    have "lseg (nodes w) m (ys @ ws @ ts) None"
      using m(2) R(3,4) unfolding lseg_append by blast
    then have "m = Some r" unfolding r by simp
    with m R(1) show "lseg (nodes w) (head b) (hs @ xs) (Some r)"
      "lseg (nodes w) (Some r) ys (flush b)"
      unfolding lseg_append by blast+
  qed
  have L: "lseg (nodes w') (head b') (hs @ xs) (read b')" "lseg (nodes w') (read b') ys (flush b')"
    "lseg (nodes w') (flush b') ws (write_n b')" "lseg (nodes w') (write_n b') ts None"
    unfolding b'
    by (rule lseg_alike [OF al Lr(1)] lseg_alike [OF al Lr(2)] lseg_alike [OF al R(3)]
        lseg_alike [OF al R(4)]; auto)+
  have off_ok: "0 \<le> off (nd_at w' a) \<and> off (nd_at w' a) \<le> s_len (buf (nd_at w' a))"
    if a: "a \<in> set (hs @ xs @ ys @ ws @ ts)" for a
  proof -
    consider "a \<in> set (hs @ xs)" | "a = r" | "a \<in> set zs"
      using a r by (metis Un_iff set_ConsD set_append)
    then show ?thesis
    proof cases
      case 1 then show ?thesis by (rule offs)
    next
      case 2 then show ?thesis
        using k ok [OF rin] al [OF rin] by (auto simp: node_Len_def node_ok_def alike_def node_like_def)
    next
      case 3 then show ?thesis
        using zs [OF 3] ok [OF a] al [OF a] by (auto simp: node_ok_def alike_def node_like_def)
    qed
  qed
  have N: "node_ok (nd_at w' a) \<and> s_arr (buf (nd_at w' a)) < next_arr w'"
    if a: "a \<in> set ((hs @ xs) @ ys @ ws @ ts)" for a
    using a ok [of a] arr [of a] al [of a] off_ok [of a] mem
    by (auto simp: alike_def node_like_def node_ok_def same_mem_def)
  have P: "pend_len (nd_at w' a) = 0" if "a \<in> set ys" for a
    using R(8) [of a] al [of a] that by (simp add: alike_def node_like_def pend_len_def)
  have tts: "set (tl ts) \<subseteq> set zs"
  proof -
    have "tl (ys @ ws @ ts) = zs" using r by simp
    then show ?thesis
      by (cases ys; cases ws; cases ts) (auto dest: in_set_tlD)
  qed
  have T: "off (nd_at w' a) = 0 \<and> s_len (buf (nd_at w' a)) = 0 \<and> malloc_n (nd_at w' a) = 0"
    if "a \<in> set (tl ts)" for a
    using R(9) [OF that] stz [of a] tts that
    by (auto simp: still_def alike_def node_like_def)
  have A: "apart (nd_at w' a) (nd_at w' c)"
    if "a \<in> set (ys @ ws @ ts)" "c \<in> set (ys @ ws @ ts)" "a \<noteq> c" for a c
    using R(10) [of a c] apart_like [of w w' a c] al that by simp
  have len: "length_b b' = lens w' (ys @ ws @ ts)"
  proof -
    have "int (length (unreads w' (ys @ ws @ ts))) = lens w' (ys @ ws @ ts)"
      by (rule length_unreads) (use N in auto)
    moreover have "int (length (unreads w (xs @ ys @ ws @ ts))) = length_b b"
      unfolding R(11) append_assoc by (rule length_unreads) (use ok in auto)
    moreover have "nat n \<le> length (unreads w (xs @ ys @ ws @ ts))"
      using nk kl eq by simp
    moreover have "length (unreads w' (ys @ ws @ ts)) =
        length (unreads w (xs @ ys @ ws @ ts)) - nat n"
      unfolding U by (rule length_drop)
    moreover have "0 \<le> n" using n k(1) lx by linarith
    ultimately show ?thesis using b'(5) by linarith
  qed
  have mal: "mallocSize b' = pends w' (ws @ ts)"
    using R(12) b'(6) pends_like [of "ws @ ts" w w'] al by auto
  have pk: "peek_ok w' (ys @ ws @ ts) (unreads w' (ys @ take 1 (ws @ ts))) (cachePeek b')"
    unfolding b'(7) by (rule peek_ok_trim [OF R(13) mem]) (use al in auto)
  show "lb_rep w' b' (hs @ xs) ys ws ts"
    unfolding lb_rep_def using L R(5) N P T A len mal pk by (simp only: append_assoc) blast
qed

end
