(* ===== verification/LinkBufferRead.thy ===== *)
theory LinkBufferRead
  imports LinkBufferInv
begin

section \<open>LinkBuffer: reading is correct\<close>

text \<open>
  The reading operations return the first bytes of the stream and leave the rest, on every
  well-formed buffer, whatever nodes the bytes are spread over.
\<close>

subsection \<open>One node\<close>

lemma deref_simps [simp]: "deref w None = None" "deref w (Some a) = nodes w a"
  by (simp_all add: deref_def)

lemma set_node_simps [simp]:
  "nodes (set_node a nd w) = (nodes w)(a \<mapsto> nd)" "cells (set_node a nd w) = cells w"
  "next_arr (set_node a nd w) = next_arr w" "freed (set_node a nd w) = freed w"
  "next_addr (set_node a nd w) = next_addr w" "pool (set_node a nd w) = pool w"
  by (simp_all add: set_node_def)

lemma slice_bytes_set_node [simp]: "slice_bytes (set_node a nd w) s = slice_bytes w s"
  by (simp add: slice_bytes_def)

lemma world_store_bytes [simp]:
  "nodes (store_bytes s bs w) = nodes w" "next_addr (store_bytes s bs w) = next_addr w"
  "pool (store_bytes s bs w) = pool w" "next_arr (store_bytes s bs w) = next_arr w"
  "freed (store_bytes s bs w) = freed w"
  by (simp_all add: store_bytes_def)

lemma nd_at_set_node: "nd_at (set_node a nd w) c = (if c = a then nd else nd_at w c)"
  by (simp add: nd_at_def)

lemma nd_at_store [simp]: "nd_at (store_bytes s bs w) a = nd_at w a"
  by (simp add: nd_at_def)

lemma unread_cells: "cells m = cells m' \<Longrightarrow> unread m nd = unread m' nd"
  by (simp add: unread_def slice_bytes_def)

lemma slice_bytes_unread:
  assumes "node_ok nd" "0 \<le> i" "0 \<le> k" "i + k \<le> node_Len nd"
  shows "slice_bytes m \<lparr>s_arr = s_arr (buf nd), s_off = s_off (buf nd) + (off nd + i), s_len = k, s_cap = c\<rparr> =
           take (nat k) (drop (nat i) (unread m nd))"
  using slice_bytes_take_drop [of "off nd + i" "off nd + i + k" "buf nd" m c] assms
  by (simp add: unread_def node_ok_def node_Len_def nat_add_distrib ac_simps)

lemma node_Next_ok:
  assumes "node_ok nd" "0 \<le> k" "k \<le> node_Len nd"
  obtains p where "node_Next k nd = Some (p, nd\<lparr>off := off nd + k\<rparr>)" "s_len p = k" "s_cap p = k"
    "s_arr p = s_arr (buf nd)" "\<And>m. slice_bytes m p = take (nat k) (unread m nd)"
proof
  let ?p = "\<lparr>s_arr = s_arr (buf nd), s_off = s_off (buf nd) + off nd, s_len = k, s_cap = k\<rparr>"
  show "node_Next k nd = Some (?p, nd\<lparr>off := off nd + k\<rparr>)"
    using assms by (simp add: node_Next_def reslice3_def node_ok_def node_Len_def)
  show "slice_bytes m ?p = take (nat k) (unread m nd)" for m :: "'c memory_scheme"
    using slice_bytes_unread [of nd 0 k m k] assms by simp
qed simp_all

lemma node_Peek_ok:
  assumes "node_ok nd" "0 \<le> k" "k \<le> node_Len nd"
  shows "node_Peek k nd = Some \<lparr>s_arr = s_arr (buf nd), s_off = s_off (buf nd) + off nd, s_len = k, s_cap = k\<rparr>"
    "slice_bytes m \<lparr>s_arr = s_arr (buf nd), s_off = s_off (buf nd) + off nd, s_len = k, s_cap = k\<rparr> =
       take (nat k) (unread m nd)"
  using slice_bytes_unread [of nd 0 k m k] assms
  by (simp_all add: node_Peek_def reslice3_def node_ok_def node_Len_def)

lemma slice_bytes_store_at:
  assumes "s_arr d = s_arr p" "s_off d = s_off p + i" "0 \<le> i" "i + int (length bs) \<le> s_len p"
  shows "slice_bytes (store_bytes d bs m) p =
           take (nat i) (slice_bytes m p) @ bs @ drop (nat i + length bs) (slice_bytes m p)"
    (is "?l = ?r")
proof (rule nth_equalityI)
  show len: "length ?l = length ?r" using assms by simp
  fix j assume "j < length ?l"
  then have j: "j < nat (s_len p)" by simp
  consider "j < nat i" | "nat i \<le> j" "j < nat i + length bs" | "nat i + length bs \<le> j" by linarith
  then show "?l ! j = ?r ! j"
  proof cases
    case 1
    with j assms show ?thesis by (auto simp: nth_slice_bytes store_bytes_def nth_append)
  next
    case 2
    then have "nat (int j - i) = j - nat i" using assms(3) by linarith
    with 2 j assms show ?thesis
      by (simp add: nth_slice_bytes store_bytes_def nth_append min_def) linarith
  next
    case 3
    with j assms show ?thesis
      by (simp add: nth_slice_bytes store_bytes_def nth_append min_def) linarith
  qed
qed

lemma go_copy_fits:
  "int (length bs) \<le> s_len d \<Longrightarrow> go_copy d bs m = (int (length bs), store_bytes d bs m)"
  by (simp add: go_copy_def min_absorb2)

subsection \<open>Finding the first node with data\<close>

declare isSingleNode_loop.simps [simp del] read_loop.simps [simp del]

lemma isSingleNode_loop_ok:
  assumes "lseg (nodes w) (read b) rs (flush b)" "lseg (nodes w) (flush b) fs None"
    "distinct (rs @ fs)" "0 < lens w (rs @ take 1 fs)"
    "\<And>a. a \<in> set (rs @ fs) \<Longrightarrow> node_ok (nd_at w a)"
  shows "\<exists>xs ys r zs. rs = xs @ ys \<and> ys @ fs = r # zs \<and> (\<forall>a\<in>set xs. node_Len (nd_at w a) = 0) \<and>
           0 < node_Len (nd_at w r) \<and> isSingleNode_loop b w = Some (b\<lparr>read := Some r\<rparr>)"
  using assms
proof (induction rs arbitrary: b)
  case Nil
  then obtain r zs where fs: "fs = r # zs" by (cases fs) auto
  with Nil.prems have rd: "read b = Some r" "flush b = Some r" and "nodes w r \<noteq> None"
    by (auto split: option.splits)
  then obtain nd where nd: "nodes w r = Some nd" by blast
  have "isSingleNode_loop b w = Some (b\<lparr>read := Some r\<rparr>)"
    using rd nd by (simp add: isSingleNode_loop.simps)
  with Nil.prems(4) fs show ?case by fastforce
next
  case (Cons a rs)
  then obtain nd where rd: "read b = Some a" and nd: "nodes w a = Some nd"
    and seg: "lseg (nodes w) (next_n nd) rs (flush b)"
    by (auto split: option.splits)
  have ne: "read b \<noteq> flush b"
    using Cons.prems(2,3) rd by (cases fs) auto
  have ok: "node_ok nd" using Cons.prems(5) [of a] nd by simp
  show ?case
  proof (cases "node_Len nd = 0")
    case True
    have "isSingleNode_loop b w = isSingleNode_loop (b\<lparr>read := next_n nd\<rparr>) w"
      using rd nd ne True by (simp add: isSingleNode_loop.simps [of b])
    moreover obtain xs ys r zs where "rs = xs @ ys" "ys @ fs = r # zs"
      "\<forall>a\<in>set xs. node_Len (nd_at w a) = 0" "0 < node_Len (nd_at w r)"
      "isSingleNode_loop (b\<lparr>read := next_n nd\<rparr>) w = Some (b\<lparr>read := next_n nd, read := Some r\<rparr>)"
      using Cons.IH [of "b\<lparr>read := next_n nd\<rparr>"] Cons.prems seg True nd by auto
    ultimately show ?thesis
      using True nd by (intro exI [of _ "a # xs"] exI [of _ ys] exI [of _ r] exI [of _ zs]) auto
  next
    case False
    with node_Len_nonneg [OF ok] have "0 < node_Len nd" by simp
    moreover have "isSingleNode_loop b w = Some (b\<lparr>read := Some a\<rparr>)"
      using rd nd False by (simp add: isSingleNode_loop.simps)
    ultimately show ?thesis using nd by fastforce
  qed
qed

subsection \<open>The copy loop\<close>

definition same_rest :: "world \<Rightarrow> world \<Rightarrow> bool" where
  "same_rest w w' \<longleftrightarrow> next_arr w' = next_arr w \<and> freed w' = freed w \<and>
                     next_addr w' = next_addr w \<and> pool w' = pool w"

lemma read_loop_ok:
  assumes "lseg (nodes w) (read b) as None" "distinct as"
    "\<And>a. a \<in> set as \<Longrightarrow> node_ok (nd_at w a) \<and> s_arr (buf (nd_at w a)) \<noteq> s_arr p"
    "0 < ack" "ack \<le> lens w as" "0 \<le> pIdx" "pIdx + ack = s_len p" "s_len p \<le> s_cap p"
  shows "\<exists>xs r zs k w'. as = xs @ r # zs \<and> read_loop ack p pIdx b w = Some (b\<lparr>read := Some r\<rparr>, w') \<and>
           ack = lens w xs + k \<and> 0 < k \<and> k \<le> node_Len (nd_at w r) \<and>
           (\<forall>a. a \<notin> set (xs @ [r]) \<longrightarrow> nodes w' a = nodes w a) \<and>
           (\<forall>a\<in>set xs. nodes w' a = Some ((nd_at w a)\<lparr>off := s_len (buf (nd_at w a))\<rparr>)) \<and>
           nodes w' r = Some ((nd_at w r)\<lparr>off := off (nd_at w r) + k\<rparr>) \<and>
           (\<forall>x. x \<noteq> s_arr p \<longrightarrow> cells w' x = cells w x) \<and> same_rest w w' \<and>
           slice_bytes w' p = take (nat pIdx) (slice_bytes w p) @ take (nat ack) (unreads w as)"
  using assms
proof (induction as arbitrary: b w pIdx ack)
  case Nil
  then show ?case by simp
next
  case (Cons a as)
  then obtain nd where rd: "read b = Some a" and nd: "nodes w a = Some nd"
    and seg: "lseg (nodes w) (next_n nd) as None"
    by (auto split: option.splits)
  have ok: "node_ok nd" and arr: "s_arr (buf nd) \<noteq> s_arr p"
    using Cons.prems(3) [of a] nd by auto
  have lu: "int (length (unread w nd)) = node_Len nd" by (rule length_unread [OF ok])
  let ?dst = "\<lparr>s_arr = s_arr p, s_off = s_off p + pIdx, s_len = s_len p - pIdx, s_cap = s_cap p - pIdx\<rparr>"
  have dst: "reslice p pIdx (s_len p) = Some ?dst"
    using Cons.prems by (simp add: reslice_def)
  show ?case
  proof (cases "node_Len nd \<ge> ack")
    case True
    obtain src where nx: "node_Next ack nd = Some (src, nd\<lparr>off := off nd + ack\<rparr>)"
      and sb: "slice_bytes w src = take (nat ack) (unread w nd)"
      using node_Next_ok [OF ok] True Cons.prems(4) by (metis less_imp_le)
    let ?w = "store_bytes ?dst (take (nat ack) (unread w nd)) (set_node a (nd\<lparr>off := off nd + ack\<rparr>) w)"
    have lt: "length (take (nat ack) (unread w nd)) = nat ack" using lu True by simp
    have cp: "go_copy ?dst (take (nat ack) (unread w nd)) (set_node a (nd\<lparr>off := off nd + ack\<rparr>) w) = (ack, ?w)"
      by (subst go_copy_fits) (use lt Cons.prems(4,7) in auto)
    have eq: "read_loop ack p pIdx b w = Some (b\<lparr>read := Some a\<rparr>, ?w)"
      using Cons.prems(4) rd nd True nx dst sb cp by (simp add: read_loop.simps [of ack])
    have "slice_bytes ?w p = take (nat pIdx) (slice_bytes w p) @ take (nat ack) (unread w nd)"
      by (subst slice_bytes_store_at) (use Cons.prems lt lu True in auto)
    then show ?thesis
      using eq nd True Cons.prems(4) lu
      by (intro exI [of _ "[]"] exI [of _ a] exI [of _ as] exI [of _ ack] exI [of _ ?w])
        (auto simp: same_rest_def store_bytes_def)
  next
    case False
    let ?l = "node_Len nd"
    have l0: "0 \<le> ?l" by (rule node_Len_nonneg [OF ok])
    define w1 where "w1 = (if ?l > 0
      then store_bytes ?dst (unread w nd) (set_node a (nd\<lparr>off := s_len (buf nd)\<rparr>) w) else w)"
    have nw1: "nodes w1 = (nodes w)(a \<mapsto> nd\<lparr>off := s_len (buf nd)\<rparr>)"
    proof (cases "?l > 0")
      case False
      with l0 ok have "nd\<lparr>off := s_len (buf nd)\<rparr> = nd" by (simp add: node_Len_def)
      with False nd show ?thesis by (auto simp: w1_def)
    qed (simp add: w1_def)
    have cw1: "cells w1 x = cells w x" if "x \<noteq> s_arr p" for x
      using that by (simp add: w1_def store_bytes_def)
    have rw1: "same_rest w w1" by (simp add: w1_def same_rest_def)
    have step: "read_loop ack p pIdx b w =
        read_loop (ack - ?l) p (pIdx + ?l) (b\<lparr>read := next_n nd\<rparr>) w1"
    proof (cases "?l > 0")
      case True
      obtain src where nx: "node_Next ?l nd = Some (src, nd\<lparr>off := off nd + ?l\<rparr>)"
        and sb: "slice_bytes w src = take (nat ?l) (unread w nd)"
        using node_Next_ok [OF ok l0] by blast
      have full: "take (nat ?l) (unread w nd) = unread w nd" "off nd + ?l = s_len (buf nd)"
        using lu by (auto simp: node_Len_def)
      have cp: "go_copy ?dst (unread w nd) (set_node a (nd\<lparr>off := s_len (buf nd)\<rparr>) w) = (?l, w1)"
        by (subst go_copy_fits) (use lu False True Cons.prems(7) in \<open>auto simp: w1_def\<close>)
      from True False Cons.prems(4) rd nd nx dst sb full cp show ?thesis
        by (simp add: read_loop.simps [of ack] Let_def)
    next
      case False
      with l0 have "?l = 0" by simp
      with Cons.prems(4) rd nd show ?thesis
        by (simp add: read_loop.simps [of ack] w1_def)
    qed
    have at: "nd_at w1 c = nd_at w c" if "c \<in> set as" for c
      using that Cons.prems(2) by (auto simp: nd_at_def nw1)
    have seg1: "lseg (nodes w1) (next_n nd) as None"
      using seg Cons.prems(2) by (subst lseg_cong [of as _ "nodes w"]) (auto simp: nw1)
    have un1: "unreads w1 as = unreads w as"
    proof -
      have "unread w1 (nd_at w1 c) = unread w (nd_at w c)" if "c \<in> set as" for c
      proof -
        have "s_arr (buf (nd_at w c)) \<noteq> s_arr p" using Cons.prems(3) [of c] that by simp
        then have "slice_bytes w1 (buf (nd_at w c)) = slice_bytes w (buf (nd_at w c))"
          by (intro slice_bytes_cong) (simp add: cw1)
        then show ?thesis using at [OF that] by (simp add: unread_def)
      qed
      then show ?thesis by (simp add: unreads_def cong: map_cong)
    qed
    have len1: "lens w1 as = lens w as" using at by (simp add: lens_def cong: map_cong)
    have sb1: "slice_bytes w1 p = take (nat pIdx) (slice_bytes w p) @ unread w nd @
                 drop (nat pIdx + length (unread w nd)) (slice_bytes w p)"
    proof (cases "?l > 0")
      case True
      then show ?thesis
        unfolding w1_def using Cons.prems lu False by (simp, subst slice_bytes_store_at) auto
    next
      case False
      then have "unread w nd = []" using l0 lu by auto
      with False show ?thesis by (simp add: w1_def)
    qed
    obtain xs r zs k w' where ih: "as = xs @ r # zs"
      "read_loop (ack - ?l) p (pIdx + ?l) (b\<lparr>read := next_n nd\<rparr>) w1 =
         Some (b\<lparr>read := next_n nd, read := Some r\<rparr>, w')"
      "ack - ?l = lens w1 xs + k" "0 < k" "k \<le> node_Len (nd_at w1 r)"
      "\<forall>a. a \<notin> set (xs @ [r]) \<longrightarrow> nodes w' a = nodes w1 a"
      "\<forall>a\<in>set xs. nodes w' a = Some ((nd_at w1 a)\<lparr>off := s_len (buf (nd_at w1 a))\<rparr>)"
      "nodes w' r = Some ((nd_at w1 r)\<lparr>off := off (nd_at w1 r) + k\<rparr>)"
      "\<forall>x. x \<noteq> s_arr p \<longrightarrow> cells w' x = cells w1 x" "same_rest w1 w'"
      "slice_bytes w' p = take (nat (pIdx + ?l)) (slice_bytes w1 p) @
         take (nat (ack - ?l)) (unreads w1 as)"
      using Cons.IH [of w1 "b\<lparr>read := next_n nd\<rparr>" "ack - ?l" "pIdx + ?l"] seg1 Cons.prems at len1
        False l0 nd by auto
    have at': "nd_at w1 c = nd_at w c" if "c \<in> set (xs @ [r])" for c
      using at ih(1) that by auto
    have lx: "lens w1 xs = lens w xs" using at' by (simp add: lens_def cong: map_cong)
    have an: "a \<notin> set (xs @ [r])" using Cons.prems(2) ih(1) by auto
    have bytes: "slice_bytes w' p =
        take (nat pIdx) (slice_bytes w p) @ take (nat ack) (unreads w (a # as))"
    proof -
      have "nat (pIdx + ?l) = nat pIdx + length (unread w nd)" "nat ack = length (unread w nd) + nat (ack - ?l)"
        "nat pIdx \<le> length (slice_bytes w p)"
        using lu l0 False Cons.prems(4,6,7) by auto
      with ih(11) sb1 un1 nd show ?thesis by (simp add: min_def)
    qed
    have "\<forall>c. c \<notin> set ((a # xs) @ [r]) \<longrightarrow> nodes w' c = nodes w c"
      using ih(6) by (simp add: nw1)
    moreover have "\<forall>c\<in>set (a # xs). nodes w' c = Some ((nd_at w c)\<lparr>off := s_len (buf (nd_at w c))\<rparr>)"
      using ih(6,7) an at' nd by (auto simp: nw1)
    moreover have "nodes w' r = Some ((nd_at w r)\<lparr>off := off (nd_at w r) + k\<rparr>)"
      using ih(8) at' by simp
    moreover have "\<forall>x. x \<noteq> s_arr p \<longrightarrow> cells w' x = cells w x"
      using ih(9) cw1 by simp
    moreover have "same_rest w w'" using ih(10) rw1 by (simp add: same_rest_def)
    ultimately show ?thesis
      using ih(1-5) step bytes nd lx at' an
      by (intro exI [of _ "a # xs"] exI [of _ r] exI [of _ zs] exI [of _ k] exI [of _ w']) auto
  qed
qed

end
