(* ===== verification/LinkBufferAdvance.thy ===== *)
theory LinkBufferAdvance
  imports LinkBufferRead
begin

section \<open>LinkBuffer: moving the read cursor\<close>

text \<open>
  What all reading operations of nocopy\_linkbuffer.go share: the cursor moves forward over
  whole nodes into one node, and the representation invariant, the unread bytes and the bytes
  being written behave as the stream of the buffer says.
\<close>

subsection \<open>The effect of reading\<close>

text \<open>
  \<open>adv\<close>: the read cursor has moved by \<open>n\<close> bytes and nothing else has changed.
\<close>

definition adv ::
    "world \<Rightarrow> LinkBuffer \<Rightarrow> addr list \<Rightarrow> addr list \<Rightarrow> addr list \<Rightarrow> addr list \<Rightarrow> int \<Rightarrow>
     world \<Rightarrow> LinkBuffer \<Rightarrow> bool" where
  "adv w b hs rs ws ts n w' b' \<longleftrightarrow>
     (\<exists>xs ys. rs = xs @ ys \<and> lb_rep w' b' (hs @ xs) ys ws ts \<and>
        unreads w' (ys @ ws @ ts) = drop (nat n) (unreads w (rs @ ws @ ts)) \<and>
        pendings w' (ws @ ts) = pendings w (ws @ ts)) \<and>
     length_b b' = length_b b - n \<and> mallocSize b' = mallocSize b \<and>
     same_mem w w' \<and> next_addr w' = next_addr w \<and> pool w' = pool w \<and> freed w' = freed w \<and>
     (\<forall>a. a \<notin> set (rs @ ws @ ts) \<longrightarrow> nodes w' a = nodes w a) \<and>
     (\<forall>a\<in>set (rs @ ws @ ts). alike w w' a \<and> refer (nd_at w' a) = refer (nd_at w a)) \<and>
     (\<forall>a\<in>set (tl (ws @ ts)). node_Len (nd_at w' a) = 0)"

lemma recalLen_neg:
  "n > 0 \<Longrightarrow> snd (recalLen (- n) b) =
     b\<lparr>cachePeek := trim_peek (cachePeek b), length_b := length_b b - n\<rparr>"
  by (simp add: recalLen_def trim_peek_def)

lemma prefix_before_tail:
  assumes "ys @ fs = xs @ r # zs" "0 < node_Len (nd_at w r)"
    and "\<And>a. a \<in> set (tl fs) \<Longrightarrow> node_Len (nd_at w a) = 0"
  shows "\<exists>us. ys = xs @ us \<and> us @ fs = r # zs"
proof -
  from assms(1) consider us where "ys = xs @ us" "us @ fs = r # zs"
    | us where "xs = ys @ us" "fs = us @ r # zs"
    unfolding append_eq_append_conv2 by auto
  then show ?thesis
  proof cases
    case 2
    then have "us = []" using assms(2) assms(3) [of r] by (cases us) auto
    with 2 show ?thesis by simp
  qed blast
qed

lemma nocopy_mode: "((x::8 word) OR 2) AND 1 = x AND 1"
  by (simp add: bit.conj_disj_distrib2)

lemma writable_upd [simp]:
  "writable (y\<lparr>off := i\<rparr>) = writable y" "writable (y\<lparr>buf := s\<rparr>) = writable y"
  "writable (y\<lparr>malloc_n := i\<rparr>) = writable y" "writable (y\<lparr>refer := i\<rparr>) = writable y"
  "writable (y\<lparr>origin := a\<rparr>) = writable y" "writable (y\<lparr>next_n := a\<rparr>) = writable y"
  by (simp_all add: writable_def getMode_def)

lemma setMode_nocopy [simp]:
  "buf (setMode m e y) = buf y" "off (setMode m e y) = off y" "malloc_n (setMode m e y) = malloc_n y"
  "next_n (setMode m e y) = next_n y" "origin (setMode m e y) = origin y" "refer (setMode m e y) = refer y"
  "writable (setMode nocopyReadMask True y) = writable y"
  by (simp_all add: setMode_def writable_def getMode_def nocopyReadMask_def readonlyMask_def nocopy_mode)

text \<open>Moving the cursor over \<open>xs\<close> to \<open>r\<close>, offsets of the skipped nodes anything in range.\<close>

lemma advI:
  assumes rep: "lb_rep w b hs rs ws ts"
    and sub: "\<And>a. a \<in> set (tl (ws @ ts)) \<Longrightarrow> node_Len (nd_at w a) = 0"
    and sp: "rs @ ws @ ts = xs @ r # zs"
    and mem: "same_mem w w'" "next_addr w' = next_addr w" "pool w' = pool w" "freed w' = freed w"
    and out: "\<And>a. a \<notin> set (xs @ [r]) \<Longrightarrow> nodes w' a = nodes w a"
    and xs: "\<And>a. a \<in> set xs \<Longrightarrow> \<exists>i. nodes w' a = Some ((nd_at w a)\<lparr>off := i\<rparr>) \<and>
                                    0 \<le> i \<and> i \<le> s_len (buf (nd_at w a))"
    and r: "nodes w' r = Some (f ((nd_at w r)\<lparr>off := off (nd_at w r) + k\<rparr>))"
      "f = id \<or> f = setMode nocopyReadMask True"
    and k: "0 < k" "k \<le> node_Len (nd_at w r)"
    and n: "n = lens w xs + k"
    and b': "head b' = head b" "read b' = Some r" "flush b' = flush b" "write_n b' = write_n b"
      "length_b b' = length_b b - n" "mallocSize b' = mallocSize b"
      "cachePeek b' = trim_peek (cachePeek b)"
  shows "adv w b hs rs ws ts n w' b'"
proof -
  note R = lb_repD [OF rep]
  obtain ys where ys: "rs = xs @ ys" "ys @ ws @ ts = r # zs"
  proof -
    have "0 < node_Len (nd_at w r)" using k by linarith
    from prefix_before_tail [OF sp this sub] that show ?thesis by blast
  qed
  have dist: "distinct (hs @ xs @ r # zs)" using R(5) ys by simp
  have all: "nodes w a = Some (nd_at w a)" if "a \<in> set (hs @ rs @ ws @ ts)" for a
    using lb_rep_nodes [OF rep that] .
  have rlike: "node_like (nd_at w r) (nd_at w' r)" "off (nd_at w' r) = off (nd_at w r) + k"
    "refer (nd_at w' r) = refer (nd_at w r)"
    using r by (auto simp: node_like_def)
  have like: "alike w w' a \<and> refer (nd_at w' a) = refer (nd_at w a)"
    if a: "a \<in> set (hs @ xs @ ys @ ws @ ts)" for a
  proof -
    consider "a \<in> set xs" | "a = r" | "a \<notin> set (xs @ [r])" by auto
    then show ?thesis
    proof cases
      case 1
      then show ?thesis using xs [OF 1] by (auto simp: alike_def node_like_def)
    next
      case 2
      then show ?thesis using rlike r by (simp add: alike_def)
    next
      case 3
      then show ?thesis using out [OF 3] all [of a] a ys by (auto simp: alike_def node_like_def nd_at_def)
    qed
  qed
  have ne: "a \<notin> set (xs @ [r])" if "a \<in> set zs \<or> a \<in> set hs" for a using dist that by auto
  have rep': "lb_rep w b hs (xs @ ys) ws ts" using rep ys by simp
  have al: "alike w w' a" if "a \<in> set (hs @ xs @ ys @ ws @ ts)" for a using like [OF that] by simp
  have offs: "0 \<le> off (nd_at w' a) \<and> off (nd_at w' a) \<le> s_len (buf (nd_at w' a))"
    if "a \<in> set (hs @ xs)" for a
  proof (cases "a \<in> set xs")
    case True
    then show ?thesis using xs [OF True] by auto
  next
    case False
    with that ne have "nodes w' a = nodes w a" by (auto intro: out)
    moreover have "node_ok (nd_at w a)" by (rule R(6)) (use that ys in auto)
    ultimately show ?thesis by (simp add: nd_at_def node_ok_def)
  qed
  have zs: "off (nd_at w' a) = off (nd_at w a)" if "a \<in> set zs" for a
    using out [of a] ne [of a] that by (simp add: nd_at_def)
  note adv = lb_rep_advance [OF rep' ys(2) mem(1) al offs zs less_imp_le [OF k(1)] k(2) rlike(2) n b']
  have tlz: "nodes w' a = nodes w a" if "a \<in> set (tl (ws @ ts))" for a
  proof (rule out)
    have "tl (ys @ ws @ ts) = zs" using ys(2) by simp
    then have "a \<in> set zs" using that by (cases ys; cases ws) (auto dest: in_set_tlD)
    then show "a \<notin> set (xs @ [r])" using ne by blast
  qed
  then have "\<forall>a\<in>set (tl (ws @ ts)). node_Len (nd_at w' a) = 0" using sub by (simp add: nd_at_def)
  moreover have "\<forall>a. a \<notin> set (rs @ ws @ ts) \<longrightarrow> nodes w' a = nodes w a"
    using out unfolding sp by auto
  moreover have "rs = xs @ ys \<and> lb_rep w' b' (hs @ xs) ys ws ts \<and>
      unreads w' (ys @ ws @ ts) = drop (nat n) (unreads w (rs @ ws @ ts)) \<and>
      pendings w' (ws @ ts) = pendings w (ws @ ts)"
    using adv ys(1) by (simp del: seq_simps)
  moreover have "\<forall>a\<in>set (rs @ ws @ ts). alike w w' a \<and> refer (nd_at w' a) = refer (nd_at w a)"
    using like ys(1) by auto
  ultimately show ?thesis
    unfolding adv_def using mem b'(5,6) by blast
qed


subsection \<open>Next, ReadBinary, ReadString\<close>

lemma lb_rep_lens:
  assumes "lb_rep w b hs rs ws ts" "\<And>a. a \<in> set (tl (ws @ ts)) \<Longrightarrow> node_Len (nd_at w a) = 0"
  shows "lens w (rs @ take 1 (ws @ ts)) = length_b b"
proof -
  have "lens w (tl (ws @ ts)) = 0"
    unfolding lens_def by (rule sum_list_map_eq_0) (rule assms(2))
  moreover have "lens w (ws @ ts) = lens w (take 1 (ws @ ts)) + lens w (tl (ws @ ts))"
    by (cases "ws @ ts") auto
  ultimately show ?thesis using lb_repD(11) [OF assms(1)] by simp
qed

lemma isSingleNode_ok:
  assumes rep: "lb_rep w b hs rs ws ts"
    and sub: "\<And>a. a \<in> set (tl (ws @ ts)) \<Longrightarrow> node_Len (nd_at w a) = 0"
    and n: "0 < n" "n \<le> length_b b" and b0: "read b0 = read b" "flush b0 = flush b"
  obtains xs r zs where "rs @ ws @ ts = xs @ r # zs" "\<forall>a\<in>set xs. node_Len (nd_at w a) = 0"
    "0 < node_Len (nd_at w r)" "isSingleNode n b0 w = Some (n \<le> node_Len (nd_at w r), b0\<lparr>read := Some r\<rparr>)"
    "nodes w r = Some (nd_at w r)" "node_ok (nd_at w r)"
proof -
  note R = lb_repD [OF rep]
  have seg: "lseg (nodes w) (read b0) rs (flush b0)" "lseg (nodes w) (flush b0) (ws @ ts) None"
    using R(2) lb_rep_chain(2) [OF rep] b0 by simp_all
  have dst: "distinct (rs @ ws @ ts)" using R(5) by simp
  have ok: "node_ok (nd_at w a)" if "a \<in> set (rs @ ws @ ts)" for a
    by (rule R(6)) (use that in auto)
  have "0 < lens w (rs @ take 1 (ws @ ts))" using lb_rep_lens [OF rep sub] n by simp
  then obtain xs ys r zs where q: "rs = xs @ ys" "ys @ ws @ ts = r # zs"
    "\<forall>a\<in>set xs. node_Len (nd_at w a) = 0" "0 < node_Len (nd_at w r)"
    "isSingleNode_loop b0 w = Some (b0\<lparr>read := Some r\<rparr>)"
    using isSingleNode_loop_ok [OF seg(1) seg(2) dst _ ok] by blast
  have rin: "r \<in> set (hs @ rs @ ws @ ts)"
    using q(1) arg_cong [OF q(2), of set] by auto
  show thesis
  proof (rule that)
    show "rs @ ws @ ts = xs @ r # zs" using q by simp
    show "isSingleNode n b0 w = Some (n \<le> node_Len (nd_at w r), b0\<lparr>read := Some r\<rparr>)"
    proof -
      obtain nd where "nodes w r = Some nd" using lb_rep_nodes [OF rep rin] by blast
      then show ?thesis using q(5) n by (simp add: isSingleNode_def)
    qed
  qed (fact q lb_rep_nodes [OF rep rin] R(6) [OF rin])+
qed

lemma off_kept:
  assumes "nodes w' a = nodes w a" "nodes w a = Some (nd_at w a)" "node_ok (nd_at w a)"
  shows "\<exists>i. nodes w' a = Some ((nd_at w a)\<lparr>off := i\<rparr>) \<and> 0 \<le> i \<and> i \<le> s_len (buf (nd_at w a))"
proof -
  have "nodes w' a = Some ((nd_at w a)\<lparr>off := off (nd_at w a)\<rparr>)"
    using assms(2) unfolding assms(1) by (rule trans) simp
  then show ?thesis using assms(3) unfolding node_ok_def by blast
qed

lemma read_loop_adv:
  assumes rep: "lb_rep w b hs rs ws ts"
    and sub: "\<And>a. a \<in> set (tl (ws @ ts)) \<Longrightarrow> node_Len (nd_at w a) = 0"
    and n: "0 < n" "n \<le> length_b b"
    and sp: "rs @ ws @ ts = xs @ r # zs" and zero: "\<forall>a\<in>set xs. node_Len (nd_at w a) = 0"
    and p: "s_arr p = next_arr w" "s_len p = n" "n \<le> s_cap p"
    and w1: "w1 = w\<lparr>next_arr := Suc (next_arr w)\<rparr>"
    and b1: "head b1 = head b" "read b1 = Some r" "flush b1 = flush b" "write_n b1 = write_n b"
      "length_b b1 = length_b b - n" "mallocSize b1 = mallocSize b"
      "cachePeek b1 = trim_peek (cachePeek b)"
  shows "\<exists>b' w'. read_loop n p 0 b1 w1 = Some (b', w') \<and>
           slice_bytes w' p = take (nat n) (unreads w (rs @ ws @ ts)) \<and> adv w b hs rs ws ts n w' b'"
proof -
  note R = lb_repD [OF rep]
  have at: "nd_at w1 a = nd_at w a" for a by (simp add: nd_at_def w1)
  have un1: "unreads w1 as = unreads w as" for as
    unfolding unreads_def at by (simp add: unread_def slice_bytes_def w1)
  have len1: "lens w1 as = lens w as" for as by (simp add: lens_def at)
  have ux: "unreads w xs = []" and lx: "lens w xs = 0"
  proof -
    have "node_ok (nd_at w a)" if "a \<in> set xs" for a
      using R(6) [of a] that arg_cong [OF sp, of set] by auto
    then show "unreads w xs = []" using zero by (auto intro!: unreads_empty simp: unread_Nil_iff)
    show "lens w xs = 0" unfolding lens_def using zero by (intro sum_list_map_eq_0) blast
  qed
  have in_all: "a \<in> set (hs @ rs @ ws @ ts)" if "a \<in> set (r # zs)" for a
    using that arg_cong [OF sp, of set] by auto
  have seg: "lseg (nodes w1) (read b1) (r # zs) None"
  proof -
    have "lseg (nodes w) (read b) (xs @ r # zs) None"
      using lb_rep_chain(1) [OF rep] sp by simp
    then show ?thesis unfolding lseg_append by (auto simp: w1 b1(2))
  qed
  have nle: "n \<le> lens w1 (r # zs)"
  proof -
    have "length_b b = lens w (xs @ r # zs)" using R(11) unfolding sp .
    then show ?thesis unfolding len1 using n lx by simp
  qed
  have "distinct (r # zs)" using R(5) unfolding sp by simp
  moreover have "node_ok (nd_at w1 a) \<and> s_arr (buf (nd_at w1 a)) \<noteq> s_arr p" if "a \<in> set (r # zs)" for a
    using R(6,7) [OF in_all [OF that]] p(1) at by simp
  moreover have "n \<le> lens w1 (r # zs)" using nle .
  ultimately have "\<exists>xs1 r1 zs1 k w'. r # zs = xs1 @ r1 # zs1 \<and>
     read_loop n p 0 b1 w1 = Some (b1\<lparr>read := Some r1\<rparr>, w') \<and> n = lens w1 xs1 + k \<and> 0 < k \<and>
     k \<le> node_Len (nd_at w1 r1) \<and> (\<forall>a. a \<notin> set (xs1 @ [r1]) \<longrightarrow> nodes w' a = nodes w1 a) \<and>
     (\<forall>a\<in>set xs1. nodes w' a = Some ((nd_at w1 a)\<lparr>off := s_len (buf (nd_at w1 a))\<rparr>)) \<and>
     nodes w' r1 = Some ((nd_at w1 r1)\<lparr>off := off (nd_at w1 r1) + k\<rparr>) \<and>
     (\<forall>x. x \<noteq> s_arr p \<longrightarrow> cells w' x = cells w1 x) \<and> same_rest w1 w' \<and>
     slice_bytes w' p = take (nat 0) (slice_bytes w1 p) @ take (nat n) (unreads w1 (r # zs))"
    using n p(2,3) by (intro read_loop_ok [OF seg]) simp_all
  then obtain xs1 r1 zs1 k w' where q: "r # zs = xs1 @ r1 # zs1"
    "read_loop n p 0 b1 w1 = Some (b1\<lparr>read := Some r1\<rparr>, w')" "n = lens w1 xs1 + k" "0 < k"
    "k \<le> node_Len (nd_at w1 r1)" "\<forall>a. a \<notin> set (xs1 @ [r1]) \<longrightarrow> nodes w' a = nodes w1 a"
    "\<forall>a\<in>set xs1. nodes w' a = Some ((nd_at w1 a)\<lparr>off := s_len (buf (nd_at w1 a))\<rparr>)"
    "nodes w' r1 = Some ((nd_at w1 r1)\<lparr>off := off (nd_at w1 r1) + k\<rparr>)"
    "\<forall>x. x \<noteq> s_arr p \<longrightarrow> cells w' x = cells w1 x" "same_rest w1 w'"
    "slice_bytes w' p = take (nat 0) (slice_bytes w1 p) @ take (nat n) (unreads w1 (r # zs))"
    by blast
  have sp': "rs @ ws @ ts = (xs @ xs1) @ r1 # zs1" using sp q(1) by simp
  have bytes: "slice_bytes w' p = take (nat n) (unreads w (rs @ ws @ ts))"
    using q(11) ux unfolding sp un1 by (simp add: seq_simps(2))
  have dist: "distinct (xs @ xs1 @ r1 # zs1)" using R(5) sp' by simp
  have "adv w b hs rs ws ts n w' (b1\<lparr>read := Some r1\<rparr>)"
  proof (rule advI [OF rep sub sp', where f = id and k = k])
    show "same_mem w w'"
      using q(9,10) p(1) by (auto simp: same_mem_def same_rest_def w1)
    show "next_addr w' = next_addr w" "pool w' = pool w" "freed w' = freed w"
      using q(10) by (simp_all add: same_rest_def w1)
    show "nodes w' a = nodes w a" if "a \<notin> set ((xs @ xs1) @ [r1])" for a
      using q(6) that by (simp add: w1)
    show "\<exists>i. nodes w' a = Some ((nd_at w a)\<lparr>off := i\<rparr>) \<and> 0 \<le> i \<and> i \<le> s_len (buf (nd_at w a))"
      if a: "a \<in> set (xs @ xs1)" for a
    proof -
      have in_a: "a \<in> set (hs @ rs @ ws @ ts)" using a arg_cong [OF sp', of set] by auto
      note ok = R(6) [OF in_a] and nda = lb_rep_nodes [OF rep in_a]
      show ?thesis
      proof (cases "a \<in> set xs1")
        case True
        then show ?thesis using q(7) at ok by (force simp: node_ok_def)
      next
        case False
        with a dist have "a \<notin> set (xs1 @ [r1])" by auto
        with q(6) have "nodes w' a = nodes w a" by (simp add: w1)
        then show ?thesis by (rule off_kept [OF _ nda ok])
      qed
    qed
    show "n = lens w (xs @ xs1) + k" using q(3) lx len1 by simp
    show "nodes w' r1 = Some (id ((nd_at w r1)\<lparr>off := off (nd_at w r1) + k\<rparr>))"
      "k \<le> node_Len (nd_at w r1)"
      using q(5,8) unfolding at by simp_all
  qed (simp_all add: b1 q(4))
  with q(2) bytes show ?thesis by blast
qed

lemma zero_prefix:
  assumes rep: "lb_rep w b hs rs ws ts" and sp: "rs @ ws @ ts = xs @ r # zs"
    and zero: "\<forall>a\<in>set xs. node_Len (nd_at w a) = 0"
  shows "unreads w xs = []" "lens w xs = 0" "\<And>a. a \<in> set (xs @ [r]) \<Longrightarrow> a \<in> set (hs @ rs @ ws @ ts)"
    "r \<notin> set xs"
proof -
  note R = lb_repD [OF rep]
  show in_all: "a \<in> set (hs @ rs @ ws @ ts)" if "a \<in> set (xs @ [r])" for a
    using that arg_cong [OF sp, of set] by auto
  have "node_ok (nd_at w a)" if "a \<in> set xs" for a
    by (rule R(6)) (rule in_all, use that in simp)
  then show "unreads w xs = []" using zero by (auto intro!: unreads_empty simp: unread_Nil_iff)
  show "lens w xs = 0" unfolding lens_def using zero by (intro sum_list_map_eq_0) blast
  show "r \<notin> set xs" using R(5) unfolding sp by simp
qed

lemma single_take:
  assumes rep: "lb_rep w b hs rs ws ts" and sp: "rs @ ws @ ts = xs @ r # zs"
    and zero: "\<forall>a\<in>set xs. node_Len (nd_at w a) = 0" and n: "n \<le> node_Len (nd_at w r)"
  shows "take (nat n) (unread w (nd_at w r)) = take (nat n) (unreads w (rs @ ws @ ts))"
proof -
  note Z = zero_prefix [OF rep sp zero]
  have "node_ok (nd_at w r)" by (rule lb_repD(6) [OF rep]) (rule Z(3), simp)
  then show ?thesis unfolding sp using Z(1) length_unread [of "nd_at w r" w] n by simp
qed

lemma single_adv:
  assumes rep: "lb_rep w b hs rs ws ts"
    and sub: "\<And>a. a \<in> set (tl (ws @ ts)) \<Longrightarrow> node_Len (nd_at w a) = 0"
    and n: "0 < n" "n \<le> node_Len (nd_at w r)"
    and sp: "rs @ ws @ ts = xs @ r # zs" and zero: "\<forall>a\<in>set xs. node_Len (nd_at w a) = 0"
    and w': "nodes w' = (nodes w)(r \<mapsto> f ((nd_at w r)\<lparr>off := off (nd_at w r) + n\<rparr>))"
      "f = id \<or> f = setMode nocopyReadMask True"
      "same_mem w w'" "next_addr w' = next_addr w" "pool w' = pool w" "freed w' = freed w"
    and b1: "head b1 = head b" "read b1 = Some r" "flush b1 = flush b" "write_n b1 = write_n b"
      "length_b b1 = length_b b - n" "mallocSize b1 = mallocSize b"
      "cachePeek b1 = trim_peek (cachePeek b)"
  shows "adv w b hs rs ws ts n w' b1"
proof -
  note R = lb_repD [OF rep] and Z = zero_prefix [OF rep sp zero]
  show "adv w b hs rs ws ts n w' b1"
  proof (rule advI [OF rep sub sp, where f = f and k = n])
    show "\<exists>i. nodes w' a = Some ((nd_at w a)\<lparr>off := i\<rparr>) \<and> 0 \<le> i \<and> i \<le> s_len (buf (nd_at w a))"
      if a: "a \<in> set xs" for a
    proof -
      have in_a: "a \<in> set (hs @ rs @ ws @ ts)" using a by (intro Z(3)) simp
      have "a \<noteq> r" using a Z(4) by blast
      then have "nodes w' a = nodes w a" using w'(1) by simp
      then show ?thesis by (rule off_kept [OF _ lb_rep_nodes [OF rep in_a] R(6) [OF in_a]])
    qed
    show "nodes w' a = nodes w a" if "a \<notin> set (xs @ [r])" for a using that w'(1) by simp
  qed (simp_all add: w' b1 n Z(2) del: id_apply)
qed

end
