(* ===== verification/LinkBufferReadOps.thy ===== *)
theory LinkBufferReadOps
  imports LinkBufferAdvance
begin

section \<open>LinkBuffer: Next, ReadBinary, Skip, ReadByte, indexByte\<close>

text \<open>
  Each reading operation on a represented buffer, with the lists of its nodes written out. On
  every branch (one node, several nodes, no-copy or copy) it ends, panics nowhere and returns
  the first bytes of the stream.
\<close>

subsection \<open>Next\<close>

lemma lb_Next_rep:
  assumes rep: "lb_rep w b hs rs ws ts"
    and sub: "\<And>a. a \<in> set (tl (ws @ ts)) \<Longrightarrow> node_Len (nd_at w a) = 0"
    and g: "mcache_ok g" and n: "0 < n" "n \<le> length_b b"
  shows "\<exists>p b' w'. lb_Next g n b w = Some (Inr p, b', w') \<and> s_len p = n \<and>
           slice_bytes w' p = take (nat n) (unreads w (rs @ ws @ ts)) \<and> adv w b hs rs ws ts n w' b'"
proof -
  let ?b = "snd (recalLen (- n) b)"
  note rl = recalLen_neg [OF n(1), of b]
  have rb: "read ?b = read b" "flush ?b = flush b" by (simp_all add: rl)
  obtain xs r zs where x: "rs @ ws @ ts = xs @ r # zs" "\<forall>a\<in>set xs. node_Len (nd_at w a) = 0"
    "isSingleNode n ?b w = Some (n \<le> node_Len (nd_at w r), ?b\<lparr>read := Some r\<rparr>)"
    "nodes w r = Some (nd_at w r)" "node_ok (nd_at w r)"
    by (rule isSingleNode_ok [OF rep sub n rb])
  have run: "lb_Next g n b w =
    (if n \<le> node_Len (nd_at w r) then
       do { (p, nd') \<leftarrow> node_Next n (nd_at w r); Some (Inr p, ?b\<lparr>read := Some r\<rparr>, set_node r nd' w) }
     else
       do { let (p, b, w) =
              (if block1k < n \<and> n \<le> mallocMax
               then (let (p, w) = malloc g n n w in (p, ?b\<lparr>read := Some r, caches := caches b @ [p]\<rparr>, w))
               else (let (p, w) = new_array n n w in (p, ?b\<lparr>read := Some r\<rparr>, w)));
            (b, w) \<leftarrow> read_loop n p 0 b w;
            Some (Inr p, b, w) })"
  proof -
    obtain nd where "nodes w r = Some nd" using x(4) by blast
    then show ?thesis using n x(3) by (simp add: lb_Next_def lb_Len_def rl Let_def)
  qed
  show ?thesis
  proof (cases "n \<le> node_Len (nd_at w r)")
    case True
    obtain p where p: "node_Next n (nd_at w r) = Some (p, (nd_at w r)\<lparr>off := off (nd_at w r) + n\<rparr>)"
      "s_len p = n" "slice_bytes w p = take (nat n) (unread w (nd_at w r))"
      by (rule node_Next_ok [OF x(5) less_imp_le [OF n(1)] True]) blast
    let ?w = "set_node r ((nd_at w r)\<lparr>off := off (nd_at w r) + n\<rparr>) w"
    have "adv w b hs rs ws ts n ?w (?b\<lparr>read := Some r\<rparr>)"
      by (rule single_adv [OF rep sub n(1) True x(1,2), where f = id]; simp add: rl same_mem_def)
    then show ?thesis using run True p single_take [OF rep x(1,2) True] by (simp del: seq_simps)
  next
    case False
    obtain p b1 where p: "lb_Next g n b w =
        do { (b, w) \<leftarrow> read_loop n p 0 b1 (w\<lparr>next_arr := Suc (next_arr w)\<rparr>); Some (Inr p, b, w) }"
      "s_arr p = next_arr w" "s_len p = n" "n \<le> s_cap p"
      "\<exists>cs. b1 = ?b\<lparr>read := Some r, caches := cs\<rparr>"
    proof (cases "block1k < n \<and> n \<le> mallocMax")
      case True
      obtain p w1 where m: "malloc g n n w = (p, w1)" by fastforce
      show ?thesis
        by (rule that [of p "?b\<lparr>read := Some r, caches := caches b @ [p]\<rparr>"])
          (use run True False malloc_fresh [OF g m] in \<open>simp_all add: m rl\<close>, blast)
    next
      case f: False
      show ?thesis
        by (rule that [of "\<lparr>s_arr = next_arr w, s_off = 0, s_len = n, s_cap = n\<rparr>" "?b\<lparr>read := Some r\<rparr>"])
          (use run f False in \<open>simp_all add: new_array_def rl exI [of _ "caches b"]\<close>)
    qed
    have "\<exists>b' w'. read_loop n p 0 b1 (w\<lparr>next_arr := Suc (next_arr w)\<rparr>) = Some (b', w') \<and>
        slice_bytes w' p = take (nat n) (unreads w (rs @ ws @ ts)) \<and> adv w b hs rs ws ts n w' b'"
      using p(5) by (intro read_loop_adv [OF rep sub n x(1,2) p(2-4)]) (auto simp: rl)
    then obtain b' w' where "read_loop n p 0 b1 (w\<lparr>next_arr := Suc (next_arr w)\<rparr>) = Some (b', w')"
      "slice_bytes w' p = take (nat n) (unreads w (rs @ ws @ ts))" "adv w b hs rs ws ts n w' b'"
      by blast
    then show ?thesis using p(1,3) by (simp del: seq_simps)
  qed
qed

subsection \<open>ReadBinary, ReadString\<close>

lemma lb_readBinary_rep:
  assumes rep: "lb_rep w b hs rs ws ts"
    and sub: "\<And>a. a \<in> set (tl (ws @ ts)) \<Longrightarrow> node_Len (nd_at w a) = 0"
    and n: "0 < n" "n \<le> length_b b"
  shows "\<exists>p b' w'. lb_readBinary g n b w = Some (p, b', w') \<and> s_len p = n \<and>
           slice_bytes w' p = take (nat n) (unreads w (rs @ ws @ ts)) \<and> adv w b hs rs ws ts n w' b'"
proof -
  let ?b = "snd (recalLen (- n) b)"
  note rl = recalLen_neg [OF n(1), of b]
  have rb: "read ?b = read b" "flush ?b = flush b" by (simp_all add: rl)
  obtain xs r zs where x: "rs @ ws @ ts = xs @ r # zs" "\<forall>a\<in>set xs. node_Len (nd_at w a) = 0"
    "isSingleNode n ?b w = Some (n \<le> node_Len (nd_at w r), ?b\<lparr>read := Some r\<rparr>)"
    "nodes w r = Some (nd_at w r)" "node_ok (nd_at w r)"
    by (rule isSingleNode_ok [OF rep sub n rb])
  let ?nd = "nd_at w r" and ?b1 = "?b\<lparr>read := Some r\<rparr>"
  let ?p = "\<lparr>s_arr = next_arr w, s_off = 0, s_len = n, s_cap = n\<rparr>"
  let ?w1 = "w\<lparr>next_arr := Suc (next_arr w)\<rparr>"
  show ?thesis
  proof (cases "n \<le> node_Len ?nd")
    case True
    obtain p where p: "node_Next n ?nd = Some (p, ?nd\<lparr>off := off ?nd + n\<rparr>)"
      "s_len p = n" "s_arr p = s_arr (buf ?nd)" "slice_bytes w p = take (nat n) (unread w ?nd)"
      by (rule node_Next_ok [OF x(5) less_imp_le [OF n(1)] True]) blast
    have pm: "node_Next n (setMode nocopyReadMask True ?nd) =
        Some (p, setMode nocopyReadMask True (?nd\<lparr>off := off ?nd + n\<rparr>))"
      using p(1) by (auto simp: node_Next_def setMode_def split: bind_splits)
    have adv: "adv w b hs rs ws ts n (set_node r (?nd\<lparr>off := off ?nd + n\<rparr>) w) ?b1"
      "adv w b hs rs ws ts n (set_node r (setMode nocopyReadMask True (?nd\<lparr>off := off ?nd + n\<rparr>)) w) ?b1"
      "adv w b hs rs ws ts n
         (store_bytes ?p (take (nat n) (unread w ?nd)) (set_node r (?nd\<lparr>off := off ?nd + n\<rparr>) ?w1)) ?b1"
      by (rule single_adv [OF rep sub n(1) True x(1,2), where f = id]
          single_adv [OF rep sub n(1) True x(1,2), where f = "setMode nocopyReadMask True"];
          simp add: rl same_mem_def store_bytes_def)+
    have tk: "take (nat n) (unread w ?nd) = take (nat n) (unreads w (rs @ ws @ ts))"
      by (rule single_take [OF rep x(1,2) True])
    obtain nd where nd: "nodes w r = Some nd" using x(4) by blast
    have cp: "go_copy ?p (take (nat n) (unread w ?nd)) m =
        (n, store_bytes ?p (take (nat n) (unread w ?nd)) m)" for m :: world
      using length_unread [OF x(5), of w] n True by (subst go_copy_fits) simp_all
    have run: "lb_readBinary g n b w =
      (if writable ?nd \<and> getMode nocopyReadMask ?nd
       then Some (p, ?b1, set_node r (?nd\<lparr>off := off ?nd + n\<rparr>) w)
       else if writable ?nd \<and> featureAlwaysNoCopyRead g \<and> n \<ge> minReuseBytes
       then Some (p, ?b1, set_node r (setMode nocopyReadMask True (?nd\<lparr>off := off ?nd + n\<rparr>)) w)
       else Some (?p, ?b1, store_bytes ?p (take (nat n) (unread w ?nd)) (set_node r (?nd\<lparr>off := off ?nd + n\<rparr>) ?w1)))"
      using x(3) True nd p pm n cp
      by (simp add: lb_readBinary_def new_array_def writable_def Let_def slice_bytes_def)
    have sb: "slice_bytes (store_bytes ?p (take (nat n) (unread w ?nd)) m) ?p = take (nat n) (unread w ?nd)" for m :: world
      using length_unread [OF x(5), of w] n True by (intro slice_bytes_store_same) auto
    show ?thesis using run adv p tk sb by (simp del: seq_simps split: if_splits)
  next
    case False
    have run: "lb_readBinary g n b w =
        do { (b, w) \<leftarrow> read_loop n ?p 0 ?b1 ?w1; Some (?p, b, w) }"
      using x(3) False by (simp add: lb_readBinary_def new_array_def)
    have "\<exists>b' w'. read_loop n ?p 0 ?b1 ?w1 = Some (b', w') \<and>
        slice_bytes w' ?p = take (nat n) (unreads w (rs @ ws @ ts)) \<and> adv w b hs rs ws ts n w' b'"
      by (rule read_loop_adv [OF rep sub n x(1,2)]) (simp_all add: rl)
    then obtain b' w' where "read_loop n ?p 0 ?b1 ?w1 = Some (b', w')"
      "slice_bytes w' ?p = take (nat n) (unreads w (rs @ ws @ ts))" "adv w b hs rs ws ts n w' b'"
      by blast
    then show ?thesis using run by (simp del: seq_simps)
  qed
qed

subsection \<open>Skip\<close>

declare Skip_loop.simps [simp del] ReadByte_loop.simps [simp del] indexByte_loop.simps [simp del]

lemma Skip_loop_ok:
  assumes "lseg (nodes w) (read b) as None" "\<And>a. a \<in> set as \<Longrightarrow> node_ok (nd_at w a)"
    "0 < ack" "ack \<le> lens w as"
  shows "\<exists>xs r zs k. as = xs @ r # zs \<and> ack = lens w xs + k \<and> 0 < k \<and> k \<le> node_Len (nd_at w r) \<and>
           Skip_loop ack b w =
             Some (b\<lparr>read := Some r\<rparr>, set_node r ((nd_at w r)\<lparr>off := off (nd_at w r) + k\<rparr>) w)"
  using assms
proof (induction as arbitrary: b ack)
  case Nil
  then show ?case by simp
next
  case (Cons a as)
  then obtain nd where rd: "read b = Some a" and nd: "nodes w a = Some nd"
    and seg: "lseg (nodes w) (next_n nd) as None"
    by (auto split: option.splits)
  show ?case
  proof (cases "ack \<le> node_Len nd")
    case True
    then have "Skip_loop ack b w = Some (b\<lparr>read := Some a\<rparr>, set_node a (nd\<lparr>off := off nd + ack\<rparr>) w)"
      using rd nd Cons.prems(3) by (simp add: Skip_loop.simps)
    then show ?thesis using True Cons.prems(3) nd
      by (intro exI [of _ "[]"] exI [of _ a] exI [of _ as] exI [of _ ack]) simp
  next
    case False
    let ?b = "b\<lparr>read := next_n nd\<rparr>" and ?m = "ack - node_Len nd"
    have step: "Skip_loop ack b w = Skip_loop ?m ?b w"
      using False rd nd Cons.prems(3) by (subst Skip_loop.simps) simp
    have "\<exists>xs r zs k. as = xs @ r # zs \<and> ?m = lens w xs + k \<and> 0 < k \<and> k \<le> node_Len (nd_at w r) \<and>
        Skip_loop ?m ?b w =
          Some (?b\<lparr>read := Some r\<rparr>, set_node r ((nd_at w r)\<lparr>off := off (nd_at w r) + k\<rparr>) w)"
      using Cons.prems False seg nd by (intro Cons.IH) auto
    then obtain xs r zs k where "as = xs @ r # zs" "?m = lens w xs + k" "0 < k"
      "k \<le> node_Len (nd_at w r)" "Skip_loop ?m ?b w =
          Some (?b\<lparr>read := Some r\<rparr>, set_node r ((nd_at w r)\<lparr>off := off (nd_at w r) + k\<rparr>) w)"
      by blast
    then show ?thesis using step nd
      by (intro exI [of _ "a # xs"] exI [of _ r] exI [of _ zs] exI [of _ k]) simp
  qed
qed

lemma lb_Skip_rep:
  assumes rep: "lb_rep w b hs rs ws ts"
    and sub: "\<And>a. a \<in> set (tl (ws @ ts)) \<Longrightarrow> node_Len (nd_at w a) = 0"
    and n: "0 < n" "n \<le> length_b b"
  shows "\<exists>b' w'. lb_Skip n b w = Some (None, b', w') \<and> adv w b hs rs ws ts n w' b'"
proof -
  let ?b = "snd (recalLen (- n) b)"
  note rl = recalLen_neg [OF n(1), of b] and R = lb_repD [OF rep]
  have ok: "node_ok (nd_at w a)" if "a \<in> set (rs @ ws @ ts)" for a
    by (rule R(6)) (use that in auto)
  have seg: "lseg (nodes w) (read ?b) (rs @ ws @ ts) None"
    using lb_rep_chain(1) [OF rep] by (simp add: rl)
  obtain xs r zs k where q: "rs @ ws @ ts = xs @ r # zs" "n = lens w xs + k" "0 < k"
    "k \<le> node_Len (nd_at w r)" "Skip_loop n ?b w =
        Some (?b\<lparr>read := Some r\<rparr>, set_node r ((nd_at w r)\<lparr>off := off (nd_at w r) + k\<rparr>) w)"
    using Skip_loop_ok [OF seg ok n(1) n(2) [unfolded R(11)]] by blast
  let ?w = "set_node r ((nd_at w r)\<lparr>off := off (nd_at w r) + k\<rparr>) w"
  have dist: "r \<notin> set xs" using R(5) unfolding q(1) by simp
  have "adv w b hs rs ws ts n ?w (?b\<lparr>read := Some r\<rparr>)"
  proof (rule advI [OF rep sub q(1), where f = id and k = k])
    show "\<exists>i. nodes ?w a = Some ((nd_at w a)\<lparr>off := i\<rparr>) \<and> 0 \<le> i \<and> i \<le> s_len (buf (nd_at w a))"
      if a: "a \<in> set xs" for a
    proof (rule off_kept)
      have "a \<in> set (hs @ rs @ ws @ ts)" using a unfolding q(1) by simp
      then show "nodes w a = Some (nd_at w a)" "node_ok (nd_at w a)"
        by (rule lb_rep_nodes [OF rep], rule R(6))
      show "nodes ?w a = nodes w a" using a dist by auto
    qed
  qed (simp_all add: rl q(3,4) same_mem_def flip: q(2))
  then show ?thesis using n q(5) by (simp add: lb_Skip_def lb_Len_def)
qed

subsection \<open>ReadByte\<close>

lemma ReadByte_loop_ok:
  assumes "lseg (nodes w) (read b) as None" "\<And>a. a \<in> set as \<Longrightarrow> node_ok (nd_at w a)"
    "0 < lens w as"
  shows "\<exists>xs r zs. as = xs @ r # zs \<and> (\<forall>a\<in>set xs. node_Len (nd_at w a) = 0) \<and> 1 \<le> node_Len (nd_at w r) \<and>
           ReadByte_loop b w =
             Some (unread w (nd_at w r) ! 0, b\<lparr>read := Some r\<rparr>,
                   set_node r ((nd_at w r)\<lparr>off := off (nd_at w r) + 1\<rparr>) w)"
  using assms
proof (induction as arbitrary: b)
  case Nil
  then show ?case by simp
next
  case (Cons a as)
  then obtain nd where rd: "read b = Some a" and nd: "nodes w a = Some nd"
    and seg: "lseg (nodes w) (next_n nd) as None"
    by (auto split: option.splits)
  have ok: "node_ok nd" using Cons.prems(2) [of a] nd by simp
  show ?case
  proof (cases "1 \<le> node_Len nd")
    case True
    obtain p where p: "node_Next 1 nd = Some (p, nd\<lparr>off := off nd + 1\<rparr>)"
      "slice_bytes w p = take (nat 1) (unread w nd)"
      by (rule node_Next_ok [OF ok _ True]) (simp, blast)
    then have "ReadByte_loop b w = Some (unread w nd ! 0, b\<lparr>read := Some a\<rparr>, set_node a (nd\<lparr>off := off nd + 1\<rparr>) w)"
      using rd nd True by (subst ReadByte_loop.simps) simp
    then show ?thesis using True nd
      by (intro exI [of _ "[]"] exI [of _ a] exI [of _ as]) simp
  next
    case False
    then have z: "node_Len nd = 0" using node_Len_nonneg [OF ok] by simp
    let ?b = "b\<lparr>read := next_n nd\<rparr>"
    have step: "ReadByte_loop b w = ReadByte_loop ?b w"
      using False rd nd by (subst ReadByte_loop.simps) simp
    have "\<exists>xs r zs. as = xs @ r # zs \<and> (\<forall>a\<in>set xs. node_Len (nd_at w a) = 0) \<and> 1 \<le> node_Len (nd_at w r) \<and>
        ReadByte_loop ?b w = Some (unread w (nd_at w r) ! 0, ?b\<lparr>read := Some r\<rparr>,
          set_node r ((nd_at w r)\<lparr>off := off (nd_at w r) + 1\<rparr>) w)"
      using Cons.prems z seg nd by (intro Cons.IH) auto
    then obtain xs r zs where "as = xs @ r # zs" "\<forall>a\<in>set xs. node_Len (nd_at w a) = 0"
      "1 \<le> node_Len (nd_at w r)" "ReadByte_loop ?b w = Some (unread w (nd_at w r) ! 0, ?b\<lparr>read := Some r\<rparr>,
          set_node r ((nd_at w r)\<lparr>off := off (nd_at w r) + 1\<rparr>) w)"
      by blast
    then show ?thesis using step nd z
      by (intro exI [of _ "a # xs"] exI [of _ r] exI [of _ zs]) simp
  qed
qed

lemma lb_ReadByte_rep:
  assumes rep: "lb_rep w b hs rs ws ts"
    and sub: "\<And>a. a \<in> set (tl (ws @ ts)) \<Longrightarrow> node_Len (nd_at w a) = 0"
    and n: "1 \<le> length_b b"
  shows "\<exists>b' w'. lb_ReadByte b w = Some (Inr (unreads w (rs @ ws @ ts) ! 0), b', w') \<and>
           adv w b hs rs ws ts 1 w' b'"
proof -
  let ?b = "snd (recalLen (- 1) b)"
  note rl = recalLen_neg [of 1 b, simplified] and R = lb_repD [OF rep]
  have ok: "node_ok (nd_at w a)" if "a \<in> set (rs @ ws @ ts)" for a
    by (rule R(6)) (use that in auto)
  have seg: "lseg (nodes w) (read ?b) (rs @ ws @ ts) None"
    using lb_rep_chain(1) [OF rep] by (simp add: rl)
  have "0 < lens w (rs @ ws @ ts)" using n R(11) by linarith
  from ReadByte_loop_ok [OF seg ok this] obtain xs r zs where q: "rs @ ws @ ts = xs @ r # zs"
    "\<forall>a\<in>set xs. node_Len (nd_at w a) = 0" "1 \<le> node_Len (nd_at w r)"
    "ReadByte_loop ?b w = Some (unread w (nd_at w r) ! 0, ?b\<lparr>read := Some r\<rparr>,
       set_node r ((nd_at w r)\<lparr>off := off (nd_at w r) + 1\<rparr>) w)" by blast
  have "adv w b hs rs ws ts 1 (set_node r ((nd_at w r)\<lparr>off := off (nd_at w r) + 1\<rparr>) w) (?b\<lparr>read := Some r\<rparr>)"
    by (rule single_adv [OF rep sub _ q(3,1,2), where f = id]; simp add: rl same_mem_def)
  moreover have "unreads w (rs @ ws @ ts) ! 0 = unread w (nd_at w r) ! 0"
    using single_take [OF rep q(1-3)] by (metis nat_1 nth_take zero_less_one less_numeral_extra(1) One_nat_def)
  ultimately show ?thesis using n q(4) by (simp add: lb_ReadByte_def lb_Len_def del: seq_simps)
qed

subsection \<open>indexByte, Until\<close>

text \<open>The first position at or after \<open>skip\<close> of a byte in a sequence of bytes, or -1.\<close>

definition index_from :: "byte \<Rightarrow> nat \<Rightarrow> byte list \<Rightarrow> int" where
  "index_from c k bs = (let i = IndexByte (drop k bs) c in if i < 0 then -1 else int k + i)"

lemma IndexByte_append:
  "IndexByte (xs @ ys) c =
     (if IndexByte xs c \<ge> 0 then IndexByte xs c
      else if IndexByte ys c \<ge> 0 then int (length xs) + IndexByte ys c else -1)"
proof (cases "c \<in> set xs")
  case True
  then have "length (takeWhile (\<lambda>x. x \<noteq> c) xs) < length xs"
    by (induction xs) auto
  moreover have "takeWhile (\<lambda>x. x \<noteq> c) (xs @ ys) = takeWhile (\<lambda>x. x \<noteq> c) xs"
    using takeWhile_append1 [OF True, of "\<lambda>x. x \<noteq> c"] by simp
  ultimately show ?thesis by (simp add: IndexByte_def Let_def)
next
  case False
  then have a: "takeWhile (\<lambda>x. x \<noteq> c) xs = xs" by (auto simp: takeWhile_eq_all_conv)
  have b: "takeWhile (\<lambda>x. x \<noteq> c) (xs @ ys) = xs @ takeWhile (\<lambda>x. x \<noteq> c) ys"
    using False by (intro takeWhile_append2) auto
  show ?thesis by (simp add: IndexByte_def Let_def a b)
qed

lemma IndexByte_Nil [simp]: "IndexByte [] c = -1"
  by (simp add: IndexByte_def)

lemma IndexByte_ge: "IndexByte xs c = -1 \<or> 0 \<le> IndexByte xs c"
  by (simp add: IndexByte_def Let_def)

lemma indexByte_loop_ok:
  assumes "lseg (nodes w) node as None" "\<And>a. a \<in> set as \<Longrightarrow> node_ok (nd_at w a)"
    "u = lens w as" "0 \<le> skip"
  shows "indexByte_loop c sz u skip node w =
           Some (let i = IndexByte (drop (nat skip) (unreads w as)) c
                 in if i < 0 then -1 else sz - u + skip + i)"
  using assms
proof (induction as arbitrary: node u skip)
  case Nil
  then show ?case by (simp add: indexByte_loop.simps)
next
  case (Cons a as)
  then obtain nd where rd: "node = Some a" and nd: "nodes w a = Some nd"
    and seg: "lseg (nodes w) (next_n nd) as None"
    by (auto split: option.splits)
  have ok: "node_ok nd" using Cons.prems(2) [of a] nd by simp
  have len: "int (length (unread w nd)) = node_Len nd" by (rule length_unread [OF ok])
  have nn: "0 \<le> node_Len nd" "0 \<le> lens w as"
    using node_Len_nonneg [OF ok] lens_nonneg [of as w] Cons.prems(2) by auto
  have u: "u = node_Len nd + lens w as" using Cons.prems(3) nd by simp
  have IH: "indexByte_loop c sz (lens w as) sk (next_n nd) w =
      Some (let i = IndexByte (drop (nat sk) (unreads w as)) c
            in if i < 0 then -1 else sz - lens w as + sk + i)" if "0 \<le> sk" for sk
    using Cons.prems(2) seg that by (intro Cons.IH) auto
  show ?case
  proof (cases "u > 0")
    case False
    then have "node_Len nd = 0" "lens w as = 0" using u nn by auto
    then have "unreads w (a # as) = []"
      using len length_unreads [of as w] Cons.prems(2) nd by auto
    then show ?thesis using False by (subst indexByte_loop.simps) (simp del: seq_simps)
  next
    case True
    let ?l = "node_Len nd"
    show ?thesis
    proof (cases "skip \<ge> ?l")
      case sk: True
      have "indexByte_loop c sz u skip node w = indexByte_loop c sz (lens w as) (skip - ?l) (next_n nd) w"
        using True rd nd sk u nn by (subst indexByte_loop.simps) (simp add: Let_def)
      moreover have "drop (nat skip) (unread w nd @ unreads w as) = drop (nat (skip - ?l)) (unreads w as)"
        using sk len nn by (simp add: nat_diff_distrib) (metis nat_int)
      ultimately show ?thesis using IH [of "skip - ?l"] sk u nd by (simp add: Let_def)
    next
      case sk: False
      let ?q = "\<lparr>s_arr = s_arr (buf nd), s_off = s_off (buf nd) + off nd + skip, s_len = ?l - skip, s_cap = ?l - skip\<rparr>"
      have b: "slice_bytes w ?q = drop (nat skip) (unread w nd)"
        using slice_bytes_unread [OF ok Cons.prems(4), of "?l - skip" w "?l - skip"] sk len
        by (simp add: ac_simps)
      have step: "indexByte_loop c sz u skip node w =
          (let i = IndexByte (drop (nat skip) (unread w nd)) c
           in if i \<ge> 0 then Some ((sz - u) + skip + i)
              else indexByte_loop c sz (lens w as) 0 (next_n nd) w)"
        using True rd nd sk u nn b node_Peek_ok(1) [OF ok nn(1) order_refl] Cons.prems(4)
        by (subst indexByte_loop.simps) (simp add: Let_def reslice_def)
      have "drop (nat skip) (unreads w (a # as)) = drop (nat skip) (unread w nd) @ unreads w as"
        using sk len nd by simp
      then show ?thesis
        using step IH [of 0] IndexByte_append [of "drop (nat skip) (unread w nd)" "unreads w as" c]
          IndexByte_ge [of "drop (nat skip) (unread w nd)" c] IndexByte_ge [of "unreads w as" c]
          len u sk Cons.prems(4)
        by (auto simp: Let_def simp del: seq_simps)
    qed
  qed
qed

lemma lb_indexByte_rep:
  assumes rep: "lb_rep w b hs rs ws ts" and skip: "0 \<le> skip"
  shows "lb_indexByte c skip b w = Some (index_from c (nat skip) (unreads w (rs @ ws @ ts)))"
proof -
  note R = lb_repD [OF rep]
  have ok: "node_ok (nd_at w a)" if "a \<in> set (rs @ ws @ ts)" for a
    by (rule R(6)) (use that in auto)
  have len: "int (length (unreads w (rs @ ws @ ts))) = length_b b"
    using length_unreads [OF ok] R(11) by simp
  show ?thesis
  proof (cases "skip \<ge> length_b b")
    case True
    then have "drop (nat skip) (unreads w (rs @ ws @ ts)) = []"
      using len by (simp del: seq_simps)
    then show ?thesis using True by (simp add: lb_indexByte_def lb_Len_def index_from_def del: seq_simps)
  next
    case False
    then show ?thesis
      using indexByte_loop_ok [OF lb_rep_chain(1) [OF rep] ok R(11) skip, of c "length_b b"] skip
      by (simp add: lb_indexByte_def lb_Len_def index_from_def Let_def del: seq_simps)
  qed
qed

end
