(* ===== verification/LinkBufferPeek.thy ===== *)
theory LinkBufferPeek
  imports LinkBufferReadOps
begin

section \<open>LinkBuffer: Peek\<close>

text \<open>
  \<^verbatim>\<open>Peek\<close> returns bytes without moving the stream. Bytes of several nodes are copied into a cache
  that later calls extend; \<open>peek_ok\<close> says that the cache is a prefix of the unread bytes.
\<close>

subsection \<open>Peek\<close>

declare Peek_loop.simps [simp del]

lemma go_append_fits:
  assumes "0 \<le> s_len s" "s_len s + int (length bs) \<le> s_cap s"
  shows "go_append s bs m = (s\<lparr>s_len := s_len s + int (length bs)\<rparr>,
           store_bytes \<lparr>s_arr = s_arr s, s_off = s_off s + s_len s,
                        s_len = int (length bs), s_cap = s_cap s - s_len s\<rparr> bs m)"
    and "slice_bytes (snd (go_append s bs m)) (fst (go_append s bs m)) = slice_bytes m s @ bs"
proof -
  let ?t = "\<lparr>s_arr = s_arr s, s_off = s_off s + s_len s, s_len = int (length bs), s_cap = s_cap s - s_len s\<rparr>"
  let ?s = "s\<lparr>s_len := s_len s + int (length bs)\<rparr>"
  show eq: "go_append s bs m = (?s, store_bytes ?t bs m)"
    using assms by (simp add: go_append_def Let_def)
  have "take (nat (s_len s)) (slice_bytes m ?s) = slice_bytes m s"
    using slice_bytes_take_drop [of 0 "s_len s" ?s m "s_cap s"] assms by (cases s) simp
  then have "slice_bytes (store_bytes ?t bs m) ?s = slice_bytes m s @ bs"
    using slice_bytes_store_at [of ?t ?s "s_len s" bs m] assms
    by (simp add: nat_add_distrib)
  then show "slice_bytes (snd (go_append s bs m)) (fst (go_append s bs m)) = slice_bytes m s @ bs"
    by (simp add: eq)
qed

lemma unreads_cong:
  "(\<And>a. a \<in> set as \<Longrightarrow> unread w' (nd_at w' a) = unread w (nd_at w a)) \<Longrightarrow> unreads w' as = unreads w as"
  by (induction as) auto

lemma Peek_loop_done:
  assumes "s_len p = n"
  shows "Peek_loop n scanned node p w = Some (p, w)" "p\<lparr>s_len := n\<rparr> = p"
proof -
  show "Peek_loop n scanned node p w = Some (p, w)" using assms by (subst Peek_loop.simps) simp
  show "p\<lparr>s_len := n\<rparr> = p" using assms by (cases p) simp
qed

lemma Peek_loop_ok:
  assumes "lseg (nodes w) node as None"
    "\<And>a. a \<in> set as \<Longrightarrow> node_ok (nd_at w a) \<and> s_arr (buf (nd_at w a)) \<noteq> s_arr p"
    "int (length pre) = scanned" "scanned \<le> s_len p" "s_len p \<le> n" "n \<le> s_cap p"
    "n \<le> int (length (pre @ unreads w as))"
    "slice_bytes w p = take (nat (s_len p)) (pre @ unreads w as)"
  shows "\<exists>w'. Peek_loop n scanned node p w = Some (p\<lparr>s_len := n\<rparr>, w') \<and>
           slice_bytes w' (p\<lparr>s_len := n\<rparr>) = take (nat n) (pre @ unreads w as) \<and>
           nodes w' = nodes w \<and> (\<forall>x. x \<noteq> s_arr p \<longrightarrow> cells w' x = cells w x) \<and> same_rest w w'"
  using assms
proof (induction as arbitrary: node p w pre scanned)
  case Nil
  then have "s_len p = n" by simp
  with Nil(8) show ?case using Peek_loop_done [of p n] by (auto simp: same_rest_def)
next
  case (Cons a as)
  note prems = Cons.prems
  show ?case
  proof (cases "s_len p < n")
    case False
    with prems(5) have "s_len p = n" by simp
    with prems(8) show ?thesis
      using Peek_loop_done [of p n] by (auto simp: same_rest_def simp del: seq_simps)
  next
    case lt: True
    obtain nd where rd: "node = Some a" and nd: "nodes w a = Some nd"
      and seg: "lseg (nodes w) (next_n nd) as None"
      using prems(1) by (auto split: option.splits)
    let ?l = "node_Len nd" and ?u = "unread w nd"
    have ok: "node_ok nd" and arr: "s_arr (buf nd) \<noteq> s_arr p"
      using prems(2) [of a] nd by auto
    have lu: "int (length ?u) = ?l" by (rule length_unread [OF ok])
    have us: "pre @ unreads w (a # as) = (pre @ ?u) @ unreads w as" using nd by simp
    show ?thesis
    proof (cases "scanned + ?l \<le> s_len p")
      case True
      have step: "Peek_loop n scanned node p w = Peek_loop n (scanned + ?l) (next_n nd) p w"
        using lt rd nd True by (subst Peek_loop.simps) (simp add: Let_def)
      show ?thesis unfolding step us
        by (rule Cons.IH) (use prems seg True lu us in auto)
    next
      case f: False
      define start where "start = s_len p - scanned"
      define k where "k = min (n - s_len p) (?l - start)"
      define ch where "ch = take (nat k) (drop (nat start) ?u)"
      have b: "0 \<le> start" "0 < k" "start + k \<le> ?l" "s_len p + k \<le> n"
        using f lt prems(4) by (auto simp: start_def k_def)
      have lch: "int (length ch) = k" using b lu by (simp add: ch_def)
      let ?s = "\<lparr>s_arr = s_arr (buf nd), s_off = s_off (buf nd) + off nd + start, s_len = k, s_cap = ?l - start\<rparr>"
      have sb: "slice_bytes w ?s = ch"
        using slice_bytes_unread [OF ok b(1) less_imp_le [OF b(2)] b(3), of w "?l - start"]
        by (simp add: ch_def ac_simps)
      let ?p = "fst (go_append p ch w)" and ?w = "snd (go_append p ch w)"
      have p0: "0 \<le> s_len p" using prems(3,4) by linarith
      have fit: "s_len p + int (length ch) \<le> s_cap p" using lch b(4) prems(6) by linarith
      note ga = go_append_fits [OF p0 fit, of w]
      have pe: "?p = p\<lparr>s_len := s_len p + k\<rparr>" using ga(1) lch by simp
      have we: "nodes ?w = nodes w" "\<And>x. x \<noteq> s_arr p \<Longrightarrow> cells ?w x = cells w x" "same_rest w ?w"
        using ga(1) by (simp_all add: same_rest_def store_bytes_def)
      have step: "Peek_loop n scanned node p w = Peek_loop n (scanned + ?l) (next_n nd) ?p ?w"
      proof -
        have kd: "(if n - s_len p > ?l - (s_len p - scanned) then ?l - (s_len p - scanned) else n - s_len p) = k"
          by (simp add: k_def start_def)
        have pk: "node_Peek ?l nd = Some \<lparr>s_arr = s_arr (buf nd), s_off = s_off (buf nd) + off nd, s_len = ?l, s_cap = ?l\<rparr>"
          by (rule node_Peek_ok(1) [OF ok node_Len_nonneg [OF ok] order_refl])
        have rs: "reslice \<lparr>s_arr = s_arr (buf nd), s_off = s_off (buf nd) + off nd, s_len = ?l, s_cap = ?l\<rparr>
            (s_len p - scanned) (s_len p - scanned + k) = Some ?s"
          using b by (simp add: reslice_def flip: start_def)
        show ?thesis
          using lt rd nd f by (subst Peek_loop.simps) (simp only: Let_def kd deref_simps bind.simps
              option.case pk rs sb split_beta if_True if_False simp_thms bind_simps cong: if_cong)
      qed
      have at: "nd_at ?w c = nd_at w c" for c by (simp add: nd_at_def we(1))
      have un: "unreads ?w as = unreads w as"
        using prems(2) by (intro unreads_cong) (simp add: at unread_def slice_bytes_def we(2))
      have pb: "slice_bytes ?w ?p = take (nat (s_len ?p)) ((pre @ ?u) @ unreads w as)"
      proof -
        have "nat (s_len p) = length pre + nat start" using prems(3,4) by (simp add: start_def nat_diff_distrib)
        then have "drop (nat (s_len p)) ((pre @ ?u) @ unreads w as) = drop (nat start) ?u @ unreads w as"
          using b lu by simp
        moreover have "nat (s_len ?p) = nat (s_len p) + nat k" using pe p0 b(2) by (simp add: nat_add_distrib)
        moreover have "take (nat k) (drop (nat start) ?u @ unreads w as) = ch"
          using b lu by (simp add: ch_def)
        ultimately show ?thesis using ga(2) prems(8) unfolding us by (simp only: take_add)
      qed
      show ?thesis
      proof (cases "s_len ?p < n")
        case False
        then have e: "s_len p + k = n" using pe b(4) by simp
        have "Peek_loop n scanned node p w = Some (?p, ?w)"
          unfolding step using False by (subst Peek_loop.simps) simp
        then show ?thesis using pb we pe e unfolding us by (auto intro!: exI [of _ ?w])
      next
        case True
        then have e: "s_len ?p = scanned + ?l" using pe by (simp add: start_def k_def)
        have "\<exists>w'. Peek_loop n (scanned + ?l) (next_n nd) ?p ?w = Some (?p\<lparr>s_len := n\<rparr>, w') \<and>
           slice_bytes w' (?p\<lparr>s_len := n\<rparr>) = take (nat n) ((pre @ ?u) @ unreads ?w as) \<and>
           nodes w' = nodes ?w \<and> (\<forall>x. x \<noteq> s_arr ?p \<longrightarrow> cells w' x = cells ?w x) \<and> same_rest ?w w'"
        proof (rule Cons.IH)
          show "node_ok (nd_at ?w c) \<and> s_arr (buf (nd_at ?w c)) \<noteq> s_arr ?p" if "c \<in> set as" for c
            unfolding at pe using prems(2) [of c] that by simp
          show "n \<le> int (length ((pre @ ?u) @ unreads ?w as))" using prems(7) unfolding us un .
          show "slice_bytes ?w ?p = take (nat (s_len ?p)) ((pre @ ?u) @ unreads ?w as)"
            unfolding un by (rule pb)
          show "lseg (nodes ?w) (next_n nd) as None" unfolding we(1) by (rule seg)
          show "n \<le> s_cap ?p" using prems(6) pe by simp
        qed (use prems(3) lu e True in simp_all)
        then show ?thesis unfolding step us un pe using we by (auto simp: same_rest_def)
      qed
    qed
  qed
qed

text \<open>The read cursor over empty nodes and the peek cache are the only things that change.\<close>

lemma lb_rep_cursor:
  assumes rep: "lb_rep w b hs rs ws ts" and ys: "rs = xs @ ys" "ys @ ws @ ts = r # zs"
    and zero: "\<forall>a\<in>set xs. node_Len (nd_at w a) = 0"
    and w': "nodes w' = nodes w" "next_arr w \<le> next_arr w'"
      "\<And>a. a \<in> set (rs @ ws @ ts) \<Longrightarrow> cells w' (s_arr (buf (nd_at w a))) = cells w (s_arr (buf (nd_at w a)))"
    and b': "head b' = head b" "read b' = Some r" "flush b' = flush b" "write_n b' = write_n b"
      "length_b b' = length_b b" "mallocSize b' = mallocSize b"
    and pk: "peek_ok w' (ys @ ws @ ts) (unreads w (rs @ take 1 (ws @ ts))) (cachePeek b')"
  shows "lb_rep w' b' (hs @ xs) ys ws ts"
    and "unreads w' (ys @ ws @ ts) = unreads w (rs @ ws @ ts)"
    and "pendings w' (ws @ ts) = pendings w (ws @ ts)"
proof -
  note R = lb_repD [OF rep]
  have at: "nd_at w' a = nd_at w a" for a by (simp add: nd_at_def w'(1))
  have sp: "rs @ ws @ ts = xs @ r # zs" using ys by simp
  note Z = zero_prefix [OF rep sp zero]
  have un: "unread w' (nd_at w a) = unread w (nd_at w a)" if "a \<in> set (rs @ ws @ ts)" for a
    using w'(3) [OF that] by (simp add: unread_def slice_bytes_def)
  have U: "unreads w' as = unreads w as" if "set as \<subseteq> set (rs @ ws @ ts)" for as
    using that un by (intro unreads_cong) (auto simp: at)
  have uy: "unreads w' (ys @ ws @ ts) = unreads w (ys @ ws @ ts)" by (rule U) (use ys(1) in auto)
  then show "unreads w' (ys @ ws @ ts) = unreads w (rs @ ws @ ts)" using Z(1) ys(1) by simp
  show "pendings w' (ws @ ts) = pendings w (ws @ ts)"
  proof -
    have "slice_bytes w' (pend_win (nd_at w a)) = slice_bytes w (pend_win (nd_at w a))"
      if "a \<in> set (rs @ ws @ ts)" for a
      using w'(3) [OF that] by (simp add: slice_bytes_def pend_win_def)
    then show ?thesis
      unfolding pendings_def at by (intro arg_cong [of _ _ concat] map_cong refl) auto
  qed
  have segs: "lseg (nodes w) (head b) (hs @ xs) (Some r)" "lseg (nodes w) (Some r) ys (flush b)"
  proof -
    obtain m where m: "lseg (nodes w) (read b) xs m" "lseg (nodes w) m ys (flush b)"
      using R(2) unfolding ys(1) lseg_append by blast
    have "lseg (nodes w) m (ys @ ws @ ts) None"
      unfolding lseg_append using m(2) R(3,4) by blast
    then have "m = Some r" unfolding ys(2) by simp
    with m R(1) show "lseg (nodes w) (head b) (hs @ xs) (Some r)" "lseg (nodes w) (Some r) ys (flush b)"
      unfolding lseg_append by blast+
  qed
  have "lens w (ys @ ws @ ts) = lens w (rs @ ws @ ts)" using Z(2) ys(1) by simp
  then have len: "length_b b' = lens w' (ys @ ws @ ts)" "mallocSize b' = pends w' (ws @ ts)"
    using R(11,12) b' unfolding lens_def pends_def at by simp_all
  have "unreads w' (ys @ take 1 (ws @ ts)) = unreads w (ys @ take 1 (ws @ ts))"
    by (rule U) (use ys(1) set_take_subset [of 1 "ws @ ts"] in auto)
  then have pk': "peek_ok w' (ys @ ws @ ts) (unreads w' (ys @ take 1 (ws @ ts))) (cachePeek b')"
    using pk Z(1) ys(1) by simp
  have N: "\<forall>a\<in>set ((hs @ xs) @ ys @ ws @ ts). node_ok (nd_at w a) \<and> s_arr (buf (nd_at w a)) < next_arr w'"
  proof
    fix a assume "a \<in> set ((hs @ xs) @ ys @ ws @ ts)"
    then have a: "a \<in> set (hs @ rs @ ws @ ts)" unfolding ys(1) by simp
    show "node_ok (nd_at w a) \<and> s_arr (buf (nd_at w a)) < next_arr w'"
      using R(6) [OF a] R(7) [OF a] w'(2) by simp
  qed
  have P: "\<forall>a\<in>set ys. pend_len (nd_at w a) = 0" using R(8) ys(1) by simp
  have A: "\<forall>a\<in>set (ys @ ws @ ts). \<forall>c\<in>set (ys @ ws @ ts). a \<noteq> c \<longrightarrow> apart (nd_at w a) (nd_at w c)"
    using R(10) unfolding ys(1) by simp
  have D: "distinct ((hs @ xs) @ ys @ ws @ ts)" using R(5) ys(1) by simp
  show "lb_rep w' b' (hs @ xs) ys ws ts"
    unfolding lb_rep_def at w'(1) b' using segs R(3,4,9) len pk' N P A D
    unfolding at w'(1) b' by blast
qed

text \<open>The cache \<^verbatim>\<open>Peek\<close> works on: the one the buffer has when it is large enough, else a new one.\<close>

lemma peek_cache_ok:
  assumes g: "mcache_ok g" and n: "0 < n" and pk: "peek_ok w as bs (cachePeek b)"
    and arr: "\<And>a. a \<in> set as \<Longrightarrow> s_arr (buf (nd_at w a)) < next_arr w" and as: "as \<noteq> []"
  obtains c w1 where "peek_cache g n b w = (c, b\<lparr>cachePeek := Some c\<rparr>, w1)"
    "peek_ok w1 as bs (Some c)" "n \<le> s_cap c" "nodes w1 = nodes w" "cells w1 = cells w"
    "next_addr w1 = next_addr w" "pool w1 = pool w" "next_arr w \<le> next_arr w1"
proof -
  note fin = that
  have fresh: thesis if w0: "nodes w0 = nodes w" "cells w0 = cells w" "next_addr w0 = next_addr w"
      "pool w0 = pool w" "next_arr w0 = next_arr w"
      and eq: "peek_cache g n b w = (let (c, w) = malloc g 0 n w0 in (c, b\<lparr>cachePeek := Some c\<rparr>, w))" for w0
  proof -
    obtain c w1 where m: "malloc g 0 n w0 = (c, w1)" by fastforce
    note f = malloc_fresh [OF g m]
    have "s_arr (buf (nd_at w1 a)) \<noteq> s_arr c" if "a \<in> set as" for a
      using arr [OF that] f w0 by (simp add: nd_at_def)
    moreover have "0 < next_arr w" using arr [of "hd as"] as by simp
    ultimately have "peek_ok w1 as bs (Some c)"
      using f n w0 by (auto simp: peek_ok_def slice_bytes_def)
    then show thesis using f w0 eq m by (intro fin [of c w1]) simp_all
  qed
  show thesis
  proof (cases "cachePeek b")
    case None
    then show thesis by (intro fresh [of w]) (simp_all add: peek_cache_def)
  next
    case (Some c)
    show thesis
    proof (cases "s_cap c < n")
      case True
      with Some show thesis by (intro fresh [of "free c w"]) (simp_all add: peek_cache_def free_def)
    next
      case False
      with Some pk show thesis by (intro fin [of c w]) (simp_all add: peek_cache_def)
    qed
  qed
qed

lemma peek_ok_subset: "peek_ok w as bs co \<Longrightarrow> set as' \<subseteq> set as \<Longrightarrow> peek_ok w as' bs co"
  by (auto simp: peek_ok_def split: option.splits)

lemma unreads_take1:
  assumes "lb_rep w b hs rs ws ts" "\<And>a. a \<in> set (tl (ws @ ts)) \<Longrightarrow> node_Len (nd_at w a) = 0"
  shows "unreads w (rs @ take 1 (ws @ ts)) = unreads w (rs @ ws @ ts)"
proof -
  have "unread w (nd_at w a) = []" if "a \<in> set (tl (ws @ ts))" for a
  proof -
    have "node_ok (nd_at w a)" by (rule lb_repD(6) [OF assms(1)]) (use in_set_tlD [OF that] in auto)
    then show ?thesis using assms(2) [OF that] by (simp add: unread_Nil_iff)
  qed
  then show ?thesis by (cases "ws @ ts") (auto simp: unreads_empty)
qed

lemma lb_Peek_rep:
  assumes rep: "lb_rep w b hs rs ws ts"
    and sub: "\<And>a. a \<in> set (tl (ws @ ts)) \<Longrightarrow> node_Len (nd_at w a) = 0"
    and g: "mcache_ok g" and n: "0 < n" "n \<le> length_b b"
  shows "\<exists>p b' w' xs ys. lb_Peek g n b w = Some (Inr p, b', w') \<and> s_len p = n \<and>
           slice_bytes w' p = take (nat n) (unreads w (rs @ ws @ ts)) \<and>
           rs = xs @ ys \<and> lb_rep w' b' (hs @ xs) ys ws ts \<and>
           unreads w' (ys @ ws @ ts) = unreads w (rs @ ws @ ts) \<and>
           pendings w' (ws @ ts) = pendings w (ws @ ts) \<and> nodes w' = nodes w \<and>
           next_addr w' = next_addr w \<and> pool w' = pool w \<and> next_arr w \<le> next_arr w'"
proof -
  note R = lb_repD [OF rep]
  let ?bs = "unreads w (rs @ ws @ ts)"
  have tk1: "unreads w (rs @ take 1 (ws @ ts)) = ?bs" by (rule unreads_take1 [OF rep sub])
  obtain xs r zs where x: "rs @ ws @ ts = xs @ r # zs" "\<forall>a\<in>set xs. node_Len (nd_at w a) = 0"
    "0 < node_Len (nd_at w r)"
    "isSingleNode n b w = Some (n \<le> node_Len (nd_at w r), b\<lparr>read := Some r\<rparr>)"
    "nodes w r = Some (nd_at w r)" "node_ok (nd_at w r)"
    by (rule isSingleNode_ok [OF rep sub n refl refl])
  obtain ys where ys: "rs = xs @ ys" "ys @ ws @ ts = r # zs"
    using prefix_before_tail [OF x(1,3) sub] by blast
  note Z = zero_prefix [OF rep x(1,2)] 
    and cur = lb_rep_cursor [OF rep ys x(2)]
  have fin: "lb_rep w' (b\<lparr>read := Some r, cachePeek := cp\<rparr>) (hs @ xs) ys ws ts \<and>
      unreads w' (ys @ ws @ ts) = ?bs \<and> pendings w' (ws @ ts) = pendings w (ws @ ts)"
    if "nodes w' = nodes w" "next_arr w \<le> next_arr w'"
      "\<And>a. a \<in> set (rs @ ws @ ts) \<Longrightarrow> cells w' (s_arr (buf (nd_at w a))) = cells w (s_arr (buf (nd_at w a)))"
      "peek_ok w' (ys @ ws @ ts) ?bs cp" for w' cp
  proof -
    have "peek_ok w' (ys @ ws @ ts) (unreads w (rs @ take 1 (ws @ ts)))
        (cachePeek (b\<lparr>read := Some r, cachePeek := cp\<rparr>))"
      unfolding tk1 using that(4) by (simp del: seq_simps)
    note C = cur [OF that(1-3) _ _ _ _ _ _ this]
    show ?thesis by (intro conjI; rule C; simp)
  qed
  have pk: "peek_ok w (rs @ ws @ ts) ?bs (cachePeek b)" using R(13) unfolding tk1 .
  have ysub: "set (ys @ ws @ ts) \<subseteq> set (rs @ ws @ ts)" using ys(1) by auto
  obtain nd where nd: "nodes w r = Some nd" using x(5) by blast
  show ?thesis
  proof (cases "n \<le> node_Len (nd_at w r)")
    case True
    note P = node_Peek_ok [OF x(6) less_imp_le [OF n(1)] True]
    have "lb_Peek g n b w = Some (Inr \<lparr>s_arr = s_arr (buf (nd_at w r)),
        s_off = s_off (buf (nd_at w r)) + off (nd_at w r), s_len = n, s_cap = n\<rparr>, b\<lparr>read := Some r\<rparr>, w)"
      using n x(4) True P(1) nd by (simp add: lb_Peek_def lb_Len_def)
    moreover have "lb_rep w (b\<lparr>read := Some r, cachePeek := cachePeek b\<rparr>) (hs @ xs) ys ws ts \<and>
      unreads w (ys @ ws @ ts) = ?bs \<and> pendings w (ws @ ts) = pendings w (ws @ ts)"
      by (rule fin) (use peek_ok_subset [OF pk ysub] in auto)
    moreover have "b\<lparr>read := Some r, cachePeek := cachePeek b\<rparr> = b\<lparr>read := Some r\<rparr>" by simp
    ultimately show ?thesis
      using ys(1) P(2) [of w] single_take [OF rep x(1,2) True] by (auto simp del: seq_simps)
  next
    case False
    have arr: "s_arr (buf (nd_at w a)) < next_arr w" if "a \<in> set (rs @ ws @ ts)" for a
      by (rule R(7)) (use that in auto)
    have ne: "rs @ ws @ ts \<noteq> []" unfolding x(1) by simp
    have pk1: "peek_ok w (rs @ ws @ ts) ?bs (cachePeek (b\<lparr>read := Some r\<rparr>))"
      using pk by (simp del: seq_simps)
    obtain c w1 where c: "peek_cache g n (b\<lparr>read := Some r\<rparr>) w =
        (c, b\<lparr>read := Some r, cachePeek := Some c\<rparr>, w1)"
      "peek_ok w1 (rs @ ws @ ts) ?bs (Some c)" "n \<le> s_cap c" "nodes w1 = nodes w" "cells w1 = cells w"
      "next_addr w1 = next_addr w" "pool w1 = pool w" "next_arr w \<le> next_arr w1"
      by (rule peek_cache_ok [OF g n(1) pk1 arr ne])
    have run: "lb_Peek g n b w =
        (if s_len c \<ge> n then
           do { q \<leftarrow> reslice c 0 n; Some (Inr q, b\<lparr>read := Some r, cachePeek := Some c\<rparr>, w1) }
         else
           do { (p, w) \<leftarrow> Peek_loop n 0 (Some r) c w1;
                q \<leftarrow> reslice p 0 n;
                Some (Inr q, b\<lparr>read := Some r, cachePeek := Some p\<rparr>, w) })"
      using n x(4) False c(1) by (simp add: lb_Peek_def lb_Len_def)
    have C: "0 \<le> s_len c" "s_len c \<le> s_cap c" "s_arr c < next_arr w1"
      "slice_bytes w1 c = take (nat (s_len c)) ?bs"
      "\<And>a. a \<in> set (rs @ ws @ ts) \<Longrightarrow> s_arr (buf (nd_at w a)) \<noteq> s_arr c" "0 < s_arr c"
      using c(2,4) unfolding peek_ok_def nd_at_def by auto
    show ?thesis
    proof (cases "s_len c \<ge> n")
      case True
      let ?q = "\<lparr>s_arr = s_arr c, s_off = s_off c, s_len = n, s_cap = s_cap c\<rparr>"
      have "reslice c 0 n = Some ?q" using n C True by (simp add: reslice_def)
      then have "lb_Peek g n b w = Some (Inr ?q, b\<lparr>read := Some r, cachePeek := Some c\<rparr>, w1)"
        using run True by simp
      moreover have "slice_bytes w1 ?q = take (nat n) ?bs"
        using slice_bytes_take_drop [of 0 n c w1 "s_cap c"] n True C(4) by (simp del: seq_simps)
      moreover have "lb_rep w1 (b\<lparr>read := Some r, cachePeek := Some c\<rparr>) (hs @ xs) ys ws ts \<and>
          unreads w1 (ys @ ws @ ts) = ?bs \<and> pendings w1 (ws @ ts) = pendings w (ws @ ts)"
        by (rule fin) (use c peek_ok_subset [OF c(2) ysub] in auto)
      ultimately show ?thesis using c(4,6-8) ys(1) by (auto simp del: seq_simps)
    next
      case lt: False
      have at: "nd_at w1 a = nd_at w a" for a by (simp add: nd_at_def c(4))
      have u1: "unreads w1 (r # zs) = ?bs"
      proof -
        have "unreads w1 (r # zs) = unreads w (r # zs)"
          by (rule unreads_cong) (simp add: at unread_def slice_bytes_def c(5))
        then show ?thesis unfolding x(1) using Z(1) by simp
      qed
      have "\<exists>w2. Peek_loop n 0 (Some r) c w1 = Some (c\<lparr>s_len := n\<rparr>, w2) \<and>
           slice_bytes w2 (c\<lparr>s_len := n\<rparr>) = take (nat n) ([] @ unreads w1 (r # zs)) \<and>
           nodes w2 = nodes w1 \<and> (\<forall>x. x \<noteq> s_arr c \<longrightarrow> cells w2 x = cells w1 x) \<and> same_rest w1 w2"
      proof (rule Peek_loop_ok)
        show "lseg (nodes w1) (Some r) (r # zs) None"
          using lb_rep_chain(1) [OF rep] unfolding x(1) lseg_append c(4) by auto
        show "node_ok (nd_at w1 a) \<and> s_arr (buf (nd_at w1 a)) \<noteq> s_arr c" if "a \<in> set (r # zs)" for a
        proof -
          have a: "a \<in> set (rs @ ws @ ts)" using that ysub unfolding ys(2) by blast
          then show ?thesis using C(5) [OF a] R(6) [of a] unfolding at by simp
        qed
        show "n \<le> int (length ([] @ unreads w1 (r # zs)))"
        proof -
          have "node_ok (nd_at w a)" if "a \<in> set (rs @ ws @ ts)" for a by (rule R(6)) (use that in auto)
          then show ?thesis using length_unreads [of "rs @ ws @ ts" w] R(11) n(2) u1 by simp
        qed
        show "slice_bytes w1 c = take (nat (s_len c)) ([] @ unreads w1 (r # zs))"
          using C(4) u1 by simp
      qed (use c(3) C lt in simp_all)
      then obtain w2 where w2: "Peek_loop n 0 (Some r) c w1 = Some (c\<lparr>s_len := n\<rparr>, w2)"
        "slice_bytes w2 (c\<lparr>s_len := n\<rparr>) = take (nat n) ?bs" "nodes w2 = nodes w1"
        "\<And>x. x \<noteq> s_arr c \<Longrightarrow> cells w2 x = cells w1 x" "same_rest w1 w2"
        unfolding u1 by auto
      let ?p = "c\<lparr>s_len := n\<rparr>"
      have "reslice ?p 0 n = Some ?p" using n c(3) by (cases c) (simp add: reslice_def)
      then have "lb_Peek g n b w = Some (Inr ?p, b\<lparr>read := Some r, cachePeek := Some ?p\<rparr>, w2)"
        using run lt w2(1) by simp
      moreover have "lb_rep w2 (b\<lparr>read := Some r, cachePeek := Some ?p\<rparr>) (hs @ xs) ys ws ts \<and>
          unreads w2 (ys @ ws @ ts) = ?bs \<and> pendings w2 (ws @ ts) = pendings w (ws @ ts)"
      proof (rule fin)
        show "cells w2 (s_arr (buf (nd_at w a))) = cells w (s_arr (buf (nd_at w a)))"
          if "a \<in> set (rs @ ws @ ts)" for a
          using w2(4) [of "s_arr (buf (nd_at w a))"] C(5) [OF that] c(5) by simp
        show "peek_ok w2 (ys @ ws @ ts) ?bs (Some ?p)"
        proof -
          have "nd_at w2 a = nd_at w a" for a by (simp add: nd_at_def w2(3) c(4))
          then show ?thesis
            using C(1,3,6) C(5) [OF subsetD [OF ysub]] n c(3) w2(2,5) unfolding peek_ok_def
            by (simp add: same_rest_def del: seq_simps)
        qed
      qed (use c w2 in \<open>simp_all add: same_rest_def\<close>)
      ultimately show ?thesis using c(4,6-8) ys(1) w2 by (auto simp: same_rest_def simp del: seq_simps)
    qed
  qed
qed

end
