(* ===== verification/LinkBufferReader.thy ===== *)
theory LinkBufferReader
  imports LinkBufferPeek
begin

section \<open>LinkBuffer: the reader\<close>

text \<open>
  The reading operations on the invariant \<open>lb_inv\<close>: what they return in terms of the stream of
  the buffer, what is left of it, and what they leave alone.
\<close>

lemma world_ok_like:
  assumes ok: "world_ok w own" and eq: "next_addr w' = next_addr w" "pool w' = pool w" "next_arr w \<le> next_arr w'"
    and nd: "\<And>a. nodes w' a = nodes w a \<or>
               nodes w a \<noteq> None \<and> alike w w' a \<and> refer (nd_at w' a) = refer (nd_at w a)"
  shows "world_ok w' own"
proof -
  have dom: "nodes w' a \<noteq> None \<longleftrightarrow> nodes w a \<noteq> None" for a
    using nd [of a] unfolding alike_def by metis
  have like: "buf (nd_at w' a) = buf (nd_at w a)" "origin (nd_at w' a) = origin (nd_at w a)"
    "next_n (nd_at w' a) = next_n (nd_at w a)" "refer (nd_at w' a) = refer (nd_at w a)" for a
    using nd [of a] by (auto simp: alike_def node_like_def nd_at_def)
  have refs: "refs w' own a = refs w own a" for a by (simp add: refs_def like)
  have pool: "\<exists>nd. nodes w' a = Some nd \<and> buf nd = nil_slice \<and> origin nd = None \<and> next_n nd = None"
    if "a \<in> set (pool w)" for a
  proof -
    from ok that have "nodes w a \<noteq> None" "buf (nd_at w a) = nil_slice" "origin (nd_at w a) = None"
      "next_n (nd_at w a) = None" by (auto simp: world_ok_def nd_at_def)
    with like [of a] dom [of a] show ?thesis by (auto simp: nd_at_def)
  qed
  have "0 < next_arr w'" using ok eq(3) by (simp add: world_ok_def)
  moreover have "\<forall>a\<in>set (pool w). \<exists>nd. nodes w' a = Some nd \<and> buf nd = nil_slice \<and>
      origin nd = None \<and> next_n nd = None"
    using pool by blast
  ultimately show ?thesis
    using ok unfolding world_ok_def refs like dom eq(1,2) by (elim conjE, intro conjI)
qed

text \<open>
  \<open>consumed\<close>: \<open>n\<close> bytes have been taken from the front, the rest of the stream, what is being
  written, and every other node of the heap are as before.
\<close>

definition consumed :: "world \<Rightarrow> addr set \<Rightarrow> LinkBuffer \<Rightarrow> int \<Rightarrow> world \<Rightarrow> LinkBuffer \<Rightarrow> bool" where
  "consumed w own b n w' b' \<longleftrightarrow>
     lb_inv w' own b' \<and> submitted w' b' \<and> stream w' b' = drop (nat n) (stream w b) \<and>
     lb_Len b' = lb_Len b - n \<and> mallocSize b' = mallocSize b \<and> same_mem w w' \<and> freed w' = freed w \<and>
     write_n b' = write_n b \<and> (\<forall>a\<in>own. alike w w' a) \<and>
     (\<forall>a. a \<notin> set (chain (next_addr w) (nodes w) (read b)) \<longrightarrow> nodes w' a = nodes w a)"

definition ready ::
    "world \<Rightarrow> addr set \<Rightarrow> LinkBuffer \<Rightarrow> addr list \<Rightarrow> addr list \<Rightarrow> addr list \<Rightarrow> addr list \<Rightarrow> bool" where
  "ready w own b hs rs ws ts \<longleftrightarrow>
     world_ok w own \<and> lb_rep w b hs rs ws ts \<and> set (hs @ rs @ ws @ ts) \<subseteq> own \<and>
     (\<forall>a\<in>set (hs @ rs @ ws @ ts). \<forall>r. origin (nd_at w a) = Some r \<longrightarrow> r \<notin> set (hs @ rs @ ws @ ts)) \<and>
     (\<forall>a\<in>set (tl (ws @ ts)). node_Len (nd_at w a) = 0)"

lemma ready_iff:
  "lb_inv w own b \<and> submitted w b \<longleftrightarrow> (\<exists>hs rs ws ts. ready w own b hs rs ws ts)"
proof (cases "world_ok w own")
  case True
  note bd = world_ok_bounded [OF True]
  show ?thesis
  proof
    assume "lb_inv w own b \<and> submitted w b"
    then obtain hs rs ws ts where r: "lb_rep w b hs rs ws ts" "set (hs @ rs @ ws @ ts) \<subseteq> own"
      "\<forall>a\<in>set (hs @ rs @ ws @ ts). \<forall>r. origin (nd_at w a) = Some r \<longrightarrow> r \<notin> set (hs @ rs @ ws @ ts)"
      and s: "submitted w b"
      unfolding lb_inv_def by blast
    then have "ready w own b hs rs ws ts"
      using True unfolding ready_def submitted_rep [OF bd r(1)] by blast
    then show "\<exists>hs rs ws ts. ready w own b hs rs ws ts" by blast
  next
    assume "\<exists>hs rs ws ts. ready w own b hs rs ws ts"
    then obtain hs rs ws ts where r: "ready w own b hs rs ws ts" by blast
    then have rep: "lb_rep w b hs rs ws ts" by (simp add: ready_def)
    show "lb_inv w own b \<and> submitted w b"
      using r unfolding lb_inv_def ready_def submitted_rep [OF bd rep] by blast
  qed
next
  case False
  then show ?thesis unfolding lb_inv_def ready_def by iprover
qed

lemma readyE:
  assumes "lb_inv w own b" "submitted w b"
  obtains hs rs ws ts where "ready w own b hs rs ws ts"
proof -
  have "\<exists>hs rs ws ts. ready w own b hs rs ws ts" using assms ready_iff [of w own b] by simp
  then show thesis using that by blast
qed

lemma readyD:
  assumes "ready w own b hs rs ws ts"
  shows "lb_rep w b hs rs ws ts" "\<And>a. a \<in> set (tl (ws @ ts)) \<Longrightarrow> node_Len (nd_at w a) = 0"
    "world_ok w own" "bounded w" "set (hs @ rs @ ws @ ts) \<subseteq> own"
    "\<forall>a\<in>set (hs @ rs @ ws @ ts). \<forall>r. origin (nd_at w a) = Some r \<longrightarrow> r \<notin> set (hs @ rs @ ws @ ts)"
    "stream w b = unreads w (rs @ ws @ ts) @ pendings w (ws @ ts)"
    "int (length (unreads w (rs @ ws @ ts))) = lb_Len b"
proof -
  show r: "lb_rep w b hs rs ws ts" "\<And>a. a \<in> set (tl (ws @ ts)) \<Longrightarrow> node_Len (nd_at w a) = 0"
    and ok: "world_ok w own" and "set (hs @ rs @ ws @ ts) \<subseteq> own"
    "\<forall>a\<in>set (hs @ rs @ ws @ ts). \<forall>r. origin (nd_at w a) = Some r \<longrightarrow> r \<notin> set (hs @ rs @ ws @ ts)"
    using assms unfolding ready_def by blast+
  show bd: "bounded w" by (rule world_ok_bounded [OF ok])
  have "submitted w b" using assms ready_iff [of w own b] by blast
  then show "stream w b = unreads w (rs @ ws @ ts) @ pendings w (ws @ ts)"
    by (rule stream_submitted(1) [OF bd r(1)])
  have ok: "node_ok (nd_at w a)" if "a \<in> set (rs @ ws @ ts)" for a
    by (rule lb_repD(6) [OF r(1)]) (use that in auto)
  show "int (length (unreads w (rs @ ws @ ts))) = lb_Len b"
    unfolding lb_Len_def lb_repD(11) [OF r(1)] by (rule length_unreads [OF ok])
qed

lemma adv_consumed:
  assumes rd: "ready w own b hs rs ws ts" and adv: "adv w b hs rs ws ts n w' b'" and n: "n \<le> lb_Len b"
  shows "consumed w own b n w' b'"
proof -
  note inv = readyD(1,5,6,3,4,7,8) [OF rd]
  from adv obtain xs ys where a: "rs = xs @ ys" "lb_rep w' b' (hs @ xs) ys ws ts"
    "unreads w' (ys @ ws @ ts) = drop (nat n) (unreads w (rs @ ws @ ts))"
    "pendings w' (ws @ ts) = pendings w (ws @ ts)"
    and A: "length_b b' = length_b b - n" "mallocSize b' = mallocSize b"
    "same_mem w w'" "next_addr w' = next_addr w" "pool w' = pool w" "freed w' = freed w"
    "\<And>a. a \<notin> set (rs @ ws @ ts) \<Longrightarrow> nodes w' a = nodes w a"
    "\<And>a. a \<in> set (rs @ ws @ ts) \<Longrightarrow> alike w w' a \<and> refer (nd_at w' a) = refer (nd_at w a)"
    "\<forall>a\<in>set (tl (ws @ ts)). node_Len (nd_at w' a) = 0"
    unfolding adv_def by blast
  have nd: "nodes w' c = nodes w c \<or>
      nodes w c \<noteq> None \<and> alike w w' c \<and> refer (nd_at w' c) = refer (nd_at w c)" for c
  proof (cases "c \<in> set (rs @ ws @ ts)")
    case True
    then have "c \<in> set (hs @ rs @ ws @ ts)" by simp
    then have "nodes w c \<noteq> None" using lseg_dom [OF lb_rep_chain(3) [OF inv(1)]] by blast
    with A(8) [OF True] show ?thesis by blast
  qed (use A(7) in blast)
  have wok: "world_ok w' own"
    by (rule world_ok_like [OF inv(4) A(4,5) _ nd]) (use A(3) in \<open>simp add: same_mem_def\<close>)
  note bd = world_ok_bounded [OF wok]
  have "origin (nd_at w' c) = origin (nd_at w c)" for c
    using nd [of c] by (auto simp: alike_def node_like_def nd_at_def)
  note oeq = this
  have org: "\<forall>a\<in>set (hs @ rs @ ws @ ts). \<forall>r. origin (nd_at w' a) = Some r \<longrightarrow> r \<notin> set (hs @ rs @ ws @ ts)"
    unfolding oeq using inv(3) by blast
  have "ready w' own b' (hs @ xs) ys ws ts"
    unfolding ready_def using wok a(2) org inv(2) A(9) unfolding a(1) append_assoc by blast
  then have "lb_inv w' own b'" and sub: "submitted w' b'" using ready_iff [of w' own b'] by blast+
  moreover have "stream w' b' = drop (nat n) (stream w b)"
    using stream_submitted(1) [OF bd a(2) sub] a(3,4) inv(6,7) n by (simp del: seq_simps)
  moreover have "chain (next_addr w) (nodes w) (read b) = rs @ ws @ ts"
    using chain_rep [OF inv(5) lb_rep_chain(1) [OF inv(1)]] lb_repD(5) [OF inv(1)] by simp
  moreover have "write_n b' = write_n b"
    using lb_repD(4) [OF inv(1)] lb_repD(4) [OF a(2)] by (cases ts) auto
  moreover have "alike w w' c" if "c \<in> own" for c
  proof -
    have "nodes w c \<noteq> None" using inv(4) that by (simp add: world_ok_def)
    then show ?thesis using nd [of c] still_alike [OF still_eq] by blast
  qed
  ultimately show ?thesis
    unfolding consumed_def using A by (simp add: lb_Len_def)
qed

lemma take_stream:
  assumes "stream w b = us @ ps" "int (length us) = lb_Len b" "n \<le> lb_Len b"
  shows "take (nat n) us = take (nat n) (stream w b)"
  using assms by simp

lemma lb_Next_reads:
  assumes "lb_inv w own b" "submitted w b" "mcache_ok g" "0 < n" "n \<le> lb_Len b"
  shows "\<exists>p b' w'. lb_Next g n b w = Some (Inr p, b', w') \<and>
           slice_bytes w' p = take (nat n) (stream w b) \<and> consumed w own b n w' b'"
proof -
  obtain hs rs ws ts where rd: "ready w own b hs rs ws ts" by (rule readyE [OF assms(1,2)])
  note i = readyD [OF rd]
  have "n \<le> length_b b" using assms(5) by (simp add: lb_Len_def)
  from lb_Next_rep [OF i(1,2) assms(3,4) this] obtain p b' w' where
    q: "lb_Next g n b w = Some (Inr p, b', w')" "slice_bytes w' p = take (nat n) (unreads w (rs @ ws @ ts))"
      "adv w b hs rs ws ts n w' b'" by blast
  then show ?thesis
    using adv_consumed [OF rd q(3) assms(5)] take_stream [OF i(7,8) assms(5)] by metis
qed

lemma lb_readBinary_reads:
  assumes "lb_inv w own b" "submitted w b" "0 < n" "n \<le> lb_Len b"
  shows "\<exists>p b' w'. lb_readBinary g n b w = Some (p, b', w') \<and>
           slice_bytes w' p = take (nat n) (stream w b) \<and> consumed w own b n w' b'"
proof -
  obtain hs rs ws ts where rd: "ready w own b hs rs ws ts" by (rule readyE [OF assms(1,2)])
  note i = readyD [OF rd]
  have "n \<le> length_b b" using assms(4) by (simp add: lb_Len_def)
  from lb_readBinary_rep [OF i(1,2) assms(3) this] obtain p b' w' where
    q: "lb_readBinary g n b w = Some (p, b', w')" "slice_bytes w' p = take (nat n) (unreads w (rs @ ws @ ts))"
      "adv w b hs rs ws ts n w' b'" by blast
  then show ?thesis
    using adv_consumed [OF rd q(3) assms(4)] take_stream [OF i(7,8) assms(4)] by metis
qed

lemma lb_Skip_skips:
  assumes "lb_inv w own b" "submitted w b" "0 < n" "n \<le> lb_Len b"
  shows "\<exists>b' w'. lb_Skip n b w = Some (None, b', w') \<and> consumed w own b n w' b'"
proof -
  obtain hs rs ws ts where rd: "ready w own b hs rs ws ts" by (rule readyE [OF assms(1,2)])
  note i = readyD [OF rd]
  have "n \<le> length_b b" using assms(4) by (simp add: lb_Len_def)
  from lb_Skip_rep [OF i(1,2) assms(3) this] adv_consumed [OF rd _ assms(4)] show ?thesis by metis
qed

lemma lb_ReadByte_reads:
  assumes "lb_inv w own b" "submitted w b" "1 \<le> lb_Len b"
  shows "\<exists>b' w'. lb_ReadByte b w = Some (Inr (stream w b ! 0), b', w') \<and> consumed w own b 1 w' b'"
proof -
  obtain hs rs ws ts where rd: "ready w own b hs rs ws ts" by (rule readyE [OF assms(1,2)])
  note i = readyD [OF rd]
  have "1 \<le> length_b b" using assms(3) by (simp add: lb_Len_def)
  moreover have "stream w b ! 0 = unreads w (rs @ ws @ ts) ! 0"
  proof -
    have "unreads w (rs @ ws @ ts) \<noteq> []" using i(8) assms(3) by force
    then show ?thesis unfolding i(7) by (simp add: nth_append del: seq_simps)
  qed
  ultimately show ?thesis using lb_ReadByte_rep [OF i(1,2)] adv_consumed [OF rd _ assms(3)] by metis
qed

lemma lb_indexByte_finds:
  assumes "lb_inv w own b" "submitted w b" "0 \<le> skip"
  shows "lb_indexByte c skip b w =
           Some (index_from c (nat skip) (take (nat (lb_Len b)) (stream w b)))"
proof -
  obtain hs rs ws ts where rd: "ready w own b hs rs ws ts" by (rule readyE [OF assms(1,2)])
  note i = readyD [OF rd]
  have "take (nat (lb_Len b)) (stream w b) = unreads w (rs @ ws @ ts)"
    unfolding i(7) i(8) [symmetric] by (simp del: seq_simps)
  then show ?thesis using lb_indexByte_rep [OF i(1) assms(3)] by simp
qed

lemma IndexByte_mem:
  assumes "c \<in> set bs"
  shows "IndexByte bs c = int (length (takeWhile (\<lambda>x. x \<noteq> c) bs))"
    and "length (takeWhile (\<lambda>x. x \<noteq> c) bs) < length bs"
    and "take (Suc (length (takeWhile (\<lambda>x. x \<noteq> c) bs))) bs = takeWhile (\<lambda>x. x \<noteq> c) bs @ [c]"
proof -
  show l: "length (takeWhile (\<lambda>x. x \<noteq> c) bs) < length bs"
    using assms by (induction bs) auto
  then show "IndexByte bs c = int (length (takeWhile (\<lambda>x. x \<noteq> c) bs))"
    by (simp add: IndexByte_def)
  show "take (Suc (length (takeWhile (\<lambda>x. x \<noteq> c) bs))) bs = takeWhile (\<lambda>x. x \<noteq> c) bs @ [c]"
    using assms by (induction bs) auto
qed

lemma IndexByte_not_mem: "c \<notin> set bs \<Longrightarrow> IndexByte bs c = -1"
proof -
  assume "c \<notin> set bs"
  then have "takeWhile (\<lambda>x. x \<noteq> c) bs = bs" by (auto simp: takeWhile_eq_all_conv)
  then show ?thesis unfolding IndexByte_def by (simp only: Let_def) simp
qed

lemma lb_Until_reads:
  assumes "lb_inv w own b" "submitted w b" "mcache_ok g"
  defines "bs \<equiv> take (nat (lb_Len b)) (stream w b)"
  shows "if c \<in> set bs
         then \<exists>p b' w'. lb_Until g c b w = Some (Inr p, b', w') \<and>
                slice_bytes w' p = takeWhile (\<lambda>x. x \<noteq> c) bs @ [c] \<and>
                consumed w own b (int (length (takeWhile (\<lambda>x. x \<noteq> c) bs)) + 1) w' b'
         else lb_Until g c b w = Some (Inl untilErr, b, w)"
proof (cases "c \<in> set bs")
  case False
  then show ?thesis
    using lb_indexByte_finds [OF assms(1,2), of 0 c]
    by (simp add: lb_Until_def index_from_def IndexByte_not_mem flip: bs_def)
next
  case True
  let ?k = "length (takeWhile (\<lambda>x. x \<noteq> c) bs)"
  note m = IndexByte_mem [OF True]
  have "length bs \<le> nat (lb_Len b)" by (simp add: bs_def)
  with m(2) have lt: "int ?k + 1 \<le> lb_Len b" by linarith
  have ix: "lb_indexByte c 0 b w = Some (int ?k)"
    using lb_indexByte_finds [OF assms(1,2), of 0 c] m(1)
    by (simp add: index_from_def flip: bs_def)
  have run: "lb_Until g c b w = lb_Next g (int ?k + 1) b w" by (simp add: lb_Until_def ix)
  have "nat (int ?k + 1) = Suc ?k" "Suc ?k \<le> nat (lb_Len b)" using lt by linarith+
  then have "take (nat (int ?k + 1)) (stream w b) = takeWhile (\<lambda>x. x \<noteq> c) bs @ [c]"
    using m(3) by (simp add: bs_def min_absorb1)
  then show ?thesis
    using lb_Next_reads [OF assms(1-3), of "int ?k + 1"] lt True unfolding run by auto
qed

lemma lb_Peek_peeks:
  assumes "lb_inv w own b" "submitted w b" "mcache_ok g" "0 < n" "n \<le> lb_Len b"
  shows "\<exists>p b' w'. lb_Peek g n b w = Some (Inr p, b', w') \<and>
           slice_bytes w' p = take (nat n) (stream w b) \<and> lb_inv w' own b' \<and> submitted w' b' \<and>
           stream w' b' = stream w b \<and> lb_Len b' = lb_Len b \<and> nodes w' = nodes w"
proof -
  obtain hs rs ws ts where rd: "ready w own b hs rs ws ts" by (rule readyE [OF assms(1,2)])
  note i = readyD [OF rd]
  have "n \<le> length_b b" using assms(5) by (simp add: lb_Len_def)
  from lb_Peek_rep [OF i(1,2) assms(3,4) this] obtain p b' w' xs ys where
    q: "lb_Peek g n b w = Some (Inr p, b', w')" "slice_bytes w' p = take (nat n) (unreads w (rs @ ws @ ts))"
    "rs = xs @ ys" "lb_rep w' b' (hs @ xs) ys ws ts" "unreads w' (ys @ ws @ ts) = unreads w (rs @ ws @ ts)"
    "pendings w' (ws @ ts) = pendings w (ws @ ts)" "nodes w' = nodes w" "next_addr w' = next_addr w"
    "pool w' = pool w" "next_arr w \<le> next_arr w'"
    by blast
  have at: "nd_at w' a = nd_at w a" for a by (simp add: nd_at_def q(7))
  have wok: "world_ok w' own" by (rule world_ok_like [OF i(3) q(8,9,10)]) (simp add: q(7))
  have rd': "ready w' own b' (hs @ xs) ys ws ts"
    unfolding ready_def at append_assoc using wok q(4) i(5,6) i(2) unfolding q(3) append_assoc by blast
  note i' = readyD [OF rd']
  have "lb_inv w' own b'" "submitted w' b'" using rd' ready_iff [of w' own b'] by blast+
  moreover have "stream w' b' = stream w b" using i'(7) i(7) q(5,6) by simp
  moreover have "lb_Len b' = lb_Len b" using i'(8) i(8) unfolding q(5) by simp
  moreover have "slice_bytes w' p = take (nat n) (stream w b)"
    using q(2) take_stream [OF i(7,8) assms(5)] by simp
  ultimately show ?thesis using q(1,7) by blast
qed

subsection \<open>A buffer for the examples\<close>

text \<open>Five bytes over two nodes, one byte of the first already read; two spare bytes at the end.\<close>

definition ex_globals :: globals where
  "ex_globals = \<lparr>LinkBufferCap = 4096, defaultLinkBufferSize = 8192,
                 featureAlwaysNoCopyRead = False, mcache_cap = id\<rparr>"

definition ex_node0 :: node where
  "ex_node0 = \<lparr>buf = \<lparr>s_arr = 1, s_off = 0, s_len = 3, s_cap = 3\<rparr>, off = 1, malloc_n = 3,
               refer = 1, mode = 0, origin = None, next_n = Some 1\<rparr>"

definition ex_node1 :: node where
  "ex_node1 = \<lparr>buf = \<lparr>s_arr = 2, s_off = 0, s_len = 2, s_cap = 4\<rparr>, off = 0, malloc_n = 2,
               refer = 1, mode = 0, origin = None, next_n = None\<rparr>"

definition ex_world :: world where
  "ex_world = \<lparr>cells = (\<lambda>x i. word_of_int (10 * int x + i)), next_arr = 3, freed = [],
               nodes = [0 \<mapsto> ex_node0, 1 \<mapsto> ex_node1], next_addr = 2, pool = []\<rparr>"

definition ex_own :: "addr set" where "ex_own = {0, 1}"

definition ex_buffer :: LinkBuffer where
  "ex_buffer = \<lparr>length_b = 4, mallocSize = 0, head = Some 0, read = Some 0, flush = Some 1,
                write_n = Some 1, caches = [], cachePeek = None\<rparr>"

lemmas ex_defs = ex_world_def ex_own_def ex_buffer_def ex_node0_def ex_node1_def

lemma ex_nd: "nd_at ex_world 0 = ex_node0" "nd_at ex_world 1 = ex_node1" "nd_at ex_world (Suc 0) = ex_node1"
  by (simp_all add: nd_at_def ex_world_def)

lemma ex_rep: "lb_rep ex_world ex_buffer [] [0] [] [1]"
  by (simp add: lb_rep_def ex_nd node_ok_def pend_len_def apart_def peek_ok_def node_Len_def)
    (simp add: ex_defs)

lemma ex_world_ok: "world_ok ex_world ex_own"
proof -
  have "origin (nd_at ex_world a) = None" if "a \<in> ex_own" for a
    using that by (auto simp: ex_own_def ex_nd) (simp_all add: ex_defs)
  then have none: "{c \<in> ex_own. origin (nd_at ex_world c) = Some a} = {}" for a by auto
  have refs: "refs ex_world ex_own a = (if a \<in> ex_own then 1 else 0)" for a
    unfolding refs_def none by simp
  show ?thesis
    unfolding world_ok_def refs
    by (auto simp: ex_own_def ex_nd) (auto simp: ex_defs split: if_splits)
qed

lemma ex_ready: "ready ex_world ex_own ex_buffer [] [0] [] [1]"
  unfolding ready_def
  using ex_world_ok ex_rep by (auto simp: ex_nd) (auto simp: ex_defs)

lemma ex_inv: "lb_inv ex_world ex_own ex_buffer" "submitted ex_world ex_buffer"
  using ex_ready ready_iff [of ex_world ex_own ex_buffer] by blast+

lemma ex_stream: "stream ex_world ex_buffer = [11, 12, 20, 21]"
proof -
  have "unreads ex_world [0, 1] = [11, 12, 20, 21]"
    by (simp add: ex_nd unread_def slice_bytes_def) (simp add: ex_defs upt_rec)
  moreover have "pendings ex_world [1] = []"
    by (simp add: ex_nd pend_win_def slice_bytes_def) (simp add: ex_defs)
  ultimately show ?thesis using readyD(7) [OF ex_ready] by simp
qed

lemma ex_Len: "lb_Len ex_buffer = 4"
  by (simp add: lb_Len_def ex_buffer_def)

lemma ex_mcache: "mcache_ok ex_globals"
  by (simp add: mcache_ok_def ex_globals_def)

subsection \<open>The reader's contract\<close>

text \<open>C2: \<^verbatim>\<open>Next(n)\<close>. It returns nil for \<open>n \<le> 0\<close>, an error that leaves everything unchanged when fewer
  than \<open>n\<close> bytes are readable, and otherwise the next \<open>n\<close> bytes of the stream, which it consumes;
  it ends and panics nowhere, whatever nodes the bytes are spread over.\<close>

theorem Next_spec:
  assumes "lb_inv w own b" "submitted w b" "mcache_ok g"
  shows "if n \<le> 0 then lb_Next g n b w = Some (Inr nil_slice, b, w)
         else if lb_Len b < n
         then lb_Next g n b w = Some (Inl (EFmt ''link buffer next[%d] not enough'' n), b, w)
         else \<exists>p b' w'. lb_Next g n b w = Some (Inr p, b', w') \<and>
                slice_bytes w' p = take (nat n) (stream w b) \<and> consumed w own b n w' b'"
  using lb_Next_reads [OF assms] by (simp add: lb_Next_def)

theorem Next_spec_witness:
  "\<exists>p b' w'. lb_Next ex_globals 3 ex_buffer ex_world = Some (Inr p, b', w') \<and>
     slice_bytes w' p = [11, 12, 20] \<and> consumed ex_world ex_own ex_buffer 3 w' b'"
  using Next_spec [OF ex_inv ex_mcache, of 3] by (simp add: ex_Len ex_stream)

text \<open>\<^verbatim>\<open>Peek(n)\<close>. The same bytes as \<^verbatim>\<open>Next(n)\<close> would return, with the stream, the length and every
  node unchanged; the errors and the nil result are those of \<^verbatim>\<open>Next\<close>.\<close>

theorem Peek_spec:
  assumes "lb_inv w own b" "submitted w b" "mcache_ok g"
  shows "if n \<le> 0 then lb_Peek g n b w = Some (Inr nil_slice, b, w)
         else if lb_Len b < n
         then lb_Peek g n b w = Some (Inl (EFmt ''link buffer peek[%d] not enough'' n), b, w)
         else \<exists>p b' w'. lb_Peek g n b w = Some (Inr p, b', w') \<and>
                slice_bytes w' p = take (nat n) (stream w b) \<and> lb_inv w' own b' \<and> submitted w' b' \<and>
                stream w' b' = stream w b \<and> lb_Len b' = lb_Len b \<and> nodes w' = nodes w"
  using lb_Peek_peeks [OF assms] by (simp add: lb_Peek_def)

theorem Peek_spec_witness:
  "\<exists>p b' w'. lb_Peek ex_globals 3 ex_buffer ex_world = Some (Inr p, b', w') \<and>
     slice_bytes w' p = [11, 12, 20] \<and> lb_inv w' ex_own b' \<and> submitted w' b' \<and>
     stream w' b' = [11, 12, 20, 21] \<and> lb_Len b' = 4 \<and> nodes w' = nodes ex_world"
  using Peek_spec [OF ex_inv ex_mcache, of 3] by (simp add: ex_Len ex_stream)

text \<open>\<^verbatim>\<open>Skip(n)\<close>. It consumes \<open>n\<close> bytes, or returns an error and changes nothing when fewer are
  readable.\<close>

theorem Skip_spec:
  assumes "lb_inv w own b" "submitted w b"
  shows "if n \<le> 0 then lb_Skip n b w = Some (None, b, w)
         else if lb_Len b < n
         then lb_Skip n b w = Some (Some (EFmt ''link buffer skip[%d] not enough'' n), b, w)
         else \<exists>b' w'. lb_Skip n b w = Some (None, b', w') \<and> consumed w own b n w' b'"
  using lb_Skip_skips [OF assms] by (simp add: lb_Skip_def)

theorem Skip_spec_witness:
  "\<exists>b' w'. lb_Skip 3 ex_buffer ex_world = Some (None, b', w') \<and> consumed ex_world ex_own ex_buffer 3 w' b'"
  using Skip_spec [OF ex_inv, of 3] by (simp add: ex_Len)

text \<open>\<^verbatim>\<open>ReadBinary(n)\<close> and \<^verbatim>\<open>ReadString(n)\<close>. Both return the next \<open>n\<close> bytes and consume them, on the
  no-copy branch, on the copy branch and over several nodes alike.\<close>

theorem ReadBinary_spec:
  assumes "lb_inv w own b" "submitted w b"
  shows "if n \<le> 0 then lb_ReadBinary g n b w = Some (Inr nil_slice, b, w)
         else if lb_Len b < n
         then lb_ReadBinary g n b w = Some (Inl (EFmt ''link buffer read binary[%d] not enough'' n), b, w) \<and>
              lb_ReadString g n b w = Some (Inl (EFmt ''link buffer read string[%d] not enough'' n), b, w)
         else lb_ReadString g n b w = lb_ReadBinary g n b w \<and>
              (\<exists>p b' w'. lb_ReadBinary g n b w = Some (Inr p, b', w') \<and>
                 slice_bytes w' p = take (nat n) (stream w b) \<and> consumed w own b n w' b')"
  using lb_readBinary_reads [OF assms, of n g] by (auto simp: lb_ReadBinary_def lb_ReadString_def)

theorem ReadBinary_spec_witness:
  "lb_ReadString ex_globals 3 ex_buffer ex_world = lb_ReadBinary ex_globals 3 ex_buffer ex_world \<and>
   (\<exists>p b' w'. lb_ReadBinary ex_globals 3 ex_buffer ex_world = Some (Inr p, b', w') \<and>
      slice_bytes w' p = [11, 12, 20] \<and> consumed ex_world ex_own ex_buffer 3 w' b')"
  using ReadBinary_spec [OF ex_inv, of 3 ex_globals] by (simp add: ex_Len ex_stream)

text \<open>\<^verbatim>\<open>ReadByte()\<close>. It returns the first byte and consumes it, or an error on an empty buffer.\<close>

theorem ReadByte_spec:
  assumes "lb_inv w own b" "submitted w b"
  shows "if lb_Len b < 1
         then lb_ReadByte b w = Some (Inl (EText ''link buffer read byte is empty''), b, w)
         else \<exists>b' w'. lb_ReadByte b w = Some (Inr (stream w b ! 0), b', w') \<and> consumed w own b 1 w' b'"
  using lb_ReadByte_reads [OF assms] by (simp add: lb_ReadByte_def)

theorem ReadByte_spec_witness:
  "\<exists>b' w'. lb_ReadByte ex_buffer ex_world = Some (Inr 11, b', w') \<and> consumed ex_world ex_own ex_buffer 1 w' b'"
  using ReadByte_spec [OF ex_inv] by (simp add: ex_Len ex_stream)

text \<open>\<^verbatim>\<open>Until(delim)\<close>. It returns the readable bytes up to and including the first \<open>delim\<close> and
  consumes them, and fails without a change when no readable byte is \<open>delim\<close>.\<close>

theorem Until_spec:
  assumes "lb_inv w own b" "submitted w b" "mcache_ok g" "bs = take (nat (lb_Len b)) (stream w b)"
  shows "if c \<in> set bs
         then \<exists>p b' w'. lb_Until g c b w = Some (Inr p, b', w') \<and>
                slice_bytes w' p = takeWhile (\<lambda>x. x \<noteq> c) bs @ [c] \<and>
                consumed w own b (int (length (takeWhile (\<lambda>x. x \<noteq> c) bs)) + 1) w' b'
         else lb_Until g c b w = Some (Inl untilErr, b, w)"
  using lb_Until_reads [OF assms(1-3), of c] unfolding assms(4) .

theorem Until_spec_witness:
  "(\<exists>p b' w'. lb_Until ex_globals 20 ex_buffer ex_world = Some (Inr p, b', w') \<and>
      slice_bytes w' p = [11, 12, 20] \<and> consumed ex_world ex_own ex_buffer 3 w' b') \<and>
   lb_Until ex_globals 99 ex_buffer ex_world = Some (Inl untilErr, ex_buffer, ex_world)"
  using Until_spec [OF ex_inv ex_mcache refl, of 20] Until_spec [OF ex_inv ex_mcache refl, of 99]
  by (simp add: ex_Len ex_stream)

end
