(* ===== verification/LinkBufferRelease.thy ===== *)
theory LinkBufferRelease
  imports LinkBufferReader
begin

section \<open>LinkBuffer: reference counts and Release\<close>

text \<open>
  \<^verbatim>\<open>Release\<close> gives the nodes before the read cursor back: the reference count of the node and
  of the node it was cut from go down, and a node whose count reaches zero goes back to the pool.
  \<open>counted\<close> is the invariant of the counts with the number of references to each node written out.
\<close>

definition counted :: "world \<Rightarrow> addr set \<Rightarrow> (addr \<Rightarrow> nat) \<Rightarrow> bool" where
  "counted w own R \<longleftrightarrow>
     finite own \<and> distinct (pool w) \<and> 0 < next_arr w \<and>
     (\<forall>a. nodes w a \<noteq> None \<longrightarrow> a < next_addr w) \<and>
     (\<forall>a\<in>set (pool w). \<exists>nd. nodes w a = Some nd \<and> buf nd = nil_slice \<and>
                          origin nd = None \<and> next_n nd = None) \<and>
     (\<forall>a\<in>own. nodes w a \<noteq> None \<and> a \<notin> set (pool w) \<and> 0 < R a) \<and>
     (\<forall>a\<in>own. \<forall>r. origin (nd_at w a) = Some r \<longrightarrow>
        nodes w r \<noteq> None \<and> r \<notin> set (pool w) \<and> origin (nd_at w r) = None \<and> 0 < R r) \<and>
     (\<forall>a. a \<notin> set (pool w) \<longrightarrow> int (R a) \<le> refer (nd_at w a) \<or> R a = 0)"

text \<open>The last step of \<^verbatim>\<open>node.Release\<close>: what it does to the node itself.\<close>

definition drop_ref :: "addr \<Rightarrow> world \<Rightarrow> world" where
  "drop_ref a w =
     (let nd = (nd_at w a)\<lparr>refer := refer (nd_at w a) - 1\<rparr>
      in if refer nd = 0
         then linkedPool_Put a (set_node a (nd\<lparr>buf := nil_slice, origin := None, next_n := None\<rparr>)
                (if reusable nd then free (buf nd) w else w))
         else set_node a nd w)"

lemma free_world [simp]:
  "nodes (free s w) = nodes w" "next_addr (free s w) = next_addr w" "pool (free s w) = pool w"
  by (simp_all add: free_def)

lemma nd_at_free [simp]: "nd_at (free s w) a = nd_at w a"
  by (simp add: nd_at_def)

lemma linkedPool_Put_simps [simp]:
  "nodes (linkedPool_Put a w) = nodes w" "cells (linkedPool_Put a w) = cells w"
  "next_arr (linkedPool_Put a w) = next_arr w" "next_addr (linkedPool_Put a w) = next_addr w"
  "pool (linkedPool_Put a w) = a # pool w"
  by (simp_all add: linkedPool_Put_def)

lemma drop_ref_frame:
  "cells (drop_ref a w) = cells w" "next_arr (drop_ref a w) = next_arr w"
  "next_addr (drop_ref a w) = next_addr w" "\<And>c. c \<noteq> a \<Longrightarrow> nodes (drop_ref a w) c = nodes w c"
  "nodes (drop_ref a w) a \<noteq> None"
  "set (pool (drop_ref a w)) \<subseteq> insert a (set (pool w))"
  by (auto simp: drop_ref_def Let_def)

lemma node_Release_drop:
  assumes "nodes w a \<noteq> None"
    and "\<And>r. origin (nd_at w a) = Some r \<Longrightarrow> nodes w r \<noteq> None \<and> origin (nd_at w r) = None \<and> r \<noteq> a"
  shows "node_Release a w =
           Some (drop_ref a (case origin (nd_at w a) of None \<Rightarrow> w | Some r \<Rightarrow> drop_ref r w))"
proof -
  have one: "node_Release c v = Some (drop_ref c v)"
    if "nodes v c \<noteq> None" "origin (nd_at v c) = None" for c v
    using that by (subst node_Release.simps) (auto simp: drop_ref_def Let_def split: option.splits)
  show ?thesis
  proof (cases "origin (nd_at w a)")
    case None
    then show ?thesis using one assms(1) by simp
  next
    case (Some r)
    with assms(2) have r: "nodes w r \<noteq> None" "origin (nd_at w r) = None" "r \<noteq> a" by auto
    obtain nd where nd: "nodes w a = Some nd" using assms(1) by blast
    with r have eq: "nodes (drop_ref r w) a = Some nd" "nd_at (drop_ref r w) a = nd"
      using drop_ref_frame(4) [of a r w] by (auto simp: nd_at_def)
    show ?thesis using nd Some one [OF r(1,2)] eq
      by (subst node_Release.simps) (simp add: drop_ref_def [of a] Let_def)
  qed
qed

lemma drop_ref_counted:
  assumes c: "counted w own R" and x: "nodes w x \<noteq> None" "x \<notin> set (pool w)" "0 < R x"
    and R': "R' = R(x := R x - 1)" and own': "own' \<subseteq> own"
    and live: "\<And>a. a \<in> own' \<Longrightarrow> (a = x \<or> origin (nd_at w a) = Some x) \<Longrightarrow> 0 < R' x"
  shows "counted (drop_ref x w) own' R'"
proof -
  let ?w = "drop_ref x w" and ?nd = "nd_at w x"
  note fr = drop_ref_frame [where a = x and w = w]
  have refer: "int (R x) \<le> refer ?nd" using c x by (auto simp: counted_def)
  have at: "nd_at ?w a = nd_at w a" if "a \<noteq> x" for a using fr(4) [OF that] by (simp add: nd_at_def)
  have dom: "nodes ?w a \<noteq> None \<longleftrightarrow> nodes w a \<noteq> None" for a using fr(4) [of a] fr(5) x(1) by (cases "a = x") auto
  have kept: "pool ?w = pool w \<and> nd_at ?w x = ?nd\<lparr>refer := refer ?nd - 1\<rparr>" if "refer ?nd \<noteq> 1"
    using that by (simp add: drop_ref_def Let_def nd_at_def)
  have gone: "pool ?w = x # pool w \<and> R' x = 0 \<and>
      nodes ?w x = Some (?nd\<lparr>refer := 0, buf := nil_slice, origin := None, next_n := None\<rparr>)" if "refer ?nd = 1"
    using that refer x(3) R' by (simp add: drop_ref_def Let_def)
  have base: "finite own'" "0 < next_arr ?w" "\<forall>a. nodes ?w a \<noteq> None \<longrightarrow> a < next_addr ?w"
    using c own' finite_subset [OF own'] unfolding counted_def dom fr(2,3) by blast+
  have alive: "nodes ?w a \<noteq> None \<and> a \<notin> set (pool ?w) \<and> 0 < R' a \<and> origin (nd_at ?w a) = origin (nd_at w a)"
    if a: "nodes w a \<noteq> None" "a \<notin> set (pool w)" "0 < R a" and l: "a = x \<Longrightarrow> 0 < R' x" for a
  proof (cases "refer ?nd = 1")
    case True
    with gone l have "a \<noteq> x" by auto
    then show ?thesis using gone True a dom [of a] at R' by auto
  next
    case False
    then show ?thesis using kept a dom [of a] at [of a] R' l by (cases "a = x") auto
  qed
  have own_ok: "nodes w a \<noteq> None" "a \<notin> set (pool w)" "0 < R a" if "a \<in> own'" for a
    using c own' that unfolding counted_def by blast+
  have own2: "\<forall>a\<in>own'. nodes ?w a \<noteq> None \<and> a \<notin> set (pool ?w) \<and> 0 < R' a"
    using alive [OF own_ok] live by blast
  have org: "nodes ?w r \<noteq> None \<and> r \<notin> set (pool ?w) \<and> origin (nd_at ?w r) = None \<and> 0 < R' r"
    if a: "a \<in> own'" and o: "origin (nd_at ?w a) = Some r" for a r
  proof -
    have o': "origin (nd_at w a) = Some r" using alive [OF own_ok [OF a]] live [OF a] o by auto
    then have r: "nodes w r \<noteq> None" "r \<notin> set (pool w)" "origin (nd_at w r) = None" "0 < R r"
      using c a own' unfolding counted_def by blast+
    have "r = x \<Longrightarrow> 0 < R' x" using live [OF a] o' by blast
    from alive [OF r(1,2,4) this] r(3) show ?thesis by auto
  qed
  have pool: "distinct (pool ?w) \<and> (\<forall>a\<in>set (pool ?w). \<exists>nd. nodes ?w a = Some nd \<and> buf nd = nil_slice \<and>
      origin nd = None \<and> next_n nd = None)"
  proof -
    have p: "distinct (pool w)" "\<And>a. a \<in> set (pool w) \<Longrightarrow> \<exists>nd. nodes w a = Some nd \<and> buf nd = nil_slice \<and>
      origin nd = None \<and> next_n nd = None"
      using c unfolding counted_def by blast+
    have "\<exists>nd. nodes ?w a = Some nd \<and> buf nd = nil_slice \<and> origin nd = None \<and> next_n nd = None"
      if "a \<in> set (pool w)" for a
      using p(2) [OF that] fr(4) [of a] x(2) that by (cases "a = x") auto
    then show ?thesis using gone kept p(1) x(2) by (cases "refer ?nd = 1") auto
  qed
  have cnt: "int (R' a) \<le> refer (nd_at ?w a) \<or> R' a = 0" if "a \<notin> set (pool ?w)" for a
  proof (cases "a = x")
    case True
    then show ?thesis using that gone kept refer x(3) R' by (cases "refer ?nd = 1") auto
  next
    case False
    have "a \<notin> set (pool w)" using that gone kept by (cases "refer ?nd = 1") auto
    then show ?thesis using c False at R' unfolding counted_def by auto
  qed
  show ?thesis
    unfolding counted_def using base own2 org pool cnt by blast
qed

lemma world_ok_counted: "world_ok w own \<Longrightarrow> counted w own (refs w own)"
proof -
  assume ok: "world_ok w own"
  have "0 < refs w own r" if "a \<in> own" "origin (nd_at w a) = Some r" for a r
  proof -
    have "finite {c \<in> own. origin (nd_at w c) = Some r}" using ok by (simp add: world_ok_def)
    then have "0 < card {c \<in> own. origin (nd_at w c) = Some r}" using that by (auto simp: card_gt_0_iff)
    then show ?thesis by (simp add: refs_def)
  qed
  note r0 = this
  have o0: "0 < refs w own a" if "a \<in> own" for a using that by (simp add: refs_def)
  have 1: "\<forall>a\<in>own. nodes w a \<noteq> None \<and> a \<notin> set (pool w) \<and> 0 < refs w own a"
    using ok o0 unfolding world_ok_def by simp
  have 2: "\<forall>a\<in>own. \<forall>r. origin (nd_at w a) = Some r \<longrightarrow>
        nodes w r \<noteq> None \<and> r \<notin> set (pool w) \<and> origin (nd_at w r) = None \<and> 0 < refs w own r"
    using ok r0 unfolding world_ok_def by simp
  show ?thesis
    using ok 1 2 unfolding world_ok_def counted_def by (elim conjE, intro conjI)
qed

lemma counted_world_ok:
  assumes c: "counted w own R" and le: "\<And>a. refs w own a \<le> R a"
  shows "world_ok w own"
proof -
  have "int (refs w own a) \<le> refer (nd_at w a) \<or> refs w own a = 0" if "a \<notin> set (pool w)" for a
    using c that le [of a] unfolding counted_def by force
  note 1 = this
  have 2: "\<forall>a\<in>own. nodes w a \<noteq> None \<and> a \<notin> set (pool w)"
    "\<forall>a\<in>own. \<forall>r. origin (nd_at w a) = Some r \<longrightarrow>
        nodes w r \<noteq> None \<and> r \<notin> set (pool w) \<and> origin (nd_at w r) = None"
    using c unfolding counted_def by simp_all
  show ?thesis unfolding world_ok_def
    using c [unfolded counted_def] 1 2 by (elim conjE, intro conjI) blast+
qed

lemma refs_remove:
  assumes "finite own" "a \<in> own" "origin (nd_at w a) \<noteq> Some a"
  shows "refs w (own - {a}) c =
           (if c = a \<or> origin (nd_at w a) = Some c then refs w own c - 1 else refs w own c)"
proof -
  let ?S = "\<lambda>o'. {d \<in> o'. origin (nd_at w d) = Some c}"
  have "?S (own - {a}) = ?S own - {a}" by auto
  moreover have "finite (?S own)" using assms(1) by simp
  ultimately have "card (?S (own - {a})) = (if a \<in> ?S own then card (?S own) - 1 else card (?S own))"
    by (simp add: card_Diff_singleton)
  moreover have "a \<in> ?S own \<longleftrightarrow> origin (nd_at w a) = Some c" using assms(2) by simp
  moreover have "0 < card (?S own)" if "origin (nd_at w a) = Some c"
    using that assms(1,2) by (auto simp: card_gt_0_iff)
  ultimately show ?thesis using assms(2,3) by (auto simp: refs_def)
qed

lemma refs_cong:
  "(\<And>c. c \<in> own \<Longrightarrow> origin (nd_at w' c) = origin (nd_at w c)) \<Longrightarrow> refs w' own a = refs w own a"
  unfolding refs_def by (metis (mono_tags, lifting) Collect_cong)

lemma node_Release_ok:
  assumes ok: "world_ok w own" and a: "a \<in> own"
  obtains w' where "node_Release a w = Some w'" "world_ok w' (own - {a})" "cells w' = cells w"
    "next_arr w' = next_arr w" "next_addr w' = next_addr w"
    "\<And>c. c \<noteq> a \<Longrightarrow> origin (nd_at w a) \<noteq> Some c \<Longrightarrow> nodes w' c = nodes w c"
proof -
  note goal = that
  let ?own = "own - {a}" and ?R = "refs w own"
  note ct = world_ok_counted [OF ok]
  have fin: "finite own" and na: "nodes w a \<noteq> None" and pa: "a \<notin> set (pool w)" and ra: "0 < ?R a"
    using ct a unfolding counted_def by blast+
  have org: "nodes w r \<noteq> None \<and> r \<notin> set (pool w) \<and> origin (nd_at w r) = None \<and> 0 < ?R r"
    if "origin (nd_at w d) = Some r" "d \<in> own" for r d
    using ct that unfolding counted_def by blast
  have ne: "origin (nd_at w a) \<noteq> Some a" using org [OF _ a] by fastforce
  note rm = refs_remove [OF fin a ne]
  have pos: "0 < refs w ?own c" if "d \<in> ?own" "d = c \<or> origin (nd_at w d) = Some c" for c d
    using that fin unfolding refs_def by (auto simp: card_gt_0_iff)
  have run: "node_Release a w =
      Some (drop_ref a (case origin (nd_at w a) of None \<Rightarrow> w | Some r \<Rightarrow> drop_ref r w))"
    by (rule node_Release_drop [OF na]) (use org [OF _ a] ne in auto)
  have fin_step: thesis if w1: "w1 = (case origin (nd_at w a) of None \<Rightarrow> w | Some r \<Rightarrow> drop_ref r w)"
    and c1: "counted w1 own1 R1" "own1 \<supseteq> ?own" "R1 a = ?R a" "nodes w1 a \<noteq> None" "a \<notin> set (pool w1)"
      "\<And>c. c \<noteq> a \<Longrightarrow> R1 c = refs w ?own c"
      "cells w1 = cells w" "next_arr w1 = next_arr w" "next_addr w1 = next_addr w"
      "\<And>c. origin (nd_at w a) \<noteq> Some c \<Longrightarrow> nodes w1 c = nodes w c"
      "\<And>c. c \<in> own \<Longrightarrow> origin (nd_at w1 c) = origin (nd_at w c)" for w1 own1 R1
  proof -
    let ?w = "drop_ref a w1"
    have R1: "(R1(a := R1 a - 1)) c = refs w ?own c" for c using c1(3,6) rm by simp
    have "counted ?w ?own (R1(a := R1 a - 1))"
    proof (rule drop_ref_counted [OF c1(1,4,5) _ refl c1(2)])
      show "0 < R1 a" using ra c1(3) by simp
      show "0 < (R1(a := R1 a - 1)) a" if "d \<in> ?own" "d = a \<or> origin (nd_at w1 d) = Some a" for d
        unfolding R1 by (rule pos [OF that(1)]) (use that c1(11) in auto)
    qed
    moreover have "refs ?w ?own c = refs w ?own c" for c
    proof (rule refs_cong)
      fix d assume d: "d \<in> ?own"
      then have "nd_at ?w d = nd_at w1 d" using drop_ref_frame(4) [of d a w1] by (simp add: nd_at_def)
      then show "origin (nd_at ?w d) = origin (nd_at w d)" using c1(11) d by simp
    qed
    ultimately have "world_ok ?w ?own" using R1 by (intro counted_world_ok) (auto simp del: fun_upd_apply)
    then show thesis
      using run c1 drop_ref_frame [where a = a and w = w1] unfolding w1 [symmetric]
      by (intro goal [of ?w]) auto
  qed
  show thesis
  proof (cases "origin (nd_at w a)")
    case None
    show thesis
      by (rule fin_step [of w own ?R]) (use None ct na pa rm in auto)
  next
    case (Some r)
    let ?w1 = "drop_ref r w" and ?R1 = "?R(r := ?R r - 1)"
    from org [OF Some a] have r: "nodes w r \<noteq> None" "r \<notin> set (pool w)" "origin (nd_at w r) = None" "0 < ?R r"
      by auto
    have "r \<noteq> a" using Some ne by auto
    note fr = drop_ref_frame [where a = r and w = w]
    have R1: "?R1 c = refs w ?own c" if "c \<noteq> a" for c using rm [of c] Some that by auto
    have c1: "counted ?w1 ?own ?R1"
    proof (rule drop_ref_counted [OF ct r(1,2,4) refl])
      show "0 < ?R1 r" if "d \<in> ?own" "d = r \<or> origin (nd_at w d) = Some r" for d
        unfolding R1 [OF \<open>r \<noteq> a\<close>] by (rule pos [OF that])
    qed auto
    have at: "nd_at ?w1 c = nd_at w c" if "c \<noteq> r" for c using fr(4) [OF that] by (simp add: nd_at_def)
    have og: "origin (nd_at ?w1 c) = origin (nd_at w c)" for c
      using at [of c] r(3) by (cases "c = r") (auto simp: drop_ref_def Let_def nd_at_set_node nd_at_def)
    show thesis
    proof (rule fin_step [of ?w1 ?own ?R1])
      show "a \<notin> set (pool ?w1)" using fr(6) pa \<open>r \<noteq> a\<close> by blast
      show "nodes ?w1 a \<noteq> None" using fr(4) [of a] na \<open>r \<noteq> a\<close> by simp
      show "nodes ?w1 c = nodes w c" if "origin (nd_at w a) \<noteq> Some c" for c
        by (rule fr(4)) (use Some that in auto)
    qed (use c1 Some R1 fr og \<open>r \<noteq> a\<close> in auto)
  qed
qed

declare Release_read_loop.simps [simp del] Release_head_loop.simps [simp del]

lemma Release_read_loop_ok:
  assumes "lseg (nodes w) (read b) rs (flush b)" "\<And>a. a \<in> set rs \<Longrightarrow> flush b \<noteq> Some a"
  shows "\<exists>xs ys m. rs = xs @ ys \<and> (\<forall>a\<in>set xs. node_Len (nd_at w a) = 0) \<and>
           Release_read_loop b w = Some (b\<lparr>read := m\<rparr>) \<and>
           lseg (nodes w) (read b) xs m \<and> lseg (nodes w) m ys (flush b)"
  using assms
proof (induction rs arbitrary: b)
  case Nil
  then have "Release_read_loop b w = Some (b\<lparr>read := read b\<rparr>)" by (simp add: Release_read_loop.simps)
  with Nil show ?case by force
next
  case (Cons a as)
  then obtain nd where rd: "read b = Some a" and nd: "nodes w a = Some nd"
    and seg: "lseg (nodes w) (next_n nd) as (flush b)" and ne: "flush b \<noteq> Some a"
    by (auto split: option.splits)
  show ?case
  proof (cases "node_Len nd = 0")
    case True
    let ?b = "b\<lparr>read := next_n nd\<rparr>"
    have step: "Release_read_loop b w = Release_read_loop ?b w"
      using rd nd ne True by (subst Release_read_loop.simps) simp
    obtain xs ys m where "as = xs @ ys" "\<forall>a\<in>set xs. node_Len (nd_at w a) = 0"
      "Release_read_loop ?b w = Some (?b\<lparr>read := m\<rparr>)"
      "lseg (nodes w) (read ?b) xs m" "lseg (nodes w) m ys (flush ?b)"
      using Cons.IH [of ?b] seg Cons.prems(2) by auto
    then show ?thesis using step rd nd True
      by (intro exI [of _ "a # xs"] exI [of _ ys] exI [of _ m]) simp
  next
    case False
    then have "Release_read_loop b w = Some (b\<lparr>read := Some a\<rparr>)"
      using rd nd ne by (subst Release_read_loop.simps) simp
    then show ?thesis using Cons.prems(1) rd
      by (intro exI [of _ "[]"] exI [of _ "a # as"] exI [of _ "Some a"]) simp
  qed
qed

lemma Release_head_loop_ok:
  assumes "world_ok w own" "lseg (nodes w) (head b) hs (read b)" "set hs \<subseteq> own" "distinct hs"
    "set hs \<subseteq> S" "\<And>a. a \<in> set hs \<Longrightarrow> read b \<noteq> Some a"
    "\<And>a r. a \<in> set hs \<Longrightarrow> origin (nd_at w a) = Some r \<Longrightarrow> r \<in> S \<Longrightarrow> False"
  shows "\<exists>w'. Release_head_loop b w = Some (b\<lparr>head := read b\<rparr>, w') \<and> world_ok w' (own - set hs) \<and>
           cells w' = cells w \<and> next_arr w' = next_arr w \<and> next_addr w' = next_addr w \<and>
           (\<forall>c\<in>S - set hs. nodes w' c = nodes w c)"
  using assms
proof (induction hs arbitrary: b w own S)
  case Nil
  then have "Release_head_loop b w = Some (b\<lparr>head := read b\<rparr>, w)"
    by (subst Release_head_loop.simps) simp
  with Nil show ?case by auto
next
  case (Cons a as)
  then obtain nd where hd: "head b = Some a" and nd: "nodes w a = Some nd"
    and seg: "lseg (nodes w) (next_n nd) as (read b)" and ne: "read b \<noteq> Some a" and own: "a \<in> own"
    by (auto split: option.splits)
  obtain w1 where w1: "node_Release a w = Some w1" "world_ok w1 (own - {a})" "cells w1 = cells w"
    "next_arr w1 = next_arr w" "next_addr w1 = next_addr w"
    "\<And>c. c \<noteq> a \<Longrightarrow> origin (nd_at w a) \<noteq> Some c \<Longrightarrow> nodes w1 c = nodes w c"
    by (rule node_Release_ok [OF Cons.prems(1) own]) blast
  let ?b = "b\<lparr>head := next_n nd\<rparr>"
  have step: "Release_head_loop b w = Release_head_loop ?b w1"
    using hd nd ne w1(1) by (subst Release_head_loop.simps) simp
  have keep: "nodes w1 c = nodes w c" if "c \<in> S - {a}" for c
    using w1(6) [of c] Cons.prems(7) [of a c] that by auto
  have sub: "c \<in> S - {a}" if "c \<in> set as" for c using Cons.prems(4,5) that by auto
  have at: "nd_at w1 c = nd_at w c" if "c \<in> S - {a}" for c using keep [OF that] by (simp add: nd_at_def)
  have "\<exists>w'. Release_head_loop ?b w1 = Some (?b\<lparr>head := read ?b\<rparr>, w') \<and> world_ok w' (own - {a} - set as) \<and>
      cells w' = cells w1 \<and> next_arr w' = next_arr w1 \<and> next_addr w' = next_addr w1 \<and>
      (\<forall>c\<in>(S - {a}) - set as. nodes w' c = nodes w1 c)"
  proof (rule Cons.IH [OF w1(2)])
    show "lseg (nodes w1) (head ?b) as (read ?b)"
      using seg lseg_cong [of as "nodes w1" "nodes w" "next_n nd" "read b"] keep sub by simp
    show False if "c \<in> set as" "origin (nd_at w1 c) = Some r" "r \<in> S - {a}" for c r
      using Cons.prems(7) [of c r] that at [OF sub] by auto
  qed (use Cons.prems sub in auto)
  then show ?case using step keep w1(3-5) by (auto simp: Diff_insert2 [symmetric])
qed

lemma fold_free:
  "nodes (fold free cs w) = nodes w" "cells (fold free cs w) = cells w"
  "next_arr (fold free cs w) = next_arr w" "next_addr (fold free cs w) = next_addr w"
  "pool (fold free cs w) = pool w"
  by (induction cs arbitrary: w) simp_all

lemma world_ok_cong:
  assumes "world_ok w own" "nodes w' = nodes w" "next_arr w' = next_arr w"
    "next_addr w' = next_addr w" "pool w' = pool w"
  shows "world_ok w' own"
  by (rule world_ok_like [OF assms(1)]) (simp_all add: assms)

text \<open>Cutting the released and the empty nodes off the front of a buffer.\<close>

lemma lb_rep_cut:
  assumes rep: "lb_rep w b hs rs ws ts" and x: "rs = xs @ ys" "\<forall>a\<in>set xs. node_Len (nd_at w a) = 0"
    and m: "lseg (nodes w) m ys (flush b)"
    and b': "b' = b\<lparr>read := m, head := m, caches := [], cachePeek := None\<rparr>"
  shows "lb_rep w b' [] ys ws ts" "unreads w (ys @ ws @ ts) = unreads w (rs @ ws @ ts)"
proof -
  note R = lb_repD [OF rep]
  have "node_ok (nd_at w a)" if "a \<in> set xs" for a by (rule R(6)) (use x(1) that in auto)
  then have zero: "unreads w xs = []" "lens w xs = 0"
    using x(2) by (auto intro!: unreads_empty sum_list_map_eq_0 simp: unread_Nil_iff lens_def)
  then show "unreads w (ys @ ws @ ts) = unreads w (rs @ ws @ ts)" using x(1) by simp
  have "length_b b = lens w (ys @ ws @ ts)" using R(11) zero x(1) by simp
  moreover have "\<forall>a\<in>set ([] @ ys @ ws @ ts). node_ok (nd_at w a) \<and> s_arr (buf (nd_at w a)) < next_arr w"
    using R(6,7) x(1) by simp
  moreover have "\<forall>a\<in>set (ys @ ws @ ts). \<forall>c\<in>set (ys @ ws @ ts). a \<noteq> c \<longrightarrow> apart (nd_at w a) (nd_at w c)"
    using R(10) x(1) by simp
  ultimately show "lb_rep w b' [] ys ws ts"
    using R(3,4,5,8,9,12) m x(1) unfolding lb_rep_def b' by (simp add: peek_ok_def)
qed

lemma lb_Release_ok:
  assumes inv: "lb_inv w own b" "submitted w b"
  obtains b' w' gone where "lb_Release b w = Some (b', w')" "lb_inv w' (own - set gone) b'"
    "submitted w' b'" "stream w' b' = stream w b" "lb_Len b' = lb_Len b" "mallocSize b' = mallocSize b"
    "cells w' = cells w" "head b' = read b'" "caches b' = []" "cachePeek b' = None"
    "\<exists>xs. chain (next_addr w) (nodes w) (head b) = gone @ xs"
    "write_n b' = write_n b" "\<And>a. write_n b = Some a \<Longrightarrow> nodes w' a = nodes w a"
proof -
  obtain hs rs ws ts where rd: "ready w own b hs rs ws ts" by (rule readyE [OF inv])
  note i = readyD [OF rd] and R = lb_repD [OF readyD(1) [OF rd]]
  have flush: "flush b \<noteq> Some a" if "a \<in> set rs" for a
    using lb_rep_chain(2) [OF i(1)] R(5) that by (cases "ws @ ts") auto
  obtain xs ys m where x: "rs = xs @ ys" "\<forall>a\<in>set xs. node_Len (nd_at w a) = 0"
    "Release_read_loop b w = Some (b\<lparr>read := m\<rparr>)"
    "lseg (nodes w) (read b) xs m" "lseg (nodes w) m ys (flush b)"
    using Release_read_loop_ok [OF R(2) flush] by blast
  let ?b = "b\<lparr>read := m\<rparr>" and ?S = "set (hs @ rs @ ws @ ts)"
  have ylist: "lseg (nodes w) m (ys @ ws @ ts) None" using x(5) lb_rep_chain(2) [OF i(1)]
    unfolding lseg_append [of _ _ ys] by blast
  have "\<exists>w1. Release_head_loop ?b w = Some (?b\<lparr>head := read ?b\<rparr>, w1) \<and> world_ok w1 (own - set (hs @ xs)) \<and>
      cells w1 = cells w \<and> next_arr w1 = next_arr w \<and> next_addr w1 = next_addr w \<and>
      (\<forall>c\<in>?S - set (hs @ xs). nodes w1 c = nodes w c)"
  proof (rule Release_head_loop_ok [OF i(3)])
    show "lseg (nodes w) (head ?b) (hs @ xs) (read ?b)"
      unfolding lseg_append using R(1) x(4) by auto
    show "set (hs @ xs) \<subseteq> own" "distinct (hs @ xs)" "set (hs @ xs) \<subseteq> ?S"
      using i(5) R(5) x(1) by auto
    show "read ?b \<noteq> Some a" if "a \<in> set (hs @ xs)" for a
      using ylist R(5) x(1) that by (cases "ys @ ws @ ts") auto
    show False if "a \<in> set (hs @ xs)" "origin (nd_at w a) = Some r" "r \<in> ?S" for a r
    proof -
      have "a \<in> ?S" using that(1) x(1) by auto
      then show False using i(6) that(2,3) by blast
    qed
  qed
  then obtain w1 where w1: "Release_head_loop ?b w = Some (?b\<lparr>head := m\<rparr>, w1)"
    "world_ok w1 (own - set (hs @ xs))" "cells w1 = cells w" "next_arr w1 = next_arr w"
    "next_addr w1 = next_addr w" "\<And>c. c \<in> ?S - set (hs @ xs) \<Longrightarrow> nodes w1 c = nodes w c"
    by auto
  define w' where "w' = (case cachePeek b of None \<Rightarrow> fold free (caches b) w1 | Some c \<Rightarrow> free c (fold free (caches b) w1))"
  let ?b' = "b\<lparr>read := m, head := m, caches := [], cachePeek := None\<rparr>"
  have run: "lb_Release b w = Some (?b', w')"
    using x(3) w1(1) by (simp add: lb_Release_def w'_def split: option.splits)
  have w': "nodes w' = nodes w1" "cells w' = cells w" "next_arr w' = next_arr w"
    "next_addr w' = next_addr w" "pool w' = pool w1"
    using w1 by (simp_all add: w'_def fold_free split: option.splits)
  have wok: "world_ok w' (own - set (hs @ xs))"
    by (rule world_ok_cong [OF w1(2)]) (simp_all add: w' w1(4,5))
  have keep: "nodes w' c = nodes w c" if "c \<in> set (ys @ ws @ ts)" for c
    unfolding w'(1) by (rule w1(6)) (use R(5) x(1) that in auto)
  note cut = lb_rep_cut [OF i(1) x(1,2,5) refl]
  have still: "still w w' a" if "a \<in> set ([] @ ys @ ws @ ts)" for a
    using that lseg_dom [OF ylist, of a] keep [of a] by (intro still_eq) auto
  have mem: "same_mem w w'" by (simp add: same_mem_def w')
  note rep' = lb_rep_frame [OF cut(1) mem still]
  have at: "nd_at w' a = nd_at w a" if "a \<in> set (ys @ ws @ ts)" for a
    using keep [OF that] by (simp add: nd_at_def)
  have "ready w' (own - set (hs @ xs)) ?b' [] ys ws ts"
  proof -
    have "set ([] @ ys @ ws @ ts) \<subseteq> own - set (hs @ xs)" using i(5) R(5) x(1) by auto
    moreover have "\<forall>a\<in>set ([] @ ys @ ws @ ts). \<forall>r. origin (nd_at w' a) = Some r \<longrightarrow> r \<notin> set ([] @ ys @ ws @ ts)"
    proof (intro ballI allI impI)
      fix a r assume a: "a \<in> set ([] @ ys @ ws @ ts)" "origin (nd_at w' a) = Some r"
      then have "a \<in> ?S" "origin (nd_at w a) = Some r" using at [of a] x(1) by auto
      then have "r \<notin> ?S" using i(6) by blast
      then show "r \<notin> set ([] @ ys @ ws @ ts)" using x(1) by auto
    qed
    moreover have "\<forall>a\<in>set (tl (ws @ ts)). node_Len (nd_at w' a) = 0"
    proof
      fix a assume a: "a \<in> set (tl (ws @ ts))"
      then have "a \<in> set (ys @ ws @ ts)" using in_set_tlD [OF a] by simp
      then show "node_Len (nd_at w' a) = 0" using i(2) [OF a] at by simp
    qed
    moreover have "lb_rep w' ?b' [] ys ws ts" by (rule rep'(1))
    ultimately show ?thesis unfolding ready_def using wok by blast
  qed
  note rd' = this
  have "lb_inv w' (own - set (hs @ xs)) ?b'" "submitted w' ?b'"
    using rd' ready_iff [of w' "own - set (hs @ xs)" ?b'] by blast+
  moreover have "stream w' ?b' = stream w b"
  proof -
    have "pendings w' (ws @ ts) = pendings w (ws @ ts)"
      using still mem R(7) by (intro pendings_like) (auto simp: still_alike)
    moreover have "unreads w' (ys @ ws @ ts) = unreads w (rs @ ws @ ts)"
      using rep'(2) cut(2) by simp
    ultimately show ?thesis using readyD(7) [OF rd'] i(7) by simp
  qed
  moreover have "chain (next_addr w) (nodes w) (head b) = (hs @ xs) @ ys @ ws @ ts"
    using chain_rep [OF i(4) lb_rep_chain(3) [OF i(1)] R(5)] x(1) by simp
  moreover have "nodes w' a = nodes w a" if "write_n b = Some a" for a
    using R(4) that by (intro keep) (cases ts; simp)
  ultimately show thesis
    using run w'(2) by (intro that [of ?b' w' "hs @ xs"]) (auto simp: lb_Len_def)
qed



end
