(* ===== verification/LinkBufferLink.thy ===== *)
theory LinkBufferLink
  imports LinkBufferRelease
begin

section \<open>LinkBuffer: new nodes at the write end\<close>

text \<open>
  A node from the pool or the heap, linking it after the write node, and moving the write cursor
  along the chain: the steps every writing operation takes before it allocates bytes.
\<close>

subsection \<open>A new node\<close>

definition new_node :: "globals \<Rightarrow> int \<Rightarrow> world \<Rightarrow> node \<Rightarrow> bool" where
  "new_node g sz w nd \<longleftrightarrow>
     off nd = 0 \<and> malloc_n nd = 0 \<and> origin nd = None \<and> next_n nd = None \<and>
     (if sz \<le> 0 then buf nd = nil_slice \<and> \<not> writable nd
      else s_arr (buf nd) = next_arr w \<and> s_off (buf nd) = 0 \<and> s_len (buf nd) = 0 \<and>
           sz \<le> s_cap (buf nd) \<and> writable nd)"

lemma writable_fresh [simp]:
  "mode nd = 0 \<Longrightarrow> \<not> writable (setMode readonlyMask True nd)"
  "mode nd = 0 \<Longrightarrow> writable nd"
  by (simp_all add: writable_def getMode_def setMode_def readonlyMask_def)

lemma setMode_sel [simp]:
  "buf (setMode k e nd) = buf nd" "off (setMode k e nd) = off nd" "malloc_n (setMode k e nd) = malloc_n nd"
  "origin (setMode k e nd) = origin nd" "next_n (setMode k e nd) = next_n nd" "refer (setMode k e nd) = refer nd"
  by (simp_all add: setMode_def)

lemma linkedPool_Get_ok:
  assumes "world_ok w own"
  obtains x w1 nd where "linkedPool_Get w = (x, w1)" "nodes w1 x = Some nd" "buf nd = nil_slice"
    "origin nd = None" "next_n nd = None" "x \<notin> own" "\<And>a r. a \<in> own \<Longrightarrow> origin (nd_at w a) = Some r \<Longrightarrow> r \<noteq> x"
    "\<And>a. a \<noteq> x \<Longrightarrow> nodes w1 a = nodes w a" "x \<notin> set (pool w1)" "set (pool w1) = set (pool w) - {x}"
    "distinct (pool w1)" "next_addr w \<le> next_addr w1" "x < next_addr w1"
    "cells w1 = cells w" "next_arr w1 = next_arr w" "freed w1 = freed w"
proof (cases "pool w")
  case Nil
  let ?x = "next_addr w"
  let ?w = "w\<lparr>nodes := (nodes w)(?x \<mapsto> blank_node), next_addr := Suc ?x\<rparr>"
  have bd: "nodes w a \<noteq> None \<Longrightarrow> a < ?x" for a using assms by (simp add: world_ok_def)
  have own: "nodes w a \<noteq> None" if "a \<in> own" for a using assms that by (simp add: world_ok_def)
  have "?x \<notin> own" using bd own by blast
  moreover have "r \<noteq> ?x" if "a \<in> own" "origin (nd_at w a) = Some r" for a r
  proof -
    have "nodes w r \<noteq> None" using assms that by (simp add: world_ok_def)
    then show ?thesis using bd by blast
  qed
  ultimately show thesis
    by (rule that [of ?x ?w blank_node, rotated 5]) (simp_all add: linkedPool_Get_def Nil blank_node_def)
next
  case (Cons x as)
  have x: "x \<in> set (pool w)" using Cons by simp
  then obtain nd where nd: "nodes w x = Some nd" "buf nd = nil_slice" "origin nd = None" "next_n nd = None"
    using assms unfolding world_ok_def by blast
  have "x \<notin> own" "x < next_addr w" using assms x nd(1) unfolding world_ok_def by blast+
  moreover have "r \<noteq> x" if "a \<in> own" "origin (nd_at w a) = Some r" for a r
    using assms that x unfolding world_ok_def by blast
  moreover have "distinct (x # as)" using assms Cons by (simp add: world_ok_def)
  ultimately show thesis
    by (intro that [of x "w\<lparr>pool := as\<rparr>" nd]) (simp_all add: linkedPool_Get_def Cons nd)
qed

lemma world_ok_add:
  assumes ok: "world_ok w own" and x: "x \<notin> own" "\<And>a r. a \<in> own \<Longrightarrow> origin (nd_at w a) = Some r \<Longrightarrow> r \<noteq> x"
    and nd: "nodes w' x = Some nd" "origin nd = None" "refer nd = 1"
    and eq: "\<And>a. a \<noteq> x \<Longrightarrow> nodes w' a = nodes w a"
    and pool: "set (pool w') = set (pool w) - {x}" "distinct (pool w')"
    and nx: "next_addr w \<le> next_addr w'" "x < next_addr w'" "next_arr w \<le> next_arr w'"
  shows "world_ok w' (insert x own)"
proof -
  have at: "nd_at w' a = nd_at w a" if "a \<noteq> x" for a using eq [OF that] by (simp add: nd_at_def)
  have atx: "nd_at w' x = nd" using nd(1) by simp
  have own: "nodes w a \<noteq> None \<and> a \<notin> set (pool w)" if "a \<in> own" for a using ok that by (simp add: world_ok_def)
  have org: "nodes w r \<noteq> None \<and> r \<notin> set (pool w) \<and> origin (nd_at w r) = None"
    if "a \<in> own" "origin (nd_at w a) = Some r" for a r using ok that by (simp add: world_ok_def)
  have fin: "finite own" using ok by (simp add: world_ok_def)
  have cs: "{c \<in> insert x own. origin (nd_at w' c) = Some a} = {c \<in> own. origin (nd_at w c) = Some a}" for a
  proof -
    have "origin (nd_at w' c) = origin (nd_at w c)" if "c \<in> own" for c
      using at [of c] that x(1) by metis
    then show ?thesis using atx nd(2) by auto
  qed
  have refs: "refs w' (insert x own) a = (if a = x then 1 else refs w own a)" for a
  proof (cases "a = x")
    case True
    then have e: "{c \<in> own. origin (nd_at w c) = Some a} = {}" using x(2) by blast
    show ?thesis unfolding refs_def cs e using True by simp
  next
    case False
    then show ?thesis unfolding refs_def cs by simp
  qed
  have "\<forall>a. a \<notin> set (pool w') \<longrightarrow> int (refs w' (insert x own) a) \<le> refer (nd_at w' a) \<or> refs w' (insert x own) a = 0"
  proof (intro allI impI)
    fix a assume a: "a \<notin> set (pool w')"
    show "int (refs w' (insert x own) a) \<le> refer (nd_at w' a) \<or> refs w' (insert x own) a = 0"
    proof (cases "a = x")
      case False
      then have "a \<notin> set (pool w)" using a pool(1) by simp
      then show ?thesis using ok False at [OF False] by (simp add: refs world_ok_def)
    qed (simp add: refs atx nd(3))
  qed
  moreover have "\<forall>a\<in>set (pool w'). \<exists>nd. nodes w' a = Some nd \<and> buf nd = nil_slice \<and> origin nd = None \<and> next_n nd = None"
    using ok eq pool(1) by (auto simp: world_ok_def)
  moreover have "\<forall>a. nodes w' a \<noteq> None \<longrightarrow> a < next_addr w'"
  proof (intro allI impI)
    fix a assume "nodes w' a \<noteq> None"
    then show "a < next_addr w'" using ok eq [of a] nx by (cases "a = x") (auto simp: world_ok_def dest: less_le_trans)
  qed
  moreover have "\<forall>a\<in>insert x own. nodes w' a \<noteq> None \<and> a \<notin> set (pool w')"
    using own eq nd(1) pool(1) x(1) by (metis Diff_iff insertE insertI1 option.distinct(1) singletonD)
  moreover have "\<forall>a\<in>insert x own. \<forall>r. origin (nd_at w' a) = Some r \<longrightarrow>
      nodes w' r \<noteq> None \<and> r \<notin> set (pool w') \<and> origin (nd_at w' r) = None"
  proof (intro ballI allI impI)
    fix a r assume a: "a \<in> insert x own" "origin (nd_at w' a) = Some r"
    then have "a \<noteq> x" using atx nd(2) by auto
    then have ao: "a \<in> own" "origin (nd_at w a) = Some r" using a at by auto
    have "r \<noteq> x" by (rule x(2) [OF ao])
    then show "nodes w' r \<noteq> None \<and> r \<notin> set (pool w') \<and> origin (nd_at w' r) = None"
      using org [OF ao] eq at pool(1) by auto
  qed
  moreover have "0 < next_arr w'" using ok nx(3) by (simp add: world_ok_def)
  ultimately show ?thesis unfolding world_ok_def using fin pool(2) by blast
qed

lemma newLinkBufferNode_ok:
  assumes ok: "world_ok w own" and g: "mcache_ok g"
  obtains x w' nd where "newLinkBufferNode g sz w = Some (x, w')" "nodes w' x = Some nd" "new_node g sz w nd"
    "x \<notin> own" "world_ok w' (insert x own)" "\<And>a. a \<noteq> x \<Longrightarrow> nodes w' a = nodes w a"
    "cells w' = cells w" "next_arr w \<le> next_arr w'" "0 < sz \<Longrightarrow> next_arr w' = Suc (next_arr w)"
    "\<And>a r. a \<in> own \<Longrightarrow> origin (nd_at w a) = Some r \<Longrightarrow> r \<noteq> x"
proof -
  obtain x w1 nd where g1: "linkedPool_Get w = (x, w1)" "nodes w1 x = Some nd" "buf nd = nil_slice"
    "origin nd = None" "next_n nd = None" "x \<notin> own" "\<And>a r. a \<in> own \<Longrightarrow> origin (nd_at w a) = Some r \<Longrightarrow> r \<noteq> x"
    "\<And>a. a \<noteq> x \<Longrightarrow> nodes w1 a = nodes w a" "x \<notin> set (pool w1)" "set (pool w1) = set (pool w) - {x}"
    "distinct (pool w1)" "next_addr w \<le> next_addr w1" "x < next_addr w1"
    "cells w1 = cells w" "next_arr w1 = next_arr w" "freed w1 = freed w"
    by (rule linkedPool_Get_ok [OF ok]) blast
  define nd0 where "nd0 = nd\<lparr>off := 0, malloc_n := 0, refer := 1, mode := defaultLinkBufferMode\<rparr>"
  have nd0: "mode nd0 = 0" "origin nd0 = None" "next_n nd0 = None" "off nd0 = 0" "malloc_n nd0 = 0"
    "refer nd0 = 1" "buf nd0 = nil_slice"
    by (simp_all add: nd0_def g1 defaultLinkBufferMode_def)
  show thesis
  proof (cases "sz \<le> 0")
    case True
    let ?w' = "set_node x (setMode readonlyMask True nd0) w1"
    have run: "newLinkBufferNode g sz w = Some (x, ?w')"
      using True g1(1,2) by (simp add: newLinkBufferNode_def nd0_def)
    have "world_ok ?w' (insert x own)"
      by (rule world_ok_add [where nd = "setMode readonlyMask True nd0", OF ok g1(6,7)]) (use g1 nd0 in simp_all)
    then show thesis using True g1 nd0 run
      by (intro that [of x ?w' "setMode readonlyMask True nd0"]) (simp_all add: new_node_def)
  next
    case False
    define sz' where "sz' = (if sz < LinkBufferCap g then LinkBufferCap g else sz)"
    obtain b w2 where m: "malloc g 0 sz' w1 = (b, w2)" by fastforce
    have "sz \<le> sz'" "\<forall>c. c \<le> mcache_cap g c" using g by (auto simp: sz'_def mcache_ok_def)
    then have "sz \<le> s_cap b" using m by (auto simp: malloc_def new_array_def split: if_splits intro: order_trans)
    then have b: "s_arr b = next_arr w" "s_off b = 0" "s_len b = 0" "sz \<le> s_cap b" "next_arr w2 = Suc (next_arr w)"
      "w2 = w1\<lparr>next_arr := Suc (next_arr w1)\<rparr>"
      using m g1(15) by (auto simp: malloc_def new_array_def split: if_splits)
    let ?w' = "set_node x (nd0\<lparr>buf := b\<rparr>) w2"
    have run: "newLinkBufferNode g sz w = Some (x, ?w')"
      using False g1(1,2) m by (simp add: newLinkBufferNode_def nd0_def sz'_def [symmetric] Let_def)
    have "world_ok ?w' (insert x own)"
      by (rule world_ok_add [where nd = "nd0\<lparr>buf := b\<rparr>", OF ok g1(6,7)]) (use g1 nd0 b(6) in simp_all)
    then show thesis using False g1 nd0 run b
      by (intro that [of x ?w' "nd0\<lparr>buf := b\<rparr>"]) (simp_all add: new_node_def)
  qed
qed


subsection \<open>Moving and extending the write end of the chain\<close>

lemma world_ok_set:
  assumes ok: "world_ok w own" and a: "a \<in> own" and nd: "origin nd = origin (nd_at w a)" "refer nd = refer (nd_at w a)"
  shows "world_ok (set_node a nd w) own"
proof -
  have own: "nodes w a \<noteq> None" "a \<notin> set (pool w)" using ok a by (auto simp: world_ok_def)
  have like: "origin (nd_at (set_node a nd w) c) = origin (nd_at w c)"
    "refer (nd_at (set_node a nd w) c) = refer (nd_at w c)" for c
    by (simp_all add: nd_at_set_node nd)
  have dom: "nodes (set_node a nd w) c \<noteq> None \<longleftrightarrow> nodes w c \<noteq> None" for c using own(1) by simp
  have refs: "refs (set_node a nd w) own c = refs w own c" for c by (simp add: refs_def like)
  have pool: "\<forall>c\<in>set (pool w). \<exists>nd'. nodes (set_node a nd w) c = Some nd' \<and> buf nd' = nil_slice \<and>
      origin nd' = None \<and> next_n nd' = None"
    using ok own(2) by (auto simp: world_ok_def)
  have eq: "pool (set_node a nd w) = pool w" "next_addr (set_node a nd w) = next_addr w"
    "next_arr (set_node a nd w) = next_arr w" by simp_all
  show ?thesis unfolding world_ok_def like refs dom eq
    using ok pool unfolding world_ok_def by (elim conjE, intro conjI)
qed

lemma ready_move:
  assumes "ready w own b hs rs ws (wr # x # ts)"
  shows "ready w own (b\<lparr>write_n := Some x\<rparr>) hs rs (ws @ [wr]) (x # ts)"
proof -
  have rep: "lb_rep w b hs rs ws (wr # x # ts)" by (rule readyD(1) [OF assms])
  note R = lb_repD [OF rep]
  obtain nd where nd: "nodes w wr = Some nd" "next_n nd = Some x" "write_n b = Some wr"
    "lseg (nodes w) (Some x) (x # ts) None"
    using R(4) by (auto split: option.splits)
  have "lseg (nodes w) (flush b) (ws @ [wr]) (Some x)"
    unfolding lseg_append using R(3) nd by auto
  then have L: "lseg (nodes w) (flush (b\<lparr>write_n := Some x\<rparr>)) (ws @ [wr]) (write_n (b\<lparr>write_n := Some x\<rparr>))"
    "lseg (nodes w) (write_n (b\<lparr>write_n := Some x\<rparr>)) (x # ts) None"
    "lseg (nodes w) (head (b\<lparr>write_n := Some x\<rparr>)) hs (read (b\<lparr>write_n := Some x\<rparr>))"
    "lseg (nodes w) (read (b\<lparr>write_n := Some x\<rparr>)) rs (flush (b\<lparr>write_n := Some x\<rparr>))"
    using nd(4) R(1,2) by simp_all
  have e: "(ws @ [wr]) @ x # ts = ws @ wr # x # ts" by simp
  have sel: "length_b (b\<lparr>write_n := Some x\<rparr>) = length_b b" "mallocSize (b\<lparr>write_n := Some x\<rparr>) = mallocSize b"
    "cachePeek (b\<lparr>write_n := Some x\<rparr>) = cachePeek b" by simp_all
  have T: "\<forall>a\<in>set (tl (x # ts)). off (nd_at w a) = 0 \<and> s_len (buf (nd_at w a)) = 0 \<and> malloc_n (nd_at w a) = 0"
    using R(9) by simp
  have "lb_rep w (b\<lparr>write_n := Some x\<rparr>) hs rs (ws @ [wr]) (x # ts)"
    unfolding lb_rep_def e sel using L T rep unfolding lb_rep_def by blast
  then show ?thesis using assms unfolding ready_def e by blast
qed

text \<open>Facts that only concern the bytes and sizes of nodes, for a change of \<^verbatim>\<open>next\<close> pointers.\<close>

definition same_data :: "world \<Rightarrow> world \<Rightarrow> addr \<Rightarrow> bool" where
  "same_data w w' a \<longleftrightarrow> (\<exists>p. nd_at w' a = (nd_at w a)\<lparr>next_n := p\<rparr>)"

lemma node_next_upd [simp]:
  "unread m (nd\<lparr>next_n := p\<rparr>) = unread m nd" "pend_win (nd\<lparr>next_n := p\<rparr>) = pend_win nd"
  "pend_len (nd\<lparr>next_n := p\<rparr>) = pend_len nd" "node_Len (nd\<lparr>next_n := p\<rparr>) = node_Len nd"
  "writable (nd\<lparr>next_n := p\<rparr>) = writable nd" "node_ok (nd\<lparr>next_n := p\<rparr>) = node_ok nd"
  "apart (nd\<lparr>next_n := p\<rparr>) c = apart nd c" "apart c (nd\<lparr>next_n := p\<rparr>) = apart c nd"
  by (simp_all add: unread_def pend_win_def pend_len_def node_Len_def writable_def getMode_def node_ok_def apart_def)

lemma same_data_node:
  assumes "same_data w w' a" "cells w' = cells w"
  shows "unread w' (nd_at w' a) = unread w (nd_at w a)" "node_Len (nd_at w' a) = node_Len (nd_at w a)"
    "slice_bytes w' (pend_win (nd_at w' a)) = slice_bytes w (pend_win (nd_at w a))"
    "pend_len (nd_at w' a) = pend_len (nd_at w a)"
proof -
  obtain p where p: "nd_at w' a = (nd_at w a)\<lparr>next_n := p\<rparr>" using assms(1) by (auto simp: same_data_def)
  have "unread w' nd = unread w nd" for nd using assms(2) by (simp add: unread_def slice_bytes_def)
  moreover have "slice_bytes w' x = slice_bytes w x" for x using assms(2) by (simp add: slice_bytes_def)
  ultimately show "unread w' (nd_at w' a) = unread w (nd_at w a)" "node_Len (nd_at w' a) = node_Len (nd_at w a)"
    "slice_bytes w' (pend_win (nd_at w' a)) = slice_bytes w (pend_win (nd_at w a))"
    "pend_len (nd_at w' a) = pend_len (nd_at w a)" by (simp_all add: p)
qed

lemma same_data_seqs:
  assumes "\<And>a. a \<in> set as \<Longrightarrow> same_data w w' a" "cells w' = cells w"
  shows "unreads w' as = unreads w as" "pendings w' as = pendings w as" "lens w' as = lens w as"
    "pends w' as = pends w as"
  using assms(1) by (induction as) (simp_all add: same_data_node [OF _ assms(2)])

lemma new_node_facts:
  assumes "new_node g sz w nd"
  shows "node_ok nd" "unread m nd = []" "slice_bytes m (pend_win nd) = []" "node_Len nd = 0" "pend_len nd = 0"
    "off nd = 0" "s_len (buf nd) = 0" "malloc_n nd = 0" "origin nd = None" "next_n nd = None"
  using assms
  by (auto simp: new_node_def node_ok_def unread_def slice_bytes_def pend_win_def node_Len_def pend_len_def
      nil_slice_def split: if_splits)

lemma new_node_apart:
  assumes "new_node g sz w nd" "node_ok c" "s_arr (buf c) < next_arr w"
  shows "apart nd c" "apart c nd"
  using assms by (auto simp: new_node_def apart_def node_ok_def nil_slice_def split: if_splits)

lemma ready_link:
  assumes rd: "ready w own b hs rs ws (wr # ts)" and x: "x \<notin> own" "\<And>a r. a \<in> own \<Longrightarrow> origin (nd_at w a) = Some r \<Longrightarrow> r \<noteq> x"
    and wok: "world_ok w' (insert x own)"
    and nd: "nodes w' x = Some nd" "new_node g sz w nd"
    and wr: "nodes w' wr = Some ((nd_at w wr)\<lparr>next_n := Some x\<rparr>)"
    and eq: "\<And>a. a \<noteq> x \<Longrightarrow> a \<noteq> wr \<Longrightarrow> nodes w' a = nodes w a"
    and mem: "cells w' = cells w" "next_arr w \<le> next_arr w'" "0 < sz \<Longrightarrow> next_arr w' = Suc (next_arr w)"
  shows "ready w' (insert x own) (b\<lparr>write_n := Some x\<rparr>) hs rs (ws @ [wr]) [x]"
    and "unreads w' (rs @ ws @ [wr, x]) = unreads w (rs @ ws @ wr # ts)"
    and "pendings w' (ws @ [wr, x]) = pendings w (ws @ wr # ts)"
proof -
  note i = readyD [OF rd] and R = lb_repD [OF readyD(1) [OF rd]] and N = new_node_facts [OF nd(2)]
  let ?S = "hs @ rs @ ws @ [wr]" and ?T = "hs @ rs @ ws @ wr # ts"
  have xS: "x \<notin> set ?S" using i(5) x(1) by auto
  have ST: "a \<in> set ?T" if "a \<in> set ?S" for a using that by auto
  have tz: "unreads w ts = []" "pendings w ts = []" "lens w ts = 0" "pends w ts = 0"
  proof -
    have z: "unread w (nd_at w a) = []" "slice_bytes w (pend_win (nd_at w a)) = []" "node_Len (nd_at w a) = 0"
      "pend_len (nd_at w a) = 0" if "a \<in> set ts" for a
      using R(9) [of a] that by (auto simp: unread_def slice_bytes_def pend_win_def node_Len_def pend_len_def)
    show "unreads w ts = []" "pendings w ts = []" "lens w ts = 0" "pends w ts = 0"
      using z by (auto simp: unreads_def pendings_def lens_def pends_def intro!: sum_list_map_eq_0)
  qed
  have xwr: "x \<noteq> wr" and wrS: "wr \<in> set ?S" using xS by auto
  have atx: "nd_at w' x = nd" and atw: "nd_at w' wr = (nd_at w wr)\<lparr>next_n := Some x\<rparr>"
    using nd(1) wr by simp_all
  have at: "nd_at w' a = nd_at w a" if "a \<noteq> x" "a \<noteq> wr" for a using eq [OF that] by (simp add: nd_at_def)
  have sd: "same_data w w' a" if "a \<in> set ?S" for a
  proof (cases "a = wr")
    case False
    then have "nd_at w' a = nd_at w a" using at that xS by metis
    then show ?thesis unfolding same_data_def by (intro exI [of _ "next_n (nd_at w a)"]) simp
  qed (simp add: same_data_def atw exI)
  have seqs: "unreads w' as = unreads w as" "pendings w' as = pendings w as" "lens w' as = lens w as"
    "pends w' as = pends w as" if "set as \<subseteq> set ?S" for as
    by (rule same_data_seqs; use that sd mem(1) in blast)+
  have S1: "set (rs @ ws @ [wr]) \<subseteq> set ?S" and S2: "set (ws @ [wr]) \<subseteq> set ?S" by auto
  show U: "unreads w' (rs @ ws @ [wr, x]) = unreads w (rs @ ws @ wr # ts)"
    using seqs(1) [OF S1] by (simp add: atx N(2) tz)
  show P: "pendings w' (ws @ [wr, x]) = pendings w (ws @ wr # ts)"
    using seqs(2) [OF S2] by (simp add: atx N(3) tz)
  have L: "lseg (nodes w') p as q = lseg (nodes w) p as q" if "set as \<subseteq> set ?S - {wr}" for p as q
  proof (rule lseg_cong)
    fix a assume "a \<in> set as"
    then have "a \<noteq> x" "a \<noteq> wr" using that xS by blast+
    then show "map_option next_n (nodes w' a) = map_option next_n (nodes w a)" using eq by simp
  qed
  have dist: "wr \<notin> set (hs @ rs @ ws)" using R(5) by auto
  have sub: "set hs \<subseteq> set ?S - {wr}" "set rs \<subseteq> set ?S - {wr}" "set ws \<subseteq> set ?S - {wr}" using dist by auto
  have wn: "write_n b = Some wr" using R(4) by simp
  have Ls: "lseg (nodes w') (head b) hs (read b)" "lseg (nodes w') (read b) rs (flush b)"
    "lseg (nodes w') (flush b) (ws @ [wr]) (Some x)" "lseg (nodes w') (Some x) [x] None"
    using R(1-3) L sub wr nd(1) N(10) wn unfolding lseg_append by auto
  have ok: "node_ok (nd_at w' a) \<and> s_arr (buf (nd_at w' a)) < next_arr w'" if "a \<in> set (?S @ [x])" for a
  proof (cases "a = x")
    case True
    have "s_arr (buf nd) < next_arr w'"
    proof (cases "sz \<le> 0")
      case True
      then show ?thesis using nd(2) i(3) mem(2) by (simp add: new_node_def nil_slice_def world_ok_def)
    qed (use nd(2) mem(3) in \<open>simp add: new_node_def\<close>)
    with True show ?thesis by (simp add: atx N)
  next
    case False
    then have a: "a \<in> set ?S" using that by auto
    then obtain p where "nd_at w' a = (nd_at w a)\<lparr>next_n := p\<rparr>" using sd by (auto simp: same_data_def)
    then show ?thesis using R(6,7) [OF ST [OF a]] mem(2) by simp
  qed
  have rs0: "pend_len (nd_at w' a) = 0" if "a \<in> set rs" for a
  proof -
    have "a \<noteq> x" "a \<noteq> wr" using that xS dist by auto
    then show ?thesis using R(8) [OF that] at by simp
  qed
  have ap: "apart (nd_at w' a) (nd_at w' c)"
    if ac: "a \<in> set (rs @ (ws @ [wr]) @ [x])" "c \<in> set (rs @ (ws @ [wr]) @ [x])" "a \<noteq> c" for a c
  proof -
    have S: "a' \<in> set ?S" "a' \<in> set (rs @ ws @ [wr])"
      if "a' \<in> set (rs @ (ws @ [wr]) @ [x])" "a' \<noteq> x" for a' using that by auto
    have old: "\<exists>p. nd_at w' a' = (nd_at w a')\<lparr>next_n := p\<rparr>"
      if "a' \<in> set (rs @ (ws @ [wr]) @ [x])" "a' \<noteq> x" for a' using sd [OF S(1) [OF that]] by (simp add: same_data_def)
    have nw: "apart nd (nd_at w' a')" "apart (nd_at w' a') nd"
      if "a' \<in> set (rs @ (ws @ [wr]) @ [x])" "a' \<noteq> x" for a'
      using old [OF that] new_node_apart [OF nd(2) R(6,7) [OF ST [OF S(1) [OF that]]]] by auto
    show ?thesis
    proof (cases "a = x \<or> c = x")
      case True
      then show ?thesis
      proof
        assume "a = x"
        then show ?thesis using nw(1) [OF ac(2)] ac(3) by (simp add: atx)
      next
        assume "c = x"
        then show ?thesis using nw(2) [OF ac(1)] ac(3) by (simp add: atx)
      qed
    next
      case False
      then have f: "a \<noteq> x" "c \<noteq> x" by auto
      obtain p q where "nd_at w' a = (nd_at w a)\<lparr>next_n := p\<rparr>" "nd_at w' c = (nd_at w c)\<lparr>next_n := q\<rparr>"
        using old [OF ac(1) f(1)] old [OF ac(2) f(2)] by blast
      moreover have "a \<in> set (rs @ ws @ wr # ts)" "c \<in> set (rs @ ws @ wr # ts)"
        using S(2) [OF ac(1) f(1)] S(2) [OF ac(2) f(2)] by auto
      ultimately show ?thesis using R(10) [of a c] ac(3) by simp
    qed
  qed
  have pk: "peek_ok w' (rs @ (ws @ [wr]) @ [x]) (unreads w' (rs @ take 1 ((ws @ [wr]) @ [x]))) (cachePeek b)"
  proof (cases "cachePeek b")
    case (Some c)
    have hd1: "take 1 ((ws @ [wr]) @ [x]) = take 1 (ws @ [wr])" by (cases ws) auto
    have hd2: "take 1 (ws @ wr # ts) = take 1 (ws @ [wr])" by (cases ws) auto
    have "set (rs @ take 1 (ws @ [wr])) \<subseteq> set ?S" using set_take_subset [of 1 "ws @ [wr]"] by auto
    then have u: "unreads w' (rs @ take 1 ((ws @ [wr]) @ [x])) = unreads w (rs @ take 1 (ws @ [wr]))"
      unfolding hd1 by (rule seqs(1))
    have o: "0 \<le> s_len c" "s_len c \<le> s_cap c" "0 < s_arr c" "s_arr c < next_arr w"
      "\<And>a. a \<in> set (rs @ ws @ [wr]) \<Longrightarrow> s_arr (buf (nd_at w a)) \<noteq> s_arr c"
      "slice_bytes w c = take (nat (s_len c)) (unreads w (rs @ take 1 (ws @ [wr])))"
      using R(13) Some unfolding peek_ok_def hd2 by auto
    have "s_arr (buf (nd_at w' a)) \<noteq> s_arr c" if a: "a \<in> set (rs @ (ws @ [wr]) @ [x])" for a
    proof (cases "a = x")
      case True
      then show ?thesis using nd(2) o(3,4) unfolding True atx by (auto simp: new_node_def nil_slice_def split: if_splits)
    next
      case False
      then have a': "a \<in> set (rs @ ws @ [wr])" using a by auto
      then have "a \<in> set ?S" by auto
      then obtain p where "nd_at w' a = (nd_at w a)\<lparr>next_n := p\<rparr>" using sd by (auto simp: same_data_def)
      then show ?thesis using o(5) [OF a'] by simp
    qed
    moreover have "slice_bytes w' c = slice_bytes w c" using mem(1) by (simp add: slice_bytes_def)
    ultimately show ?thesis unfolding peek_ok_def Some u using o(1-4,6) mem(2) by simp
  qed (simp add: peek_ok_def)
  have len: "length_b b = lens w' (rs @ (ws @ [wr]) @ [x])" "mallocSize b = pends w' ((ws @ [wr]) @ [x])"
    using R(11,12) seqs(3) [OF S1] seqs(4) [OF S2] by (simp_all add: atx N(4,5) tz)
  have rep: "lb_rep w' (b\<lparr>write_n := Some x\<rparr>) hs rs (ws @ [wr]) [x]"
  proof -
    have "distinct (hs @ rs @ (ws @ [wr]) @ [x])" using R(5) xS by auto
    then show ?thesis unfolding lb_rep_def using Ls ok rs0 ap len pk by simp
  qed
  show "ready w' (insert x own) (b\<lparr>write_n := Some x\<rparr>) hs rs (ws @ [wr]) [x]"
  proof -
    have e: "hs @ rs @ (ws @ [wr]) @ [x] = ?S @ [x]" by simp
    have own: "set (?S @ [x]) \<subseteq> insert x own" using i(5) by auto
    have org: "\<forall>a\<in>set (?S @ [x]). \<forall>r. origin (nd_at w' a) = Some r \<longrightarrow> r \<notin> set (?S @ [x])"
    proof (intro ballI allI impI)
      fix a r assume a: "a \<in> set (?S @ [x])" "origin (nd_at w' a) = Some r"
      then have "a \<noteq> x" using N(9) atx by auto
      then have aS: "a \<in> set ?S" using a(1) by auto
      then have o: "origin (nd_at w a) = Some r" using sd [OF aS] a(2) by (auto simp: same_data_def)
      then have "r \<notin> set ?T" using i(6) ST [OF aS] by blast
      then have "r \<notin> set ?S" by auto
      moreover have "r \<noteq> x" using x(2) [OF _ o] i(5) ST [OF aS] by blast
      ultimately show "r \<notin> set (?S @ [x])" by simp
    qed
    have tl0: "\<forall>a\<in>set (tl ((ws @ [wr]) @ [x])). node_Len (nd_at w' a) = 0"
    proof
      fix a assume a: "a \<in> set (tl ((ws @ [wr]) @ [x]))"
      show "node_Len (nd_at w' a) = 0"
      proof (cases "a = x")
        case False
        then have t: "a \<in> set (tl (ws @ [wr]))" using a by (cases ws) auto
        then have "a \<in> set ?S" using in_set_tlD [OF t] by auto
        moreover have "a \<in> set (tl (ws @ wr # ts))" using t by (cases ws) auto
        ultimately show ?thesis using i(2) [of a] same_data_node(2) [OF sd mem(1)] by simp
      qed (simp add: atx N(4))
    qed
    show ?thesis unfolding ready_def e using wok rep own org tl0 by blast
  qed
qed


lemma append_node_ok:
  assumes rd: "ready w own b hs rs ws (wr # ts)" and g: "mcache_ok g"
  obtains x w' where "append_node g sz b w = Some (b\<lparr>write_n := Some x\<rparr>, w')"
    "ready w' (insert x own) (b\<lparr>write_n := Some x\<rparr>) hs rs (ws @ [wr]) [x]"
    "unreads w' (rs @ ws @ [wr, x]) = unreads w (rs @ ws @ wr # ts)"
    "pendings w' (ws @ [wr, x]) = pendings w (ws @ wr # ts)"
    "new_node g sz w (nd_at w' x)" "cells w' = cells w" "next_arr w \<le> next_arr w'" "x \<notin> own"
    "\<And>a. a \<noteq> x \<Longrightarrow> a \<noteq> wr \<Longrightarrow> nodes w' a = nodes w a"
    "\<And>a. a \<noteq> x \<Longrightarrow> buf (nd_at w' a) = buf (nd_at w a)"
proof -
  note i = readyD [OF rd]
  have wn: "write_n b = Some wr" using lb_repD(4) [OF i(1)] by simp
  have wrown: "wr \<in> own" using i(5) by auto
  obtain x w1 nd where n: "newLinkBufferNode g sz w = Some (x, w1)" "nodes w1 x = Some nd" "new_node g sz w nd"
    "x \<notin> own" "world_ok w1 (insert x own)" "\<And>a. a \<noteq> x \<Longrightarrow> nodes w1 a = nodes w a"
    "cells w1 = cells w" "next_arr w \<le> next_arr w1" "0 < sz \<Longrightarrow> next_arr w1 = Suc (next_arr w)"
    "\<And>a r. a \<in> own \<Longrightarrow> origin (nd_at w a) = Some r \<Longrightarrow> r \<noteq> x"
    by (rule newLinkBufferNode_ok [OF i(3) g]) blast
  have xw: "wr \<noteq> x" using n(4) wrown by blast
  obtain old where old: "nodes w wr = Some old" using lb_repD(4) [OF i(1)] by (auto split: option.splits)
  have at: "nd_at w wr = old" "nd_at w1 wr = old" using old n(6) [OF xw] by simp_all
  let ?w' = "set_node wr (old\<lparr>next_n := Some x\<rparr>) w1"
  have run: "append_node g sz b w = Some (b\<lparr>write_n := Some x\<rparr>, ?w')"
    using wn n(1) n(6) [OF xw] old by (simp add: append_node_def upd_node_def)
  have wok: "world_ok ?w' (insert x own)"
    by (rule world_ok_set [OF n(5)]) (use wrown at in simp_all)
  have x': "nodes ?w' x = Some nd" "nodes ?w' wr = Some ((nd_at w wr)\<lparr>next_n := Some x\<rparr>)"
    using n(2) xw at by simp_all
  have eq: "nodes ?w' a = nodes w a" if "a \<noteq> x" "a \<noteq> wr" for a using n(6) [OF that(1)] that by simp
  have mem: "cells ?w' = cells w" "next_arr w \<le> next_arr ?w'" "0 < sz \<Longrightarrow> next_arr ?w' = Suc (next_arr w)"
    using n(7-9) by simp_all
  have L: "ready ?w' (insert x own) (b\<lparr>write_n := Some x\<rparr>) hs rs (ws @ [wr]) [x]"
    "unreads ?w' (rs @ ws @ [wr, x]) = unreads w (rs @ ws @ wr # ts)"
    "pendings ?w' (ws @ [wr, x]) = pendings w (ws @ wr # ts)"
    by (rule ready_link [OF rd n(4) _ wok x'(1) n(3) x'(2) _ mem(1,2)]; use n(10) eq mem(3) in blast)+
  have "new_node g sz w (nd_at ?w' x)" using n(3) x'(1) by simp
  note fin = that [OF run L this mem(1,2) n(4)]
  have "buf (nd_at ?w' a) = buf (nd_at w a)" if "a \<noteq> x" for a
    using n(6) [OF that] at by (cases "a = wr") (simp_all add: nd_at_def)
  with fin show thesis using eq by blast
qed

end
