(* ===== verification/LinkBufferWrite.thy ===== *)
theory LinkBufferWrite
  imports LinkBufferLink
begin

section \<open>LinkBuffer: allocating, filling and submitting bytes\<close>

text \<open>
  \<^verbatim>\<open>Malloc\<close> hands out a window at the write end; whatever is stored there later becomes the end
  of the stream and touches nothing else (\<open>ready_fill\<close>). \<^verbatim>\<open>Flush\<close> makes the pending bytes readable
  without changing the stream.
\<close>

subsection \<open>Filling the write node\<close>

definition malloc_win :: "int \<Rightarrow> node \<Rightarrow> slice" where
  "malloc_win n nd = \<lparr>s_arr = s_arr (buf nd), s_off = s_off (buf nd) + malloc_n nd, s_len = n, s_cap = n\<rparr>"

text \<open>Two memories that differ only inside a window.\<close>

definition only_in :: "slice \<Rightarrow> 'a memory_scheme \<Rightarrow> 'b memory_scheme \<Rightarrow> bool" where
  "only_in s m m' \<longleftrightarrow>
     (\<forall>x i. \<not> (x = s_arr s \<and> s_off s \<le> i \<and> i < s_off s + s_len s) \<longrightarrow> cells m' x i = cells m x i)"

lemma only_in_refl [simp]: "only_in s m m"
  by (simp add: only_in_def)

lemma only_in_store: "int (length bs) \<le> s_len s \<Longrightarrow> only_in s m (store_bytes s bs m)"
  by (auto simp: only_in_def store_bytes_def)

lemma only_in_slice:
  "only_in s m m' \<Longrightarrow> s_arr t \<noteq> s_arr s \<or> s_off t + s_len t \<le> s_off s \<Longrightarrow> slice_bytes m' t = slice_bytes m t"
  by (rule slice_bytes_cong) (auto simp: only_in_def)

lemma only_in_node:
  assumes "only_in (malloc_win n nd) m m'" "apart nd c" "writable nd" "node_ok c"
  shows "unread m' c = unread m c" "slice_bytes m' (pend_win c) = slice_bytes m (pend_win c)"
proof -
  have a: "s_arr (buf c) \<noteq> s_arr (buf nd) \<or>
      s_off (buf c) + max (s_len (buf c)) (malloc_n c) \<le> s_off (buf nd) + malloc_n nd"
    using assms(2,3) by (auto simp: apart_def)
  have "slice_bytes m' (buf c) = slice_bytes m (buf c)"
    by (rule only_in_slice [OF assms(1)]) (use a in \<open>auto simp: malloc_win_def\<close>)
  then show "unread m' c = unread m c" by (simp add: unread_def)
  show "slice_bytes m' (pend_win c) = slice_bytes m (pend_win c)"
    by (rule only_in_slice [OF assms(1)]) (use a in \<open>auto simp: malloc_win_def pend_win_def\<close>)
qed

lemma only_in_self:
  assumes "only_in (malloc_win n nd) m m'" "writable nd" "node_ok nd" "0 \<le> n"
  shows "unread m' (nd\<lparr>malloc_n := malloc_n nd + n\<rparr>) = unread m nd"
    "slice_bytes m' (pend_win (nd\<lparr>malloc_n := malloc_n nd + n\<rparr>)) =
       slice_bytes m (pend_win nd) @ slice_bytes m' (malloc_win n nd)"
proof -
  have le: "s_len (buf nd) \<le> malloc_n nd" using assms(2,3) by (simp add: node_ok_def)
  have "slice_bytes m' (buf nd) = slice_bytes m (buf nd)"
    by (rule only_in_slice [OF assms(1)]) (use le in \<open>simp add: malloc_win_def\<close>)
  then show "unread m' (nd\<lparr>malloc_n := malloc_n nd + n\<rparr>) = unread m nd" by (simp add: unread_def)
  have old: "slice_bytes m' (pend_win nd) = slice_bytes m (pend_win nd)"
    by (rule only_in_slice [OF assms(1)]) (simp add: malloc_win_def pend_win_def)
  have "slice_bytes m' (pend_win (nd\<lparr>malloc_n := malloc_n nd + n\<rparr>)) =
      slice_bytes m' (pend_win nd) @ slice_bytes m' (malloc_win n nd)"
    using le assms(4)
    by (intro nth_equalityI)
       (auto simp: nth_slice_bytes nth_append pend_win_def malloc_win_def nat_diff_distrib intro!: arg_cong2 [of _ _ _ _ "cells m'"])
  with old show "slice_bytes m' (pend_win (nd\<lparr>malloc_n := malloc_n nd + n\<rparr>)) =
       slice_bytes m (pend_win nd) @ slice_bytes m' (malloc_win n nd)" by simp
qed


lemma seqs_cong:
  assumes "\<And>a. a \<in> set as \<Longrightarrow> unread w' (nd_at w' a) = unread w (nd_at w a)"
  shows "unreads w' as = unreads w as"
  using assms by (induction as) auto

lemma pendings_cong:
  assumes "\<And>a. a \<in> set as \<Longrightarrow> slice_bytes w' (pend_win (nd_at w' a)) = slice_bytes w (pend_win (nd_at w a))"
  shows "pendings w' as = pendings w as"
  using assms by (induction as) auto

lemma ready_fill:
  assumes rd: "ready w own b hs rs ws (wr # ts)" and wrt: "writable (nd_at w wr)"
    and n: "0 \<le> n" "malloc_n (nd_at w wr) + n \<le> s_cap (buf (nd_at w wr))"
    and nodes: "nodes w' = (nodes w)(wr \<mapsto> (nd_at w wr)\<lparr>malloc_n := malloc_n (nd_at w wr) + n\<rparr>)"
    and rest: "next_arr w' = next_arr w" "next_addr w' = next_addr w" "pool w' = pool w"
    and mem: "only_in (malloc_win n (nd_at w wr)) w w'"
  shows "ready w' own (b\<lparr>mallocSize := mallocSize b + n\<rparr>) hs rs ws (wr # ts)"
    and "unreads w' (rs @ ws @ wr # ts) = unreads w (rs @ ws @ wr # ts)"
    and "pendings w' (ws @ wr # ts) = pendings w (ws @ wr # ts) @ slice_bytes w' (malloc_win n (nd_at w wr))"
proof -
  note i = readyD [OF rd] and R = lb_repD [OF readyD(1) [OF rd]]
  let ?S = "hs @ rs @ ws @ wr # ts"
  obtain nd where nd: "nd_at w wr = nd" by blast
  let ?nd = "nd\<lparr>malloc_n := malloc_n nd + n\<rparr>"
  have at: "nd_at w' a = (if a = wr then ?nd else nd_at w a)" for a by (simp add: nd_at_def nodes nd [unfolded nd_at_def])
  have wrS: "wr \<in> set ?S" and dist: "wr \<notin> set (hs @ rs @ ws @ ts)" using R(5) by auto
  have ok: "node_ok nd" "writable nd" using R(6) [OF wrS] wrt nd by simp_all
  have self: "unread w' ?nd = unread w nd"
    "slice_bytes w' (pend_win ?nd) = slice_bytes w (pend_win nd) @ slice_bytes w' (malloc_win n nd)"
    using only_in_self [OF mem [unfolded nd] ok(2,1) n(1)] by blast+
  have other: "unread w' (nd_at w c) = unread w (nd_at w c)"
    "slice_bytes w' (pend_win (nd_at w c)) = slice_bytes w (pend_win (nd_at w c))"
    if "c \<in> set (rs @ ws @ ts)" for c
  proof -
    have c: "c \<in> set (rs @ ws @ wr # ts)" "wr \<in> set (rs @ ws @ wr # ts)" "wr \<noteq> c" "c \<in> set ?S"
      using that dist by auto
    then have "apart nd (nd_at w c)" using R(10) [OF c(2,1,3)] nd by simp
    then show "unread w' (nd_at w c) = unread w (nd_at w c)"
      "slice_bytes w' (pend_win (nd_at w c)) = slice_bytes w (pend_win (nd_at w c))"
      using only_in_node [OF mem [unfolded nd] _ ok(2) R(6) [OF c(4)]] by blast+
  qed
  have U: "unreads w' as = unreads w as" if "set as \<subseteq> set (rs @ ws @ wr # ts)" for as
  proof (rule seqs_cong)
    fix a assume "a \<in> set as"
    then have "a \<in> set (rs @ ws @ wr # ts)" using that by blast
    then show "unread w' (nd_at w' a) = unread w (nd_at w a)"
      using other(1) [of a] self(1) by (cases "a = wr") (auto simp: at nd)
  qed
  show Uall: "unreads w' (rs @ ws @ wr # ts) = unreads w (rs @ ws @ wr # ts)" by (rule U) simp
  have Pws: "pendings w' ws = pendings w ws"
    by (rule pendings_cong) (use other(2) dist in \<open>auto simp: at\<close>)
  have Pts: "pendings w' ts = []" "pendings w ts = []"
    using R(9) dist by (auto simp: at pendings_def pend_win_def slice_bytes_def)
  show P: "pendings w' (ws @ wr # ts) = pendings w (ws @ wr # ts) @ slice_bytes w' (malloc_win n (nd_at w wr))"
    using Pws Pts self(2) by (simp add: at nd)
  have wok: "world_ok w' own"
  proof (rule world_ok_cong)
    show "world_ok (set_node wr ?nd w) own" by (rule world_ok_set [OF i(3)]) (use i(5) nd in auto)
  qed (use rest nodes nd in simp_all)
  have L: "lseg (nodes w') p as q = lseg (nodes w) p as q" for p as q
  proof (rule lseg_cong)
    fix a
    obtain old where "nodes w wr = Some old" using lb_repD(4) [OF i(1)] by (auto split: option.splits)
    then show "map_option next_n (nodes w' a) = map_option next_n (nodes w a)" by (simp add: nodes)
  qed
  have N: "node_ok (nd_at w' a) \<and> s_arr (buf (nd_at w' a)) < next_arr w'" if "a \<in> set ?S" for a
    using R(6,7) [OF that] n nd rest(1) by (auto simp: at node_ok_def writable_def getMode_def)
  have wrb: "writable ?nd" using ok(2) by (simp add: writable_def getMode_def)
  have A: "apart (nd_at w' a) (nd_at w' c)"
    if ac: "a \<in> set (rs @ ws @ wr # ts)" "c \<in> set (rs @ ws @ wr # ts)" "a \<noteq> c" for a c
    using R(10) [OF ac] ok(2) wrb n(1) nd ac(3) by (auto simp: at apart_def)
  have ln: "lens w' as = lens w as" for as
    by (induction as) (auto simp: at node_Len_def nd)
  have pn: "pends w' (ws @ wr # ts) = pends w (ws @ wr # ts) + n"
  proof -
    have "int (length (pendings w' (ws @ wr # ts))) = int (length (pendings w (ws @ wr # ts))) + n"
      unfolding P length_append using n(1) by (simp add: malloc_win_def del: seq_simps)
    then show ?thesis unfolding length_pendings .
  qed
  have T: "off (nd_at w' a) = 0 \<and> s_len (buf (nd_at w' a)) = 0 \<and> malloc_n (nd_at w' a) = 0"
    if "a \<in> set (tl (wr # ts))" for a
    using R(9) [OF that] dist that by (auto simp: at)
  have pk: "peek_ok w' (rs @ ws @ wr # ts) (unreads w' (rs @ take 1 (ws @ wr # ts))) (cachePeek b)"
  proof -
    have sub: "set (rs @ take 1 (ws @ wr # ts)) \<subseteq> set (rs @ ws @ wr # ts)"
      using set_take_subset [of 1 "ws @ wr # ts"] by auto
    have bu: "buf (nd_at w' a) = buf (nd_at w a)" for a by (simp add: at nd)
    have sl: "slice_bytes w' c = slice_bytes w c" if "cachePeek b = Some c" for c
    proof (rule only_in_slice [OF mem])
      have "s_arr (buf (nd_at w wr)) \<noteq> s_arr c" using R(13) that by (simp add: peek_ok_def)
      then show "s_arr c \<noteq> s_arr (malloc_win n (nd_at w wr)) \<or>
        s_off c + s_len c \<le> s_off (malloc_win n (nd_at w wr))" by (simp add: malloc_win_def)
    qed
    show ?thesis using R(13) sl unfolding U [OF sub] peek_ok_def bu rest(1) by (cases "cachePeek b") simp_all
  qed
  have rs0: "pend_len (nd_at w' a) = 0" if "a \<in> set rs" for a using R(8) [OF that] dist that by (auto simp: at)
  have rep: "lb_rep w' (b\<lparr>mallocSize := mallocSize b + n\<rparr>) hs rs ws (wr # ts)"
  proof -
    let ?b = "b\<lparr>mallocSize := mallocSize b + n\<rparr>"
    have "length_b ?b = lens w' (rs @ ws @ wr # ts)" "mallocSize ?b = pends w' (ws @ wr # ts)"
      "peek_ok w' (rs @ ws @ wr # ts) (unreads w' (rs @ take 1 (ws @ wr # ts))) (cachePeek ?b)"
      using R(11,12) pn pk unfolding ln by (simp_all del: seq_simps)
    moreover have "lseg (nodes w') (head ?b) hs (read ?b)" "lseg (nodes w') (read ?b) rs (flush ?b)"
      "lseg (nodes w') (flush ?b) ws (write_n ?b)" "lseg (nodes w') (write_n ?b) (wr # ts) None"
      unfolding L using R(1-4) by simp_all
    ultimately show ?thesis unfolding lb_rep_def using R(5) N rs0 T A by blast
  qed
  have org: "origin (nd_at w' a) = origin (nd_at w a)" for a by (simp add: at nd)
  have nl: "node_Len (nd_at w' a) = node_Len (nd_at w a)" for a by (simp add: at nd node_Len_def)
  show "ready w' own (b\<lparr>mallocSize := mallocSize b + n\<rparr>) hs rs ws (wr # ts)"
    unfolding ready_def org nl using wok rep rd unfolding ready_def by blast
qed


subsection \<open>Growth and Malloc\<close>

text \<open>
  What growing the write end keeps: the readable and the pending bytes, the memory, and every
  owned node off the write end.
\<close>

definition grown ::
    "world \<Rightarrow> addr set \<Rightarrow> addr list \<Rightarrow> addr list \<Rightarrow> world \<Rightarrow> addr set \<Rightarrow> addr list \<Rightarrow> bool" where
  "grown w own rs ws w' own' ws' \<longleftrightarrow>
     own \<subseteq> own' \<and> unreads w' (rs @ ws') = unreads w (rs @ ws) \<and> pendings w' ws' = pendings w ws \<and>
     cells w' = cells w \<and> next_arr w \<le> next_arr w' \<and>
     set ws' \<inter> own \<subseteq> set ws \<and> (\<forall>a\<in>own - set ws. nodes w' a = nodes w a)"

lemma lb_upd_comm: "b\<lparr>mallocSize := k, write_n := p\<rparr> = b\<lparr>write_n := p, mallocSize := k\<rparr>"
  by (cases b) simp

lemma append_node_mallocSize:
  assumes "append_node g sz b w = Some (b\<lparr>write_n := p\<rparr>, w')"
  shows "append_node g sz (b\<lparr>mallocSize := k\<rparr>) w = Some (b\<lparr>write_n := p, mallocSize := k\<rparr>, w')"
proof -
  from assms obtain wr x w1 where a: "write_n b = Some wr" "newLinkBufferNode g sz w = Some (x, w1)"
    "upd_node wr (\<lambda>y. y\<lparr>next_n := Some x\<rparr>) w1 = Some w'" "b\<lparr>write_n := Some x\<rparr> = b\<lparr>write_n := p\<rparr>"
    by (auto simp: append_node_def Option.bind_eq_Some_conv)
  have "Some x = p" using arg_cong [OF a(4), of write_n] by simp
  then show ?thesis using a(1-3) by (simp add: append_node_def)
qed

lemma growth_loop_ok:
  assumes "ready w own b hs rs ws (wr # ts)" "mcache_ok g" "0 < n"
  shows "\<exists>w' own' ws' x ts'. 
    growth_loop g n (b\<lparr>mallocSize := k\<rparr>) w = Some (b\<lparr>write_n := Some x, mallocSize := k\<rparr>, w') \<and>
    ready w' own' (b\<lparr>write_n := Some x\<rparr>) hs rs ws' (x # ts') \<and> writable (nd_at w' x) \<and>
    malloc_n (nd_at w' x) + n \<le> s_cap (buf (nd_at w' x)) \<and>
    grown w own rs (ws @ wr # ts) w' own' (ws' @ x # ts')"
  using assms(1)
proof (induction ts arbitrary: b ws wr)
  case Nil
  note rd = Nil
  have wn: "write_n b = Some wr" using lb_repD(4) [OF readyD(1) [OF rd]] by simp
  obtain nd where nd: "nodes w wr = Some nd" "next_n nd = None"
    using lb_repD(4) [OF readyD(1) [OF rd]] by (auto split: option.splits)
  have at: "nd_at w wr = nd" using nd by simp
  have bb: "b\<lparr>write_n := Some wr\<rparr> = b" using wn by simp
  show ?case
  proof (cases "getMode readonlyMask nd \<or> s_cap (buf nd) - malloc_n nd < n")
    case True
    obtain x w' where a: "append_node g n b w = Some (b\<lparr>write_n := Some x\<rparr>, w')"
      "ready w' (insert x own) (b\<lparr>write_n := Some x\<rparr>) hs rs (ws @ [wr]) [x]"
      "unreads w' (rs @ ws @ [wr, x]) = unreads w (rs @ ws @ [wr])"
      "pendings w' (ws @ [wr, x]) = pendings w (ws @ [wr])"
      "new_node g n w (nd_at w' x)" "cells w' = cells w" "next_arr w \<le> next_arr w'" "x \<notin> own"
      "\<And>a. a \<noteq> x \<Longrightarrow> a \<noteq> wr \<Longrightarrow> nodes w' a = nodes w a"
      by (rule append_node_ok [OF rd assms(2)]) blast
    have "growth_loop g n (b\<lparr>mallocSize := k\<rparr>) w = append_node g n (b\<lparr>mallocSize := k\<rparr>) w"
      by (subst growth_loop.simps) (simp add: append_node_def wn nd True)
    then have "growth_loop g n (b\<lparr>mallocSize := k\<rparr>) w = Some (b\<lparr>write_n := Some x, mallocSize := k\<rparr>, w')"
      using append_node_mallocSize [OF a(1), of k] by simp
    moreover have "writable (nd_at w' x)" "malloc_n (nd_at w' x) + n \<le> s_cap (buf (nd_at w' x))"
      using a(5) assms(3) by (simp_all add: new_node_def)
    moreover have "\<forall>c\<in>own - set (ws @ [wr]). nodes w' c = nodes w c"
    proof
      fix c assume "c \<in> own - set (ws @ [wr])"
      then have "c \<noteq> x" "c \<noteq> wr" using a(8) by auto
      then show "nodes w' c = nodes w c" by (rule a(9))
    qed
    ultimately show ?thesis using a(2)
    proof -
      have "set ((ws @ [wr]) @ [x]) \<inter> own \<subseteq> set (ws @ [wr])" using a(8) by auto
      then have "grown w own rs (ws @ [wr]) w' (insert x own) ((ws @ [wr]) @ [x])"
        using a(3,4,6,7) \<open>\<forall>c\<in>own - set (ws @ [wr]). nodes w' c = nodes w c\<close>
        by (simp add: grown_def subset_insertI del: seq_simps)
      then show ?thesis
        using a(2) \<open>writable (nd_at w' x)\<close> \<open>malloc_n (nd_at w' x) + n \<le> s_cap (buf (nd_at w' x))\<close>
          \<open>growth_loop g n (b\<lparr>mallocSize := k\<rparr>) w = Some (b\<lparr>write_n := Some x, mallocSize := k\<rparr>, w')\<close>
        by blast
    qed
  next
    case False
    then have "growth_loop g n (b\<lparr>mallocSize := k\<rparr>) w = Some (b\<lparr>mallocSize := k\<rparr>, w)"
      by (subst growth_loop.simps) (simp add: wn nd)
    moreover have "b\<lparr>write_n := Some wr, mallocSize := k\<rparr> = b\<lparr>mallocSize := k\<rparr>" using wn by simp
    ultimately have "growth_loop g n (b\<lparr>mallocSize := k\<rparr>) w = Some (b\<lparr>write_n := Some wr, mallocSize := k\<rparr>, w)" by simp
    then show ?thesis using False rd bb at
      by (intro exI [of _ w] exI [of _ own] exI [of _ ws] exI [of _ wr] exI [of _ "[]"])
         (simp add: grown_def writable_def)
  qed
next
  case (Cons x ts)
  note rd = Cons.prems
  have wn: "write_n b = Some wr" using lb_repD(4) [OF readyD(1) [OF rd]] by simp
  obtain nd where nd: "nodes w wr = Some nd" "next_n nd = Some x"
    using lb_repD(4) [OF readyD(1) [OF rd]] by (auto split: option.splits)
  have at: "nd_at w wr = nd" using nd by simp
  have bb: "b\<lparr>write_n := Some wr\<rparr> = b" using wn by simp
  show ?case
  proof (cases "getMode readonlyMask nd \<or> s_cap (buf nd) - malloc_n nd < n")
    case True
    have "growth_loop g n (b\<lparr>mallocSize := k\<rparr>) w = growth_loop g n (b\<lparr>write_n := Some x, mallocSize := k\<rparr>) w"
      by (subst growth_loop.simps) (simp add: wn nd True lb_upd_comm)
    moreover have e: "(ws @ [wr]) @ x # ts = ws @ wr # x # ts" by simp
    ultimately show ?thesis using Cons.IH [OF ready_move [OF rd]] unfolding e by simp
  next
    case False
    then have "growth_loop g n (b\<lparr>mallocSize := k\<rparr>) w = Some (b\<lparr>mallocSize := k\<rparr>, w)"
      by (subst growth_loop.simps) (simp add: wn nd)
    moreover have "b\<lparr>write_n := Some wr, mallocSize := k\<rparr> = b\<lparr>mallocSize := k\<rparr>" using wn by simp
    ultimately have "growth_loop g n (b\<lparr>mallocSize := k\<rparr>) w = Some (b\<lparr>write_n := Some wr, mallocSize := k\<rparr>, w)" by simp
    then show ?thesis using False rd bb at
      by (intro exI [of _ w] exI [of _ own] exI [of _ ws] exI [of _ wr] exI [of _ "x # ts"])
         (simp add: grown_def writable_def)
  qed
qed


lemma lb_Malloc_rep:
  assumes rd: "ready w own b hs rs ws (wr # ts)" and g: "mcache_ok g" and n: "0 < n"
  obtains s b' w1 own' ws' x ts' where "lb_Malloc g n b w = Some (s, b', w1)" "s_len s = n"
    "b' = b\<lparr>write_n := Some x, mallocSize := mallocSize b + n\<rparr>" "own \<subseteq> own'"
    "next_arr w \<le> next_arr w1" "s_arr s < next_arr w1"
    "\<And>a. a \<in> own - set (ws @ wr # ts) \<Longrightarrow> nodes w1 a = nodes w a"
    "\<And>w'. nodes w' = nodes w1 \<Longrightarrow> next_arr w' = next_arr w1 \<Longrightarrow> next_addr w' = next_addr w1 \<Longrightarrow>
       pool w' = pool w1 \<Longrightarrow> only_in s w w' \<Longrightarrow>
       ready w' own' b' hs rs ws' (x # ts') \<and>
       unreads w' (rs @ ws' @ x # ts') = unreads w (rs @ ws @ wr # ts) \<and>
       pendings w' (ws' @ x # ts') = pendings w (ws @ wr # ts) @ slice_bytes w' s"
    "cells w1 = cells w"
proof -
  let ?k = "mallocSize b + n"
  obtain w0 own' ws' x ts' where G: "growth_loop g n (b\<lparr>mallocSize := ?k\<rparr>) w = Some (b\<lparr>write_n := Some x, mallocSize := ?k\<rparr>, w0)"
    "ready w0 own' (b\<lparr>write_n := Some x\<rparr>) hs rs ws' (x # ts')" "writable (nd_at w0 x)"
    "malloc_n (nd_at w0 x) + n \<le> s_cap (buf (nd_at w0 x))"
    "grown w own rs (ws @ wr # ts) w0 own' (ws' @ x # ts')"
    using growth_loop_ok [OF rd g n, of ?k] by blast
  let ?nd = "nd_at w0 x" and ?s = "malloc_win n (nd_at w0 x)"
  let ?w1 = "set_node x (?nd\<lparr>malloc_n := malloc_n ?nd + n\<rparr>) w0"
  have xS: "x \<in> set (hs @ rs @ ws' @ x # ts')" by simp
  have ok: "node_ok ?nd" "s_arr (buf ?nd) < next_arr w0" "nodes w0 x = Some ?nd"
    using lb_repD(6,7) [OF readyD(1) [OF G(2)] xS] lb_rep_nodes [OF readyD(1) [OF G(2)] xS] by blast+
  obtain nd where nd: "nodes w0 x = Some nd" "?nd = nd" using ok(3) by blast
  have "write_Malloc n (b\<lparr>write_n := Some x, mallocSize := ?k\<rparr>) w0 = Some (?s, ?w1)"
    using n ok(1) G(4) unfolding nd(2)
    by (simp add: write_Malloc_def nd(1) node_Malloc_def reslice3_def malloc_win_def node_ok_def)
  then have run: "lb_Malloc g n b w = Some (?s, b\<lparr>write_n := Some x, mallocSize := ?k\<rparr>, ?w1)"
    using n G(1) by (simp add: lb_Malloc_def growth_def)
  have fill: "ready w' own' (b\<lparr>write_n := Some x, mallocSize := ?k\<rparr>) hs rs ws' (x # ts') \<and>
       unreads w' (rs @ ws' @ x # ts') = unreads w (rs @ ws @ wr # ts) \<and>
       pendings w' (ws' @ x # ts') = pendings w (ws @ wr # ts) @ slice_bytes w' ?s"
    if w': "nodes w' = nodes ?w1" "next_arr w' = next_arr ?w1" "next_addr w' = next_addr ?w1"
      "pool w' = pool ?w1" "only_in ?s w w'" for w'
  proof -
    have oi: "only_in ?s w0 w'" using w'(5) G(5) by (simp add: only_in_def grown_def)
    have "ready w' own' ((b\<lparr>write_n := Some x\<rparr>)\<lparr>mallocSize := mallocSize (b\<lparr>write_n := Some x\<rparr>) + n\<rparr>) hs rs ws' (x # ts')"
      "unreads w' (rs @ ws' @ x # ts') = unreads w0 (rs @ ws' @ x # ts')"
      "pendings w' (ws' @ x # ts') = pendings w0 (ws' @ x # ts') @ slice_bytes w' ?s"
      by (rule ready_fill [OF G(2,3) less_imp_le [OF n] G(4) _ _ _ _ oi]; use w' in simp)+
    then show ?thesis using G(5) by (simp add: grown_def del: seq_simps)
  qed
  show thesis
  proof (rule that [OF run _ refl])
    show "own \<subseteq> own'" "next_arr w \<le> next_arr ?w1" "cells ?w1 = cells w" using G(5) by (simp_all add: grown_def)
    show "nodes ?w1 a = nodes w a" if "a \<in> own - set (ws @ wr # ts)" for a
    proof -
      have "a \<noteq> x" using that G(5) by (auto simp: grown_def)
      then show ?thesis using that G(5) by (simp add: grown_def)
    qed
    show "s_arr ?s < next_arr ?w1" using ok(2) by (simp add: malloc_win_def)
  qed (use fill in \<open>simp_all add: malloc_win_def\<close>)
qed


subsection \<open>Flush\<close>

definition flushed :: "node \<Rightarrow> node" where
  "flushed nd = (if malloc_n nd - s_len (buf nd) > 0 then nd\<lparr>buf := (buf nd)\<lparr>s_len := malloc_n nd\<rparr>\<rparr> else nd)"

lemma flushed_sel [simp]:
  "off (flushed nd) = off nd" "malloc_n (flushed nd) = malloc_n nd" "origin (flushed nd) = origin nd"
  "next_n (flushed nd) = next_n nd" "refer (flushed nd) = refer nd" "mode (flushed nd) = mode nd"
  "s_arr (buf (flushed nd)) = s_arr (buf nd)" "s_off (buf (flushed nd)) = s_off (buf nd)"
  "s_cap (buf (flushed nd)) = s_cap (buf nd)"
  "s_len (buf (flushed nd)) = max (s_len (buf nd)) (malloc_n nd)" "writable (flushed nd) = writable nd"
  by (simp_all add: flushed_def writable_def getMode_def)

lemma flushed_facts:
  assumes "node_ok nd"
  shows "node_ok (flushed nd)" "pend_len (flushed nd) = 0" "node_Len (flushed nd) = node_Len nd + pend_len nd"
    "unread m (flushed nd) = content m nd"
proof -
  show "node_ok (flushed nd)" "pend_len (flushed nd) = 0" "node_Len (flushed nd) = node_Len nd + pend_len nd"
    using assms by (auto simp: node_ok_def pend_len_def node_Len_def)
  show "unread m (flushed nd) = content m nd"
  proof (cases "malloc_n nd - s_len (buf nd) > 0")
    case True
    have "slice_bytes m ((buf nd)\<lparr>s_len := malloc_n nd\<rparr>) = slice_bytes m (buf nd) @ slice_bytes m (pend_win nd)"
      using True assms
      by (intro nth_equalityI)
         (auto simp: nth_slice_bytes nth_append pend_win_def node_ok_def nat_diff_distrib
           intro!: arg_cong2 [of _ _ _ _ "cells m"])
    moreover have "nat (off nd) - nat (s_len (buf nd)) = 0" using assms by (simp add: node_ok_def nat_mono)
    ultimately show ?thesis using True by (simp add: flushed_def content_def unread_def)
  next
    case False
    then show ?thesis by (simp add: flushed_def content_def pend_win_def slice_bytes_def)
  qed
qed

lemma slice_set_len: "\<lparr>s_arr = s_arr s, s_off = s_off s, s_len = n, s_cap = s_cap s\<rparr> = s\<lparr>s_len := n\<rparr>"
  by (cases s) simp

lemma Flush_loop_ok:
  assumes "lseg (nodes w) p as q" "distinct as" "\<forall>a\<in>set as. q \<noteq> Some a" "\<forall>a\<in>set as. node_ok (nd_at w a)"
  shows "\<exists>w'. Flush_loop p q n w = Some (n + pends w as, w') \<and>
    nodes w' = (\<lambda>a. if a \<in> set as then Some (flushed (nd_at w a)) else nodes w a) \<and>
    cells w' = cells w \<and> next_arr w' = next_arr w \<and> next_addr w' = next_addr w \<and> pool w' = pool w"
  using assms
proof (induction as arbitrary: p n w)
  case Nil
  then show ?case by (subst Flush_loop.simps) auto
next
  case (Cons a as)
  obtain nd where nd: "p = Some a" "nodes w a = Some nd" "lseg (nodes w) (next_n nd) as q"
    using Cons.prems(1) by (auto split: option.splits)
  have at: "nd_at w a = nd" using nd(2) by simp
  have q: "Some a \<noteq> q" using Cons.prems(3) by auto
  have ok: "node_ok nd" using Cons.prems(4) at by simp
  let ?w = "set_node a (flushed nd) w"
  have run: "Flush_loop p q n w = Flush_loop (next_n nd) q (n + pend_len nd) (if malloc_n nd - s_len (buf nd) > 0 then ?w else w)"
    using ok q by (subst Flush_loop.simps)
      (auto simp: nd(1,2) reslice_def node_ok_def pend_len_def flushed_def slice_set_len)
  have same: "(if malloc_n nd - s_len (buf nd) > 0 then ?w else w) = ?w"
    using nd(2) by (auto simp: flushed_def set_node_def fun_upd_idem)
  have ca: "c \<noteq> a" if "c \<in> set as" for c using Cons.prems(2) that by auto
  have l: "lseg (nodes ?w) (next_n nd) as q"
    using nd(2,3) lseg_cong [of as "nodes ?w" "nodes w"] ca by simp
  have at': "nd_at ?w c = nd_at w c" if "c \<in> set as" for c using ca [OF that] by (simp add: nd_at_set_node)
  then have pe: "pends ?w as = pends w as" by (simp add: pends_def cong: map_cong)
  obtain w' where w': "Flush_loop (next_n nd) q (n + pend_len nd) ?w = Some (n + pend_len nd + pends ?w as, w')"
    "nodes w' = (\<lambda>c. if c \<in> set as then Some (flushed (nd_at ?w c)) else nodes ?w c)"
    "cells w' = cells ?w" "next_arr w' = next_arr ?w" "next_addr w' = next_addr ?w" "pool w' = pool ?w"
    using Cons.IH [OF l, of "n + pend_len nd"] Cons.prems(2-4) at' by auto
  have "nodes w' = (\<lambda>c. if c \<in> set (a # as) then Some (flushed (nd_at w c)) else nodes w c)"
    unfolding w'(2) using at' at ca by (auto simp: fun_eq_iff)
  then show ?case using w' pe at unfolding run same by (intro exI [of _ w']) (simp add: ac_simps)
qed


lemma ready_flush:
  assumes rd: "ready w own b hs rs ws (wr # ts)"
    and nodes: "nodes w' = (\<lambda>a. if a \<in> set (ws @ [wr]) then Some (flushed (nd_at w a)) else nodes w a)"
    and eq: "cells w' = cells w" "next_arr w' = next_arr w" "next_addr w' = next_addr w" "pool w' = pool w"
    and b': "b' = b\<lparr>mallocSize := 0, flush := write_n b, length_b := length_b b + pends w (ws @ [wr])\<rparr>"
  shows "ready w' own b' hs (rs @ ws) [] (wr # ts)"
    and "unreads w' ((rs @ ws) @ [] @ wr # ts) = unreads w (rs @ ws @ wr # ts) @ pendings w (ws @ wr # ts)"
    and "pendings w' ([] @ wr # ts) = []"
proof -
  note i = readyD [OF rd] and R = lb_repD [OF readyD(1) [OF rd]]
  let ?S = "hs @ rs @ ws @ wr # ts" and ?F = "set (ws @ [wr])"
  have at: "nd_at w' a = (if a \<in> ?F then flushed (nd_at w a) else nd_at w a)" for a
    by (simp add: nd_at_def nodes)
  have F: "a \<in> set ?S" if "a \<in> ?F" for a using that by auto
  have dist: "a \<notin> ?F" if "a \<in> set (hs @ rs @ ts)" for a using R(5) that by auto
  have mem: "slice_bytes w' s = slice_bytes w s" "unread w' nd = unread w nd" "content w' nd = content w nd" for s nd
    using eq(1) by (simp_all add: slice_bytes_def unread_def content_def)
  have ur: "unread w' (nd_at w' a) = content w (nd_at w a)" if "a \<in> set (rs @ ws @ wr # ts)" for a
  proof (cases "a \<in> ?F")
    case True
    then show ?thesis using flushed_facts(4) [OF R(6) [OF F [OF True]], of w] by (simp add: at mem)
  next
    case False
    have "slice_bytes w (pend_win (nd_at w a)) = []"
    proof (cases "a \<in> set rs")
      case True
      then show ?thesis using R(8) by (simp add: pend_Nil_iff)
    next
      case nrs: False
      then have "a \<in> set (tl (wr # ts))" using that False by auto
      then show ?thesis using R(9) [of a] by (simp add: pend_win_def slice_bytes_def)
    qed
    then show ?thesis using False by (simp add: at mem content_def)
  qed
  have C: "contents w (rs @ ws @ wr # ts) = unreads w (rs @ ws @ wr # ts) @ pendings w (ws @ wr # ts)"
    using stream_rep [OF i(4,1)] i(7) by simp
  have U': "unreads w' as = contents w as" if "set as \<subseteq> set (rs @ ws @ wr # ts)" for as
    using that ur by (induction as) auto
  show U: "unreads w' ((rs @ ws) @ [] @ wr # ts) = unreads w (rs @ ws @ wr # ts) @ pendings w (ws @ wr # ts)"
    using U' [of "rs @ ws @ wr # ts"] C by simp
  have p0: "pend_len (nd_at w' a) = 0" if "a \<in> set (rs @ ws @ wr # ts)" for a
  proof (cases "a \<in> ?F")
    case True
    then show ?thesis using flushed_facts(2) [OF R(6) [OF F [OF True]]] by (simp add: at)
  next
    case False
    then show ?thesis using R(8) [of a] R(9) [of a] that by (auto simp: at pend_len_def)
  qed
  show P: "pendings w' ([] @ wr # ts) = []"
    unfolding append_Nil by (rule pendings_closed) (use p0 in auto)
  have wok: "world_ok w' own"
  proof -
    have sel: "origin (nd_at w' a) = origin (nd_at w a)" "refer (nd_at w' a) = refer (nd_at w a)" for a by (simp_all add: at)
    have own: "a \<in> own" if "a \<in> ?F" for a using i(5) F [OF that] by blast
    have dom: "nodes w' a \<noteq> None \<longleftrightarrow> nodes w a \<noteq> None" for a
      using own [of a] i(3) by (auto simp: nodes world_ok_def)
    have refs: "refs w' own a = refs w own a" for a by (simp add: refs_def sel)
    have pool: "\<forall>c\<in>set (pool w). \<exists>nd'. nodes w' c = Some nd' \<and> buf nd' = nil_slice \<and>
        origin nd' = None \<and> next_n nd' = None"
    proof
      fix c assume c: "c \<in> set (pool w)"
      then have "c \<notin> ?F" using own i(3) unfolding world_ok_def by blast
      then have e: "nodes w' c = nodes w c" unfolding nodes by (rule if_not_P)
      show "\<exists>nd'. nodes w' c = Some nd' \<and> buf nd' = nil_slice \<and> origin nd' = None \<and> next_n nd' = None"
        unfolding e using i(3) c unfolding world_ok_def by blast
    qed
    show ?thesis unfolding world_ok_def sel refs dom eq
      using i(3) pool unfolding world_ok_def by (elim conjE, intro conjI)
  qed
  have L: "lseg (nodes w') p as q" if "lseg (nodes w) p as q" for p as q
  proof -
    have "map_option next_n (nodes w' a) = map_option next_n (nodes w a)" for a
    proof (cases "a \<in> ?F")
      case True
      then obtain nd where "nodes w a = Some nd" using lb_rep_nodes [OF i(1) F] by blast
      then show ?thesis using True by (simp add: nodes)
    next
      case False
      have "nodes w' a = nodes w a" unfolding nodes using False by (rule if_not_P)
      then show ?thesis by simp
    qed
    then show ?thesis using lseg_cong [of as "nodes w'" "nodes w"] that by simp
  qed
  have N: "node_ok (nd_at w' a) \<and> s_arr (buf (nd_at w' a)) < next_arr w'" if "a \<in> set ?S" for a
    using R(6,7) [OF that] flushed_facts(1) eq(2) by (simp add: at)
  have A: "apart (nd_at w' a) (nd_at w' c)"
    if ac: "a \<in> set (rs @ ws @ wr # ts)" "c \<in> set (rs @ ws @ wr # ts)" "a \<noteq> c" for a c
    using R(10) [OF ac] by (auto simp: at apart_def)
  have T: "off (nd_at w' a) = 0 \<and> s_len (buf (nd_at w' a)) = 0 \<and> malloc_n (nd_at w' a) = 0"
    if "a \<in> set ts" for a using R(9) [of a] dist [of a] that by (simp add: at)
  have wn: "write_n b = Some wr" using R(4) by simp
  have ln: "length_b b' = lens w' ((rs @ ws) @ [] @ wr # ts)"
  proof -
    have "int (length (unreads w' ((rs @ ws) @ [] @ wr # ts))) = lens w' ((rs @ ws) @ [] @ wr # ts)"
      by (rule length_unreads) (use N in auto)
    moreover have "int (length (unreads w (rs @ ws @ wr # ts))) = length_b b" using i(8) by (simp add: lb_Len_def)
    moreover have "int (length (pendings w (ws @ wr # ts))) = pends w (ws @ wr # ts)" by (rule length_pendings)
    moreover have "pends w ts = 0" using R(9) by (auto simp: pends_def pend_len_def intro!: sum_list_map_eq_0)
    ultimately show ?thesis unfolding U by (simp add: b')
  qed
  have pn: "mallocSize b' = pends w' ([] @ wr # ts)"
  proof -
    have "pends w' (wr # ts) = 0" using p0 unfolding pends_def by (intro sum_list_map_eq_0) auto
    then show ?thesis by (simp add: b')
  qed
  have pk: "peek_ok w' ((rs @ ws) @ [] @ wr # ts) (unreads w' ((rs @ ws) @ take 1 ([] @ wr # ts))) (cachePeek b')"
  proof (cases "cachePeek b")
    case (Some c)
    have tz: "contents w ts = []"
      using R(9) by (auto simp: contents_def content_def unread_def slice_bytes_def pend_win_def)
    have "unreads w' ((rs @ ws) @ take 1 ([] @ wr # ts)) = contents w (rs @ ws @ [wr])"
    proof -
      have "set (rs @ ws @ [wr]) \<subseteq> set (rs @ ws @ wr # ts)" by auto
      from U' [OF this] show ?thesis by simp
    qed
    also have "\<dots> = unreads w (rs @ ws @ wr # ts) @ pendings w (ws @ wr # ts)"
      using C tz by simp
    also have "unreads w (rs @ ws @ wr # ts) = unreads w (rs @ take 1 (ws @ wr # ts))"
      by (rule sym, rule unreads_take1 [OF i(1,2)])
    finally have bs: "unreads w' ((rs @ ws) @ take 1 ([] @ wr # ts)) =
        unreads w (rs @ take 1 (ws @ wr # ts)) @ pendings w (ws @ wr # ts)" .
    have o: "0 \<le> s_len c" "slice_bytes w c = take (nat (s_len c)) (unreads w (rs @ take 1 (ws @ wr # ts)))"
      using R(13) Some unfolding peek_ok_def by auto
    have le: "nat (s_len c) \<le> length (unreads w (rs @ take 1 (ws @ wr # ts)))"
      using arg_cong [OF o(2), of length] by (simp del: seq_simps)
    have "slice_bytes w' c = take (nat (s_len c)) (unreads w' ((rs @ ws) @ take 1 ([] @ wr # ts)))"
      unfolding bs using o(2) le mem(1) [of c] by (simp del: seq_simps take_append add: take_append [of "nat (s_len c)"])
    moreover have "cachePeek b' = Some c" using Some by (simp add: b')
    moreover have sa: "s_arr (buf (nd_at w' a)) = s_arr (buf (nd_at w a))" for a by (simp add: at)
    moreover have e: "set ((rs @ ws) @ [] @ wr # ts) = set (rs @ ws @ wr # ts)" by simp
    ultimately show ?thesis using R(13) eq(2) Some unfolding peek_ok_def sa e by (simp del: seq_simps)
  qed (simp add: peek_ok_def b')
  have rep: "lb_rep w' b' hs (rs @ ws) [] (wr # ts)"
  proof -
    have "lseg (nodes w') (head b') hs (read b')" "lseg (nodes w') (read b') (rs @ ws) (flush b')"
      "lseg (nodes w') (flush b') [] (write_n b')" "lseg (nodes w') (write_n b') (wr # ts) None"
      using L [OF R(1)] L [OF R(2)] L [OF R(3)] L [OF R(4)] unfolding lseg_append b' by auto
    moreover have "distinct (hs @ (rs @ ws) @ [] @ wr # ts)" using R(5) by simp
    moreover have "\<forall>a\<in>set (hs @ (rs @ ws) @ [] @ wr # ts). node_ok (nd_at w' a) \<and> s_arr (buf (nd_at w' a)) < next_arr w'"
      using N by simp
    moreover have "\<forall>a\<in>set ((rs @ ws) @ [] @ wr # ts). \<forall>c\<in>set ((rs @ ws) @ [] @ wr # ts). a \<noteq> c \<longrightarrow> apart (nd_at w' a) (nd_at w' c)"
      using A by simp
    moreover have "\<forall>a\<in>set (rs @ ws). pend_len (nd_at w' a) = 0" using p0 by auto
    moreover have "\<forall>a\<in>set (tl (wr # ts)). off (nd_at w' a) = 0 \<and> s_len (buf (nd_at w' a)) = 0 \<and> malloc_n (nd_at w' a) = 0"
      using T by simp
    ultimately show ?thesis unfolding lb_rep_def using ln pn pk by blast
  qed
  have org: "origin (nd_at w' a) = origin (nd_at w a)" for a by (simp add: at)
  have e: "hs @ (rs @ ws) @ [] @ wr # ts = ?S" by simp
  have tl0: "\<forall>a\<in>set (tl ([] @ wr # ts)). node_Len (nd_at w' a) = 0" using T by (simp add: node_Len_def)
  show "ready w' own b' hs (rs @ ws) [] (wr # ts)"
    unfolding ready_def e org using wok rep i(5,6) tl0 by blast
qed


lemma lb_Flush_rep:
  assumes rd: "ready w own b hs rs ws (wr # ts)" and g: "mcache_ok g"
  obtains b' w' own' rs' x ts' where "lb_Flush g b w = Some (b', w')" "own \<subseteq> own'"
    "ready w' own' b' hs rs' [] (x # ts')"
    "unreads w' (rs' @ [] @ x # ts') = unreads w (rs @ ws @ wr # ts) @ pendings w (ws @ wr # ts)"
    "pendings w' ([] @ x # ts') = []" "cells w' = cells w" "next_arr w \<le> next_arr w'"
    "\<And>a. a \<in> own - set (ws @ wr # ts) \<Longrightarrow> nodes w' a = nodes w a"
proof -
  have wn: "write_n b = Some wr" using lb_repD(4) [OF readyD(1) [OF rd]] by simp
  obtain nd where nd: "nodes w wr = Some nd" using lb_repD(4) [OF readyD(1) [OF rd]] by (auto split: option.splits)
  have loop: "\<exists>b' w'. do { nd \<leftarrow> deref w0 (write_n b0);
         (n, w) \<leftarrow> Flush_loop (flush b0) (next_n nd) 0 w0;
         let b = b0\<lparr>flush := write_n b0\<rparr>;
         Some (snd (recalLen n b), w) } = Some (b', w') \<and> ready w' own0 b' hs (rs @ ws0) [] (x # ts0) \<and>
       unreads w' ((rs @ ws0) @ [] @ x # ts0) = unreads w0 (rs @ ws0 @ x # ts0) @ pendings w0 (ws0 @ x # ts0) \<and>
       pendings w' ([] @ x # ts0) = [] \<and> cells w' = cells w0 \<and> next_arr w' = next_arr w0 \<and>
       (\<forall>a. a \<notin> set (ws0 @ [x]) \<longrightarrow> nodes w' a = nodes w0 a)"
    if r0: "ready w0 own0 b1 hs rs ws0 (x # ts0)" and b0: "b0 = b1\<lparr>mallocSize := 0\<rparr>" for w0 own0 b0 b1 ws0 x ts0
  proof -
    note R = lb_repD [OF readyD(1) [OF r0]]
    obtain xd where xd: "nodes w0 x = Some xd" "write_n b1 = Some x" "lseg (nodes w0) (next_n xd) ts0 None"
      using R(4) by (auto split: option.splits)
    have l: "lseg (nodes w0) (flush b1) (ws0 @ [x]) (next_n xd)" unfolding lseg_append using R(3) xd by auto
    have "\<forall>a\<in>set (ws0 @ [x]). next_n xd \<noteq> Some a" using R(5) xd(3) by (cases ts0) auto
    moreover have "distinct (ws0 @ [x])" "\<forall>a\<in>set (ws0 @ [x]). node_ok (nd_at w0 a)" using R(5,6) by auto
    ultimately obtain w' where w': "Flush_loop (flush b1) (next_n xd) 0 w0 = Some (0 + pends w0 (ws0 @ [x]), w')"
      "nodes w' = (\<lambda>a. if a \<in> set (ws0 @ [x]) then Some (flushed (nd_at w0 a)) else nodes w0 a)"
      "cells w' = cells w0" "next_arr w' = next_arr w0" "next_addr w' = next_addr w0" "pool w' = pool w0"
      using Flush_loop_ok [OF l, of 0] by blast
    let ?b' = "b1\<lparr>mallocSize := 0, flush := write_n b1, length_b := length_b b1 + pends w0 (ws0 @ [x])\<rparr>"
    have rec: "snd (recalLen (pends w0 (ws0 @ [x])) (b0\<lparr>flush := write_n b0\<rparr>)) = ?b'"
      using pends_nonneg [of w0 "ws0 @ [x]"] by (simp add: recalLen_def b0 Let_def)
    note F = ready_flush [OF r0 w'(2-6) refl]
    have "nodes w' a = nodes w0 a" if "a \<notin> set (ws0 @ [x])" for a unfolding w'(2) using that by (rule if_not_P)
    then show ?thesis using F w'(1,3,4) xd(1,2) rec by (simp add: b0 Let_def del: seq_simps)
  qed
  show thesis
  proof (cases "s_cap (buf nd) > pagesize")
    case True
    obtain x w1 where a: "append_node g 0 b w = Some (b\<lparr>write_n := Some x\<rparr>, w1)"
      "ready w1 (insert x own) (b\<lparr>write_n := Some x\<rparr>) hs rs (ws @ [wr]) [x]"
      "unreads w1 (rs @ ws @ [wr, x]) = unreads w (rs @ ws @ wr # ts)"
      "pendings w1 (ws @ [wr, x]) = pendings w (ws @ wr # ts)"
      "new_node g 0 w (nd_at w1 x)" "cells w1 = cells w" "next_arr w \<le> next_arr w1" "x \<notin> own"
      "\<And>a. a \<noteq> x \<Longrightarrow> a \<noteq> wr \<Longrightarrow> nodes w1 a = nodes w a"
      by (rule append_node_ok [OF rd g]) blast
    obtain b' w' where l: "do { nd \<leftarrow> deref w1 (write_n (b\<lparr>write_n := Some x, mallocSize := 0\<rparr>));
         (n, w) \<leftarrow> Flush_loop (flush (b\<lparr>write_n := Some x, mallocSize := 0\<rparr>)) (next_n nd) 0 w1;
         let b = (b\<lparr>write_n := Some x, mallocSize := 0\<rparr>)\<lparr>flush := write_n (b\<lparr>write_n := Some x, mallocSize := 0\<rparr>)\<rparr>;
         Some (snd (recalLen n b), w) } = Some (b', w')" "ready w' (insert x own) b' hs (rs @ ws @ [wr]) [] [x]"
      "unreads w' ((rs @ ws @ [wr]) @ [] @ [x]) = unreads w1 (rs @ (ws @ [wr]) @ [x]) @ pendings w1 ((ws @ [wr]) @ [x])"
      "pendings w' ([] @ [x]) = []" "cells w' = cells w1" "next_arr w' = next_arr w1"
      "\<And>c. c \<notin> set ((ws @ [wr]) @ [x]) \<Longrightarrow> nodes w' c = nodes w1 c"
      using loop [OF a(2) refl] by blast
    have run: "lb_Flush g b w = Some (b', w')"
      using l(1) append_node_mallocSize [OF a(1), of 0] True by (simp add: lb_Flush_def wn nd)
    have fr: "nodes w' c = nodes w c" if "c \<in> own - set (ws @ wr # ts)" for c
    proof -
      have "c \<noteq> x" "c \<noteq> wr" "c \<notin> set ws" using that a(8) by auto
      then show ?thesis using l(7) [of c] a(9) [of c] by simp
    qed
    have u: "unreads w' ((rs @ ws @ [wr]) @ [] @ [x]) = unreads w (rs @ ws @ wr # ts) @ pendings w (ws @ wr # ts)"
      using l(3) a(3,4) by (simp del: seq_simps)
    show thesis
      by (rule that [OF run _ l(2) u l(4)]) (use l(5,6) a(6,7) fr in auto)
  next
    case False
    obtain b' w' where l: "do { nd \<leftarrow> deref w (write_n (b\<lparr>mallocSize := 0\<rparr>));
         (n, w) \<leftarrow> Flush_loop (flush (b\<lparr>mallocSize := 0\<rparr>)) (next_n nd) 0 w;
         let b = (b\<lparr>mallocSize := 0\<rparr>)\<lparr>flush := write_n (b\<lparr>mallocSize := 0\<rparr>)\<rparr>;
         Some (snd (recalLen n b), w) } = Some (b', w')" "ready w' own b' hs (rs @ ws) [] (wr # ts)"
      "unreads w' ((rs @ ws) @ [] @ wr # ts) = unreads w (rs @ ws @ wr # ts) @ pendings w (ws @ wr # ts)"
      "pendings w' ([] @ wr # ts) = []" "cells w' = cells w" "next_arr w' = next_arr w"
      "\<And>c. c \<notin> set (ws @ [wr]) \<Longrightarrow> nodes w' c = nodes w c"
      using loop [OF rd refl] by blast
    have run: "lb_Flush g b w = Some (b', w')" using l(1) False by (simp add: lb_Flush_def wn nd)
    show thesis
      by (rule that [OF run _ l(2,3,4)]) (use l(5-7) in auto)
  qed
qed

end
