(* ===== verification/LinkBufferWriter.thy ===== *)
theory LinkBufferWriter
  imports LinkBufferWrite
begin

section \<open>LinkBuffer: the writer\<close>

text \<open>
  The writing operations on the invariant \<open>lb_inv\<close>: what they append to the stream of the buffer,
  and the round trip from writing to reading.
\<close>

text \<open>\<open>bs\<close> has been appended to the stream, not yet readable.\<close>

definition appended ::
    "world \<Rightarrow> addr set \<Rightarrow> LinkBuffer \<Rightarrow> byte list \<Rightarrow> world \<Rightarrow> addr set \<Rightarrow> LinkBuffer \<Rightarrow> bool" where
  "appended w own b bs w' own' b' \<longleftrightarrow>
     lb_inv w' own' b' \<and> submitted w' b' \<and> write_n b' \<noteq> None \<and> own \<subseteq> own' \<and>
     stream w' b' = stream w b @ bs \<and> lb_Len b' = lb_Len b \<and>
     lb_MallocLen b' = lb_MallocLen b + int (length bs)"

lemma ready_writeE:
  assumes "lb_inv w own b" "submitted w b" "write_n b \<noteq> None"
  obtains hs rs ws wr ts where "ready w own b hs rs ws (wr # ts)"
proof -
  obtain hs rs ws ts where r: "ready w own b hs rs ws ts" by (rule readyE [OF assms(1,2)])
  then have "lseg (nodes w) (write_n b) ts None" using lb_repD(4) [OF readyD(1)] by blast
  then obtain wr ts' where "ts = wr # ts'" using assms(3) by (cases ts) auto
  with r that show thesis by blast
qed

lemma ready_appended:
  assumes rd: "ready w own b hs rs ws ts" and rd': "ready w' own' b' hs' rs' ws' (x # ts')"
    and u: "unreads w' (rs' @ ws' @ x # ts') = unreads w (rs @ ws @ ts)"
    and p: "pendings w' (ws' @ x # ts') = pendings w (ws @ ts) @ bs" and own: "own \<subseteq> own'"
  shows "appended w own b bs w' own' b'"
proof -
  note i = readyD [OF rd] and i' = readyD [OF rd']
  have "lb_inv w' own' b'" "submitted w' b'" using rd' ready_iff [of w' own' b'] by blast+
  moreover have "write_n b' \<noteq> None" using lb_repD(4) [OF i'(1)] by auto
  moreover have "lb_Len b' = lb_Len b" using i(8) i'(8) unfolding u by simp
  moreover have "mallocSize b' = mallocSize b + int (length bs)"
    unfolding lb_repD(12) [OF i(1)] lb_repD(12) [OF i'(1)] length_pendings [symmetric] p by simp
  moreover have "stream w' b' = stream w b @ bs" unfolding i(7) i'(7) u p by simp
  ultimately show ?thesis using own by (simp add: appended_def lb_MallocLen_def)
qed

subsection \<open>Malloc, WriteBinary and WriteByte\<close>

lemma lb_Malloc_appends:
  assumes "lb_inv w own b" "submitted w b" "write_n b \<noteq> None" "mcache_ok g" "0 < n"
  obtains s b' w' own' where "lb_Malloc g n b w = Some (s, b', w')" "s_len s = n" "cells w' = cells w"
    "\<And>bs. int (length bs) = n \<Longrightarrow> appended w own b bs (store_bytes s bs w') own' b'"
    "appended w own b (slice_bytes w' s) w' own' b'"
proof -
  obtain hs rs ws wr ts where rd: "ready w own b hs rs ws (wr # ts)" by (rule ready_writeE [OF assms(1-3)])
  obtain s b' w1 own' ws' x ts' where m: "lb_Malloc g n b w = Some (s, b', w1)" "s_len s = n"
    "b' = b\<lparr>write_n := Some x, mallocSize := mallocSize b + n\<rparr>" "own \<subseteq> own'"
    "next_arr w \<le> next_arr w1" "s_arr s < next_arr w1"
    "\<And>a. a \<in> own - set (ws @ wr # ts) \<Longrightarrow> nodes w1 a = nodes w a"
    and fill: "\<And>w'. nodes w' = nodes w1 \<Longrightarrow> next_arr w' = next_arr w1 \<Longrightarrow> next_addr w' = next_addr w1 \<Longrightarrow>
       pool w' = pool w1 \<Longrightarrow> only_in s w w' \<Longrightarrow>
       ready w' own' b' hs rs ws' (x # ts') \<and>
       unreads w' (rs @ ws' @ x # ts') = unreads w (rs @ ws @ wr # ts) \<and>
       pendings w' (ws' @ x # ts') = pendings w (ws @ wr # ts) @ slice_bytes w' s"
    and cells: "cells w1 = cells w"
    by (rule lb_Malloc_rep [OF rd assms(4,5)]) blast
  have ap: "appended w own b (slice_bytes w' s) w' own' b'"
    if "nodes w' = nodes w1" "next_arr w' = next_arr w1" "next_addr w' = next_addr w1"
      "pool w' = pool w1" "only_in s w w'" for w'
    using fill [OF that] m(4) by (intro ready_appended [OF rd]) blast+
  show thesis
  proof (rule that [OF m(1,2) cells])
    show "appended w own b (slice_bytes w1 s) w1 own' b'"
      by (rule ap) (simp_all add: only_in_def cells)
    fix bs :: "byte list" assume bs: "int (length bs) = n"
    have "only_in s w (store_bytes s bs w1)"
      using only_in_store [of bs s w1] bs m(2) cells by (simp add: only_in_def)
    moreover have "slice_bytes (store_bytes s bs w1) s = bs"
      using bs m(2) by (intro slice_bytes_store_same) simp_all
    ultimately show "appended w own b bs (store_bytes s bs w1) own' b'"
      using ap [of "store_bytes s bs w1"] by simp
  qed
qed


text \<open>A large slice is not copied: a new node adopts the caller's array.\<close>

definition foreign :: "world \<Rightarrow> LinkBuffer \<Rightarrow> slice \<Rightarrow> bool" where
  "foreign w b p \<longleftrightarrow>
     0 \<le> s_off p \<and> s_len p \<le> s_cap p \<and> s_arr p < next_arr w \<and>
     (\<forall>a\<in>set (chain (next_addr w) (nodes w) (head b)). s_arr (buf (nd_at w a)) \<noteq> s_arr p) \<and>
     (case cachePeek b of None \<Rightarrow> True | Some c \<Rightarrow> s_arr c \<noteq> s_arr p)"

lemma ready_adopt:
  assumes rd: "ready w own b hs rs ws [x]" and x: "\<not> writable (nd_at w x)" "buf (nd_at w x) = nil_slice"
      "off (nd_at w x) = 0" "malloc_n (nd_at w x) = 0"
    and p: "0 \<le> s_off p" "0 < s_len p" "s_len p \<le> s_cap p" "s_arr p < next_arr w"
      "\<And>a. a \<in> set (hs @ rs @ ws) \<Longrightarrow> s_arr (buf (nd_at w a)) \<noteq> s_arr p"
      "\<And>c. cachePeek b = Some c \<Longrightarrow> s_arr c \<noteq> s_arr p"
    and w': "w' = set_node x ((nd_at w x)\<lparr>buf := p\<lparr>s_len := 0\<rparr>, malloc_n := s_len p\<rparr>) w"
  shows "ready w' own (b\<lparr>mallocSize := mallocSize b + s_len p\<rparr>) hs rs ws [x]"
    and "unreads w' (rs @ ws @ [x]) = unreads w (rs @ ws @ [x])"
    and "pendings w' (ws @ [x]) = pendings w (ws @ [x]) @ slice_bytes w p"
proof -
  note i = readyD [OF rd] and R = lb_repD [OF readyD(1) [OF rd]]
  let ?S = "hs @ rs @ ws @ [x]"
  obtain nd where nd: "nd_at w x = nd" by blast
  let ?nd = "nd\<lparr>buf := p\<lparr>s_len := 0\<rparr>, malloc_n := s_len p\<rparr>"
  have at: "nd_at w' a = (if a = x then ?nd else nd_at w a)" for a by (simp add: w' nd_at_set_node nd)
  have xn: "x \<notin> set (hs @ rs @ ws)" using R(5) by auto
  have xnd: "\<not> writable ?nd" using x(1) nd by (simp add: writable_def getMode_def)
  have mem: "slice_bytes w' s = slice_bytes w s" "unread w' n = unread w n" for s n
    by (simp_all add: w' slice_bytes_def unread_def)
  have new: "unread w ?nd = []" "slice_bytes w (pend_win ?nd) = slice_bytes w p" "node_Len ?nd = 0"
    using x(3) nd by (simp_all add: unread_def slice_bytes_def pend_win_def node_Len_def)
  have old: "unread w nd = []" "slice_bytes w (pend_win nd) = []" "node_Len nd = 0" "pend_len nd = 0"
    using x(2-4) nd by (simp_all add: unread_def slice_bytes_def pend_win_def node_Len_def pend_len_def nil_slice_def)
  have eqs: "unreads w' as = unreads w as" "pendings w' as = pendings w as" "lens w' as = lens w as"
    "pends w' as = pends w as" if "x \<notin> set as" for as
    using that by (induction as) (auto simp: at mem)
  have na: "next_arr w' = next_arr w" by (simp add: w')
  have xs: "x \<notin> set rs" "x \<notin> set ws" using xn by auto
  show U: "unreads w' (rs @ ws @ [x]) = unreads w (rs @ ws @ [x])"
    using eqs(1) xs new old by (simp add: at mem nd)
  show P: "pendings w' (ws @ [x]) = pendings w (ws @ [x]) @ slice_bytes w p"
    using eqs(2) xs new old by (simp add: at mem nd)
  have wok: "world_ok w' own"
    unfolding w' by (rule world_ok_set [OF i(3)]) (use i(5) in auto)
  obtain old_nd where onx: "nodes w x = Some old_nd" using R(4) by (auto split: option.splits)
  then have ond: "old_nd = nd" using nd by simp
  have L: "lseg (nodes w') q as r = lseg (nodes w) q as r" for q as r
    by (rule lseg_cong) (use onx ond in \<open>simp add: w' nd\<close>)
  have N: "node_ok (nd_at w' a) \<and> s_arr (buf (nd_at w' a)) < next_arr w'" if "a \<in> set ?S" for a
    using R(6,7) [OF that] p(1-4) x(3) nd xnd by (auto simp: at node_ok_def na)
  have A: "apart (nd_at w' a) (nd_at w' c)"
    if ac: "a \<in> set (rs @ ws @ [x])" "c \<in> set (rs @ ws @ [x])" "a \<noteq> c" for a c
  proof (cases "a = x \<or> c = x")
    case True
    then show ?thesis using xnd p(5) [of a] ac by (auto simp: at apart_def)
  next
    case False
    then show ?thesis using R(10) [OF ac] by (simp add: at)
  qed
  have pk: "peek_ok w' (rs @ ws @ [x]) (unreads w' (rs @ take 1 (ws @ [x]))) (cachePeek b)"
  proof -
    have u: "unreads w' (rs @ take 1 (ws @ [x])) = unreads w (rs @ take 1 (ws @ [x]))"
      using eqs(1) xs new old by (cases ws) (auto simp: at mem nd)
    show ?thesis using R(13) p(6) xs unfolding u peek_ok_def mem
      by (auto simp: at na split: option.splits)
  qed
  have rep: "lb_rep w' (b\<lparr>mallocSize := mallocSize b + s_len p\<rparr>) hs rs ws [x]"
  proof -
    let ?b = "b\<lparr>mallocSize := mallocSize b + s_len p\<rparr>"
    have "length_b ?b = lens w' (rs @ ws @ [x])" "mallocSize ?b = pends w' (ws @ [x])"
      "peek_ok w' (rs @ ws @ [x]) (unreads w' (rs @ take 1 (ws @ [x]))) (cachePeek ?b)"
      using R(11,12) eqs(3,4) xs new(3) old(3,4) pk p(2) by (simp_all add: at nd pend_len_def)
    moreover have "lseg (nodes w') (head ?b) hs (read ?b)" "lseg (nodes w') (read ?b) rs (flush ?b)"
      "lseg (nodes w') (flush ?b) ws (write_n ?b)" "lseg (nodes w') (write_n ?b) [x] None"
      unfolding L using R(1-4) by simp_all
    moreover have "\<forall>a\<in>set rs. pend_len (nd_at w' a) = 0" using R(8) xs by (auto simp: at)
    ultimately show ?thesis unfolding lb_rep_def using R(5) N A by simp
  qed
  have org: "origin (nd_at w' a) = origin (nd_at w a)" for a by (simp add: at nd)
  have tl0: "\<forall>a\<in>set (tl (ws @ [x])). node_Len (nd_at w' a) = 0" using i(2) new(3) by (simp add: at)
  show "ready w' own (b\<lparr>mallocSize := mallocSize b + s_len p\<rparr>) hs rs ws [x]"
    unfolding ready_def org using wok rep i(5,6) tl0 by blast
qed


lemma lb_WriteBinary_appends:
  assumes inv: "lb_inv w own b" "submitted w b" "write_n b \<noteq> None" and g: "mcache_ok g"
    and p: "0 \<le> s_len p" "BinaryInplaceThreshold < s_len p \<Longrightarrow> foreign w b p"
  shows "\<exists>b' w' own'. lb_WriteBinary g p b w = Some (s_len p, b', w') \<and>
    appended w own b (slice_bytes w p) w' own' b'"
proof -
  obtain hs rs ws wr ts where rd: "ready w own b hs rs ws (wr # ts)" by (rule ready_writeE [OF inv])
  note i = readyD [OF rd]
  consider "s_len p = 0" | "0 < s_len p" "s_len p \<le> BinaryInplaceThreshold" | "BinaryInplaceThreshold < s_len p" "0 < s_len p"
    using p(1) by (force simp: BinaryInplaceThreshold_def block4k_def)
  then show ?thesis
  proof cases
    case 1
    have "appended w own b [] w own b"
      using ready_appended [OF rd rd, of "[]"] by simp
    then show ?thesis using 1 by (auto simp: lb_WriteBinary_def slice_bytes_empty)
  next
    case 2
    obtain s b' w' own' where m: "lb_Malloc g (s_len p) b w = Some (s, b', w')" "s_len s = s_len p" "cells w' = cells w"
      "\<And>bs. int (length bs) = s_len p \<Longrightarrow> appended w own b bs (store_bytes s bs w') own' b'"
      by (rule lb_Malloc_appends [OF inv g 2(1)]) blast
    have len: "int (length (slice_bytes w' p)) = s_len p" using 2(1) by simp
    have "lb_WriteBinary g p b w = Some (s_len p, b', store_bytes s (slice_bytes w' p) w')"
    proof -
      obtain b1 w1 where g1: "growth g (s_len p) (b\<lparr>mallocSize := mallocSize b + s_len p\<rparr>) w = Some (b1, w1)"
        and m1: "write_Malloc (s_len p) b1 w1 = Some (s, w')" "b1 = b'"
        using m(1) 2(1) by (auto simp: lb_Malloc_def Let_def Option.bind_eq_Some_conv)
      have "go_copy s (slice_bytes w' p) w' = (s_len p, store_bytes s (slice_bytes w' p) w')"
        using m(2) len by (simp add: go_copy_def)
      then show ?thesis using 2 g1 m1 by (simp add: lb_WriteBinary_def Let_def)
    qed
    moreover have "slice_bytes w' p = slice_bytes w p" using m(3) by (simp add: slice_bytes_def)
    ultimately show ?thesis using m(4) [OF len] by auto
  next
    case 3
    have f: "foreign w b p" by (rule p(2) [OF 3(1)])
    have ch: "chain (next_addr w) (nodes w) (head b) = hs @ rs @ ws @ wr # ts"
      by (rule chain_rep [OF i(4) lb_rep_chain(3) [OF i(1)] lb_repD(5) [OF i(1)]])
    obtain x w1 where a: "append_node g 0 b w = Some (b\<lparr>write_n := Some x\<rparr>, w1)"
      "ready w1 (insert x own) (b\<lparr>write_n := Some x\<rparr>) hs rs (ws @ [wr]) [x]"
      "unreads w1 (rs @ ws @ [wr, x]) = unreads w (rs @ ws @ wr # ts)"
      "pendings w1 (ws @ [wr, x]) = pendings w (ws @ wr # ts)"
      "new_node g 0 w (nd_at w1 x)" "cells w1 = cells w" "next_arr w \<le> next_arr w1" "x \<notin> own"
      "\<And>a. a \<noteq> x \<Longrightarrow> a \<noteq> wr \<Longrightarrow> nodes w1 a = nodes w a"
      "\<And>a. a \<noteq> x \<Longrightarrow> buf (nd_at w1 a) = buf (nd_at w a)"
      by (rule append_node_ok [OF rd g]) blast
    note i1 = readyD [OF a(2)]
    have x1: "nodes w1 x = Some (nd_at w1 x)" by (rule lb_rep_nodes [OF i1(1)]) simp
    then obtain xd where xd: "nodes w1 x = Some xd" "nd_at w1 x = xd" by blast
    have arr: "s_arr (buf (nd_at w1 c)) \<noteq> s_arr p" if "c \<in> set (hs @ rs @ ws @ [wr])" for c
    proof -
      have c: "c \<in> set (hs @ rs @ ws @ wr # ts)" using that by auto
      then have "c \<noteq> x" using i(5) a(8) by blast
      moreover have "s_arr (buf (nd_at w c)) \<noteq> s_arr p" using f c unfolding foreign_def ch by blast
      ultimately show ?thesis using a(10) [of c] by simp
    qed
    let ?w = "set_node x ((nd_at w1 x)\<lparr>buf := p\<lparr>s_len := 0\<rparr>, malloc_n := s_len p\<rparr>) w1"
    let ?b = "(b\<lparr>write_n := Some x\<rparr>)\<lparr>mallocSize := mallocSize (b\<lparr>write_n := Some x\<rparr>) + s_len p\<rparr>"
    have N: "\<not> writable (nd_at w1 x)" "buf (nd_at w1 x) = nil_slice" "off (nd_at w1 x) = 0" "malloc_n (nd_at w1 x) = 0"
      using a(5) by (simp_all add: new_node_def)
    have pp: "0 \<le> s_off p" "s_len p \<le> s_cap p" "s_arr p < next_arr w1"
      "\<And>c. cachePeek (b\<lparr>write_n := Some x\<rparr>) = Some c \<Longrightarrow> s_arr c \<noteq> s_arr p"
      using f a(7) by (auto simp: foreign_def)
    have ad: "ready ?w (insert x own) ?b hs rs (ws @ [wr]) [x]"
      "unreads ?w (rs @ (ws @ [wr]) @ [x]) = unreads w1 (rs @ (ws @ [wr]) @ [x])"
      "pendings ?w ((ws @ [wr]) @ [x]) = pendings w1 ((ws @ [wr]) @ [x]) @ slice_bytes w1 p"
      by (rule ready_adopt [OF a(2) N pp(1) 3(2) pp(2,3) _ _ refl]; use arr pp(4) in auto)+
    have "lb_WriteBinary g p b w = Some (s_len p, ?b, ?w)"
      using 3 append_node_mallocSize [OF a(1), of "mallocSize b + s_len p"] pp(2) xd
      by (simp add: lb_WriteBinary_def upd_node_def reslice_def slice_set_len Let_def)
    moreover have "appended w own b (slice_bytes w p) ?w (insert x own) ?b"
    proof (rule ready_appended [OF rd ad(1)])
      show "unreads ?w (rs @ (ws @ [wr]) @ [x]) = unreads w (rs @ ws @ wr # ts)"
        using ad(2) a(3) by (simp del: seq_simps)
      show "pendings ?w ((ws @ [wr]) @ [x]) = pendings w (ws @ wr # ts) @ slice_bytes w p"
        using ad(3) a(4,6) by (simp add: slice_bytes_def del: seq_simps)
    qed blast
    ultimately show ?thesis by blast
  qed
qed


lemma lb_WriteByte_appends:
  assumes inv: "lb_inv w own b" "submitted w b" "write_n b \<noteq> None" and g: "mcache_ok g"
  shows "\<exists>b' w' own'. lb_WriteByte g x b w = Some (b', w') \<and> appended w own b [x] w' own' b'"
proof -
  obtain s b' w' own' where m: "lb_Malloc g 1 b w = Some (s, b', w')" "s_len s = 1"
      "\<And>bs. int (length bs) = 1 \<Longrightarrow> appended w own b bs (store_bytes s bs w') own' b'"
    by (rule lb_Malloc_appends [OF inv g zero_less_one]) blast
  have "appended w own b [x] (store_bytes s [x] w') own' b'" by (rule m(3)) simp
  then show ?thesis using m(1,2) by (auto simp: lb_WriteByte_def)
qed

subsection \<open>Flush\<close>

lemma lb_Flush_submits:
  assumes inv: "lb_inv w own b" "submitted w b" "write_n b \<noteq> None" and g: "mcache_ok g"
  shows "\<exists>b' w' own'. lb_Flush g b w = Some (b', w') \<and> lb_inv w' own' b' \<and> submitted w' b' \<and>
    write_n b' \<noteq> None \<and> own \<subseteq> own' \<and> stream w' b' = stream w b \<and>
    lb_Len b' = lb_Len b + lb_MallocLen b \<and> lb_MallocLen b' = 0"
proof -
  obtain hs rs ws wr ts where rd: "ready w own b hs rs ws (wr # ts)" by (rule ready_writeE [OF inv])
  obtain b' w' own' rs' x ts' where f: "lb_Flush g b w = Some (b', w')" "own \<subseteq> own'"
    "ready w' own' b' hs rs' [] (x # ts')"
    "unreads w' (rs' @ [] @ x # ts') = unreads w (rs @ ws @ wr # ts) @ pendings w (ws @ wr # ts)"
    "pendings w' ([] @ x # ts') = []"
    by (rule lb_Flush_rep [OF rd g]) blast
  note i = readyD [OF rd] and i' = readyD [OF f(3)]
  have "lb_inv w' own' b'" "submitted w' b'" using f(3) ready_iff [of w' own' b'] by blast+
  moreover have "write_n b' \<noteq> None" using lb_repD(4) [OF i'(1)] by auto
  moreover have "lb_Len b' = lb_Len b + lb_MallocLen b"
    using i(8) i'(8) lb_repD(12) [OF i(1)] length_pendings [of w "ws @ wr # ts"] unfolding f(4)
    by (simp add: lb_MallocLen_def)
  moreover have "stream w' b' = stream w b" unfolding i(7) i'(7) f(4,5) by simp
  moreover have "lb_MallocLen b' = 0"
    using lb_repD(12) [OF i'(1)] length_pendings [of w' "[] @ x # ts'"] unfolding f(5) by (simp add: lb_MallocLen_def)
  ultimately show ?thesis using f(1,2) by blast
qed

text \<open>
  \<^verbatim>\<open>Malloc(n)\<close> returns a slice of \<^verbatim>\<open>n\<close> bytes, whatever the state of the pool and of the chain, and
  whatever \<open>n\<close> bytes the caller stores into it become exactly the end of the stream, not yet
  readable; every byte written before keeps its value.
\<close>
theorem Malloc_spec:
  assumes "lb_inv w own b" "submitted w b" "write_n b \<noteq> None" "mcache_ok g" "0 < n"
  shows "\<exists>s b' w' own'. lb_Malloc g n b w = Some (s, b', w') \<and> s_len s = n \<and>
    (\<forall>bs. int (length bs) = n \<longrightarrow> appended w own b bs (store_bytes s bs w') own' b')"
proof -
  obtain s b' w' own' where "lb_Malloc g n b w = Some (s, b', w')" "s_len s = n" "cells w' = cells w"
    "\<And>bs. int (length bs) = n \<Longrightarrow> appended w own b bs (store_bytes s bs w') own' b'"
    "appended w own b (slice_bytes w' s) w' own' b'"
    by (rule lb_Malloc_appends [OF assms]) blast
  then show ?thesis by blast
qed

theorem Malloc_spec_witness:
  "\<exists>s b' w' own'. lb_Malloc ex_globals 5000 ex_buffer ex_world = Some (s, b', w') \<and> s_len s = 5000 \<and>
    (\<forall>bs. int (length bs) = 5000 \<longrightarrow> appended ex_world ex_own ex_buffer bs (store_bytes s bs w') own' b')"
  using Malloc_spec [OF ex_inv _ ex_mcache, of 5000] by (simp add: ex_buffer_def)

text \<open>
  \<^verbatim>\<open>WriteBinary(p)\<close> appends the bytes of \<^verbatim>\<open>p\<close> to the stream and returns \<^verbatim>\<open>len(p)\<close>, both when it
  copies and when, above the threshold of 4K, it adopts the caller's array, provided that array
  is not one the buffer already uses.
\<close>
theorem WriteBinary_spec:
  assumes "lb_inv w own b" "submitted w b" "write_n b \<noteq> None" "mcache_ok g"
    and "0 \<le> s_len p" "BinaryInplaceThreshold < s_len p \<longrightarrow> foreign w b p"
  shows "\<exists>b' w' own'. lb_WriteBinary g p b w = Some (s_len p, b', w') \<and>
    appended w own b (slice_bytes w p) w' own' b'"
  using lb_WriteBinary_appends [OF assms(1-5)] assms(6) by blast

definition ex_large :: slice where
  "ex_large = \<lparr>s_arr = 0, s_off = 0, s_len = 5000, s_cap = 5000\<rparr>"

theorem WriteBinary_spec_witness:
  "\<exists>b' w' own'. lb_WriteBinary ex_globals ex_large ex_buffer ex_world = Some (5000, b', w') \<and>
    appended ex_world ex_own ex_buffer (slice_bytes ex_world ex_large) w' own' b'"
proof -
  have "foreign ex_world ex_buffer ex_large"
    using chain_rep [OF world_ok_bounded [OF ex_world_ok] lb_rep_chain(3) [OF ex_rep]]
    by (simp add: foreign_def ex_nd) (simp add: ex_defs ex_large_def)
  then show ?thesis
    using WriteBinary_spec [OF ex_inv _ ex_mcache, of ex_large] by (simp add: ex_buffer_def ex_large_def)
qed

text \<open>
  \<^verbatim>\<open>Flush()\<close> makes everything that was written readable: the stream is unchanged, the length
  grows by \<^verbatim>\<open>MallocLen()\<close>, which becomes 0.
\<close>
theorem Flush_spec:
  assumes "lb_inv w own b" "submitted w b" "write_n b \<noteq> None" "mcache_ok g"
  shows "\<exists>b' w' own'. lb_Flush g b w = Some (b', w') \<and> lb_inv w' own' b' \<and> submitted w' b' \<and>
    write_n b' \<noteq> None \<and> own \<subseteq> own' \<and> stream w' b' = stream w b \<and>
    lb_Len b' = lb_Len b + lb_MallocLen b \<and> lb_MallocLen b' = 0"
  by (rule lb_Flush_submits [OF assms])

theorem Flush_spec_witness:
  "\<exists>b' w' own'. lb_Flush ex_globals ex_buffer ex_world = Some (b', w') \<and> lb_inv w' own' b' \<and>
    stream w' b' = [11, 12, 20, 21] \<and> lb_Len b' = 4"
  using Flush_spec [OF ex_inv _ ex_mcache] ex_stream
  by (auto simp: ex_buffer_def lb_Len_def lb_MallocLen_def)



definition ex_empty_node :: node where
  "ex_empty_node = \<lparr>buf = \<lparr>s_arr = 1, s_off = 0, s_len = 0, s_cap = 16\<rparr>, off = 0, malloc_n = 0,
               refer = 1, mode = 0, origin = None, next_n = None\<rparr>"

definition ex_empty_world :: world where
  "ex_empty_world = \<lparr>cells = (\<lambda>x i. word_of_int (10 * int x + i)), next_arr = 3, freed = [],
               nodes = [0 \<mapsto> ex_empty_node], next_addr = 1, pool = []\<rparr>"

definition ex_empty :: LinkBuffer where
  "ex_empty = \<lparr>length_b = 0, mallocSize = 0, head = Some 0, read = Some 0, flush = Some 0,
                write_n = Some 0, caches = [], cachePeek = None\<rparr>"

lemma ex_empty_nd: "nd_at ex_empty_world 0 = ex_empty_node"
  by (simp add: nd_at_def ex_empty_world_def)

lemma ex_empty_ready: "ready ex_empty_world {0} ex_empty [] [] [] [0]"
proof -
  have "lb_rep ex_empty_world ex_empty [] [] [] [0]"
    by (simp add: lb_rep_def ex_empty_nd node_ok_def pend_len_def apart_def peek_ok_def node_Len_def)
       (simp add: ex_empty_world_def ex_empty_def ex_empty_node_def)
  moreover have "world_ok ex_empty_world {0}"
    by (auto simp: world_ok_def refs_def ex_empty_nd nd_at_def ex_empty_world_def ex_empty_node_def blank_node_def)
  ultimately show ?thesis by (simp add: ready_def ex_empty_nd) (simp add: ex_empty_node_def)
qed

lemma ex_empty_inv: "lb_inv ex_empty_world {0} ex_empty" "submitted ex_empty_world ex_empty"
  using ex_empty_ready ready_iff [of ex_empty_world "{0}" ex_empty] by blast+

lemma ex_empty_stream: "stream ex_empty_world ex_empty = []"
  using readyD(7) [OF ex_empty_ready]
  by (simp add: ex_empty_nd unread_def pend_win_def slice_bytes_def) (simp add: ex_empty_node_def)

definition ex_small :: slice where
  "ex_small = \<lparr>s_arr = 2, s_off = 0, s_len = 3, s_cap = 3\<rparr>"


end
