(* ===== verification/LinkBufferBook.thy ===== *)
theory LinkBufferBook
  imports LinkBufferWriter
begin

section \<open>LinkBuffer: receiving\<close>

text \<open>
  How the poller fills the input buffer of a connection: \<^verbatim>\<open>book\<close> hands out the window for
  \<^verbatim>\<open>readv\<close>, \<^verbatim>\<open>bookAck(n)\<close> submits the first \<open>n\<close> bytes of it. Between the two, \<^verbatim>\<open>mallocSize\<close> does not count
  the booked bytes, so the two are specified together.
\<close>

text \<open>The write node can be booked: it is writable, or full.\<close>

definition bookable :: "world \<Rightarrow> LinkBuffer \<Rightarrow> bool" where
  "bookable w b \<longleftrightarrow>
     (case write_n b of
        None \<Rightarrow> False
      | Some a \<Rightarrow> writable (nd_at w a) \<or> s_cap (buf (nd_at w a)) = malloc_n (nd_at w a))"

definition received :: "world \<Rightarrow> addr set \<Rightarrow> LinkBuffer \<Rightarrow> byte list \<Rightarrow> world \<Rightarrow> addr set \<Rightarrow> LinkBuffer \<Rightarrow> bool" where
  "received w own b bs w' own' b' \<longleftrightarrow>
     lb_inv w' own' b' \<and> submitted w' b' \<and> bookable w' b' \<and> lb_MallocLen b' = 0 \<and> own \<subseteq> own' \<and>
     stream w' b' = stream w b @ bs \<and> lb_Len b' = lb_Len b + int (length bs)"

lemma pends_0D: "pends w as = 0 \<Longrightarrow> a \<in> set as \<Longrightarrow> pend_len (nd_at w a) = 0"
proof (induction as)
  case (Cons c as)
  have "0 \<le> pends w as" "0 \<le> pend_len (nd_at w c)" by (simp_all add: pends_nonneg) (simp add: pend_len_def)
  with Cons show ?case by auto
qed simp

lemma flushed_id: "pend_len nd = 0 \<Longrightarrow> flushed nd = nd"
  by (simp add: flushed_def pend_len_def)

text \<open>The state after \<^verbatim>\<open>bookAck\<close>, from the state before the window was taken.\<close>

lemma ready_book:
  assumes rd: "ready w own b hs rs ws (wr # ts)" and wrt: "writable (nd_at w wr)" and p0: "mallocSize b = 0"
    and n: "0 \<le> n" "malloc_n (nd_at w wr) + n \<le> s_cap (buf (nd_at w wr))"
    and nodes: "nodes w' = (nodes w)(wr \<mapsto> (nd_at w wr)\<lparr>malloc_n := malloc_n (nd_at w wr) + n,
                   buf := (buf (nd_at w wr))\<lparr>s_len := malloc_n (nd_at w wr) + n\<rparr>\<rparr>)"
    and rest: "next_arr w' = next_arr w" "next_addr w' = next_addr w" "pool w' = pool w"
    and mem: "only_in (malloc_win n (nd_at w wr)) w w'"
  shows "ready w' own (b\<lparr>flush := write_n b, length_b := length_b b + n\<rparr>) hs (rs @ ws) [] (wr # ts)"
    and "unreads w' ((rs @ ws) @ [] @ wr # ts) = unreads w (rs @ ws @ wr # ts) @ slice_bytes w' (malloc_win n (nd_at w wr))"
    and "pendings w' ([] @ wr # ts) = []"
proof -
  note i = readyD [OF rd] and R = lb_repD [OF readyD(1) [OF rd]]
  let ?nd = "nd_at w wr"
  define w1 where "w1 = w'\<lparr>nodes := (nodes w)(wr \<mapsto> ?nd\<lparr>malloc_n := malloc_n ?nd + n\<rparr>)\<rparr>"
  have p: "pends w (ws @ wr # ts) = 0" using R(12) p0 by simp
  have oi: "only_in (malloc_win n ?nd) w w1" using mem by (simp add: only_in_def w1_def)
  have fill: "ready w1 own (b\<lparr>mallocSize := mallocSize b + n\<rparr>) hs rs ws (wr # ts)"
    "unreads w1 (rs @ ws @ wr # ts) = unreads w (rs @ ws @ wr # ts)"
    "pendings w1 (ws @ wr # ts) = pendings w (ws @ wr # ts) @ slice_bytes w1 (malloc_win n ?nd)"
    by (rule ready_fill [OF rd wrt n _ _ _ _ oi]; simp add: w1_def rest)+
  have pe: "pendings w (ws @ wr # ts) = []"
    using length_pendings [of w "ws @ wr # ts"] p by (simp del: seq_simps)
  have wrl: "wr \<notin> set ws" using R(5) by auto
  have at1: "nd_at w1 a = (if a = wr then ?nd\<lparr>malloc_n := malloc_n ?nd + n\<rparr> else nd_at w a)" for a
    by (simp add: nd_at_def w1_def)
  have len: "malloc_n ?nd = s_len (buf ?nd)"
    using pends_0D [OF p, of wr] R(6) [of wr] wrt by (simp add: pend_len_def node_ok_def)
  have fl: "flushed (?nd\<lparr>malloc_n := malloc_n ?nd + n\<rparr>) =
      ?nd\<lparr>malloc_n := malloc_n ?nd + n, buf := (buf ?nd)\<lparr>s_len := malloc_n ?nd + n\<rparr>\<rparr>"
    using n(1) len by (cases "nd_at w wr") (auto simp: flushed_def)
  have nd': "nodes w' = (\<lambda>a. if a \<in> set (ws @ [wr]) then Some (flushed (nd_at w1 a)) else nodes w1 a)"
  proof
    fix a
    show "nodes w' a = (if a \<in> set (ws @ [wr]) then Some (flushed (nd_at w1 a)) else nodes w1 a)"
    proof (cases "a \<in> set ws")
      case True
      then have "a \<noteq> wr" "pend_len (nd_at w a) = 0" "a \<in> set (hs @ rs @ ws @ wr # ts)"
        using wrl pends_0D [OF p, of a] by auto
      moreover obtain nd where "nodes w a = Some nd" using lb_rep_nodes [OF i(1) calculation(3)] by blast
      ultimately show ?thesis using True by (simp add: nodes at1 flushed_id)
    qed (auto simp: nodes at1 fl w1_def)
  qed
  have pn: "pends w1 (ws @ [wr]) = n"
  proof -
    have "pends w1 ws = pends w ws" using wrl by (induction ws) (auto simp: at1)
    moreover have "pends w ws = 0" using p pends_nonneg [of w ws] pends_nonneg [of w ts]
      by (simp add: pend_len_def)
    ultimately show ?thesis using n(1) len by (simp add: at1 pend_len_def)
  qed
  have beq: "b\<lparr>flush := write_n b, length_b := length_b b + n\<rparr> =
      (b\<lparr>mallocSize := mallocSize b + n\<rparr>)\<lparr>mallocSize := 0, flush := write_n (b\<lparr>mallocSize := mallocSize b + n\<rparr>),
        length_b := length_b (b\<lparr>mallocSize := mallocSize b + n\<rparr>) + pends w1 (ws @ [wr])\<rparr>"
    using p0 pn by (cases b) simp
  have same: "cells w' = cells w1" "next_arr w' = next_arr w1" "next_addr w' = next_addr w1" "pool w' = pool w1"
    by (simp_all add: w1_def)
  note F = ready_flush [OF fill(1) nd' same refl]
  show "ready w' own (b\<lparr>flush := write_n b, length_b := length_b b + n\<rparr>) hs (rs @ ws) [] (wr # ts)"
    unfolding beq by (rule F(1))
  have sb: "slice_bytes w1 s = slice_bytes w' s" for s by (simp add: slice_bytes_def w1_def)
  show "unreads w' ((rs @ ws) @ [] @ wr # ts) = unreads w (rs @ ws @ wr # ts) @ slice_bytes w' (malloc_win n (nd_at w wr))"
    unfolding F(2) fill(2,3) pe sb by simp
  show "pendings w' ([] @ wr # ts) = []" by (rule F(3))
qed


lemma lb_book_receives:
  assumes inv: "lb_inv w own b" "submitted w b" "bookable w b" "lb_MallocLen b = 0" and g: "mcache_ok g"
    and sz: "0 < bookSize" "0 < maxSize"
  shows "\<exists>s b1 w1. lb_book g bookSize maxSize b w = Some (s, b1, w1) \<and> 0 < s_len s \<and> s_len s \<le> bookSize \<and>
    s_arr s < next_arr w1 \<and>
    (\<forall>bs. int (length bs) \<le> s_len s \<longrightarrow>
      (\<exists>b2 w2 own2. lb_bookAck (int (length bs)) b1 (store_bytes s bs w1) = Some (lb_Len b2, b2, w2) \<and>
         received w own b bs w2 own2 b2))"
proof -
  have wn: "write_n b \<noteq> None" using inv(3) by (auto simp: bookable_def split: option.splits)
  obtain hs rs ws wr ts where rd: "ready w own b hs rs ws (wr # ts)" by (rule ready_writeE [OF inv(1,2) wn])
  have wr: "write_n b = Some wr" using lb_repD(4) [OF readyD(1) [OF rd]] by simp
  have "nodes w wr = Some (nd_at w wr)" by (rule lb_rep_nodes [OF readyD(1) [OF rd]]) simp
  then obtain nd where nd: "nodes w wr = Some nd" "nd_at w wr = nd" by blast
  have ok: "node_ok nd" using lb_repD(6) [OF readyD(1) [OF rd], of wr] nd by simp
  have m0: "mallocSize b = 0" using inv(4) by (simp add: lb_MallocLen_def)
  have core: "\<exists>s w1. write_Malloc l b0 w0 = Some (s, w1) \<and> s_len s = l \<and> s_arr s < next_arr w1 \<and>
      (\<forall>bs. int (length bs) \<le> l \<longrightarrow>
        (\<exists>b2 w2 own2. lb_bookAck (int (length bs)) b0 (store_bytes s bs w1) = Some (lb_Len b2, b2, w2) \<and>
           received w own b bs w2 own2 b2))"
    if r0: "ready w0 own0 b0 hs rs ws0 (x # ts0)" and x: "writable (nd_at w0 x)"
      "0 < l" "malloc_n (nd_at w0 x) + l \<le> s_cap (buf (nd_at w0 x))"
      and b0: "mallocSize b0 = 0" "length_b b0 = length_b b"
      and u: "unreads w0 (rs @ ws0 @ x # ts0) = unreads w (rs @ ws @ wr # ts)"
      and own: "own \<subseteq> own0" for w0 own0 b0 ws0 x ts0 l
  proof -
    note i0 = readyD [OF r0] and R0 = lb_repD [OF readyD(1) [OF r0]]
    have "nodes w0 x = Some (nd_at w0 x)" by (rule lb_rep_nodes [OF i0(1)]) simp
    then obtain xd where xd: "nodes w0 x = Some xd" "nd_at w0 x = xd" by blast
    have okx: "node_ok xd" "s_arr (buf xd) < next_arr w0" using R0(6,7) [of x] xd by simp_all
    have wx: "write_n b0 = Some x" using R0(4) by simp
    have len: "malloc_n xd = s_len (buf xd)"
      using pends_0D [of w0 "ws0 @ x # ts0" x] R0(12) b0(1) okx(1) x(1) xd(2) by (simp add: pend_len_def node_ok_def)
    let ?s = "malloc_win l xd" and ?w1 = "set_node x (xd\<lparr>malloc_n := malloc_n xd + l\<rparr>) w0"
    have run: "write_Malloc l b0 w0 = Some (?s, ?w1)"
      using x(2,3) okx(1) xd
      by (simp add: write_Malloc_def wx node_Malloc_def reslice3_def malloc_win_def node_ok_def)
    have ack: "\<exists>b2 w2 own2. lb_bookAck (int (length bs)) b0 (store_bytes ?s bs ?w1) = Some (lb_Len b2, b2, w2) \<and>
        received w own b bs w2 own2 b2" if le: "int (length bs) \<le> l" for bs
    proof -
      let ?n = "int (length bs)"
      let ?b2 = "b0\<lparr>flush := write_n b0, length_b := length_b b0 + ?n\<rparr>"
      let ?x2 = "xd\<lparr>malloc_n := malloc_n xd + ?n, buf := (buf xd)\<lparr>s_len := malloc_n xd + ?n\<rparr>\<rparr>"
      let ?w2 = "set_node x ?x2 (store_bytes ?s bs ?w1)"
      have cap: "malloc_n xd + ?n \<le> s_cap (buf xd)" using x(3) le xd(2) by simp
      have run2: "lb_bookAck ?n b0 (store_bytes ?s bs ?w1) = Some (lb_Len ?b2, ?b2, ?w2)"
        using cap okx(1) len
        by (simp add: lb_bookAck_def wx reslice_def node_ok_def slice_set_len recalLen_def Let_def lb_Len_def add.commute)
      have oi: "only_in (malloc_win ?n (nd_at w0 x)) w0 ?w2"
        unfolding xd(2) by (auto simp: only_in_def malloc_win_def store_bytes_def)
      have nx: "nodes ?w2 = (nodes w0)(x \<mapsto> (nd_at w0 x)\<lparr>malloc_n := malloc_n (nd_at w0 x) + ?n,
          buf := (buf (nd_at w0 x))\<lparr>s_len := malloc_n (nd_at w0 x) + ?n\<rparr>\<rparr>)"
        unfolding xd(2) by simp
      have rst: "next_arr ?w2 = next_arr w0" "next_addr ?w2 = next_addr w0" "pool ?w2 = pool w0" by simp_all
      note bk = ready_book [OF r0 x(1) b0(1) of_nat_0_le_iff cap [folded xd(2)] nx rst oi, unfolded xd(2)]
      have bs: "slice_bytes ?w2 (malloc_win ?n xd) = bs"
        unfolding slice_bytes_set_node by (rule slice_bytes_store_same) (simp_all add: malloc_win_def)
      note i2 = readyD [OF bk(1)] and i = readyD [OF rd]
      have "lb_inv ?w2 own0 ?b2" "submitted ?w2 ?b2" using bk(1) ready_iff [of ?w2 own0 ?b2] by blast+
      moreover have "bookable ?w2 ?b2" using x(1) xd(2) wx
        by (simp add: bookable_def nd_at_set_node writable_def getMode_def)
      moreover have "stream ?w2 ?b2 = stream w b @ bs"
      proof -
        have "pendings w (ws @ wr # ts) = []"
          using length_pendings [of w "ws @ wr # ts"] lb_repD(12) [OF i(1)] m0 by (simp del: seq_simps)
        then show ?thesis unfolding i2(7) i(7) bk(2,3) bs u by (simp del: seq_simps)
      qed
      moreover have "lb_Len ?b2 = lb_Len b + ?n" using b0(2) by (simp add: lb_Len_def)
      ultimately have "received w own b bs ?w2 own0 ?b2" using own b0(1) by (simp add: received_def lb_MallocLen_def)
      with run2 show ?thesis by blast
    qed
    show ?thesis using run ack okx(2) by (intro exI [of _ ?s] exI [of _ ?w1]) (simp add: malloc_win_def)
  qed
  show ?thesis
  proof (cases "s_cap (buf nd) - malloc_n nd = 0")
    case False
    let ?l = "min (s_cap (buf nd) - malloc_n nd) bookSize"
    have wrt: "writable (nd_at w wr)" using inv(3) False nd by (simp add: bookable_def wr)
    have l: "0 < ?l" "malloc_n (nd_at w wr) + ?l \<le> s_cap (buf (nd_at w wr))"
      using False ok sz(1) nd by (auto simp: node_ok_def)
    obtain s w1 where c: "write_Malloc ?l b w = Some (s, w1)" "s_len s = ?l" "s_arr s < next_arr w1"
      "\<forall>bs. int (length bs) \<le> ?l \<longrightarrow>
        (\<exists>b2 w2 own2. lb_bookAck (int (length bs)) b (store_bytes s bs w1) = Some (lb_Len b2, b2, w2) \<and>
           received w own b bs w2 own2 b2)"
      using core [OF rd wrt l m0 refl refl subset_refl] by blast
    have "lb_book g bookSize maxSize b w = Some (s, b, w1)"
      using c(1) False nd by (auto simp: lb_book_def wr min_def Let_def split: if_splits)
    then show ?thesis using c(2-4) l(1) by auto
  next
    case True
    obtain x w0 where a: "append_node g maxSize b w = Some (b\<lparr>write_n := Some x\<rparr>, w0)"
      "ready w0 (insert x own) (b\<lparr>write_n := Some x\<rparr>) hs rs (ws @ [wr]) [x]"
      "unreads w0 (rs @ ws @ [wr, x]) = unreads w (rs @ ws @ wr # ts)" "new_node g maxSize w (nd_at w0 x)"
      by (rule append_node_ok [OF rd g]) blast
    let ?l = "min maxSize bookSize" and ?b0 = "b\<lparr>write_n := Some x\<rparr>"
    have x: "writable (nd_at w0 x)" "0 < ?l" "malloc_n (nd_at w0 x) + ?l \<le> s_cap (buf (nd_at w0 x))"
      using a(4) sz by (auto simp: new_node_def)
    have u: "unreads w0 (rs @ (ws @ [wr]) @ [x]) = unreads w (rs @ ws @ wr # ts)" using a(3) by (simp del: seq_simps)
    have b0: "mallocSize ?b0 = 0" "length_b ?b0 = length_b b" using m0 by simp_all
    obtain s w1 where c: "write_Malloc ?l ?b0 w0 = Some (s, w1)" "s_len s = ?l" "s_arr s < next_arr w1"
      "\<forall>bs. int (length bs) \<le> ?l \<longrightarrow>
        (\<exists>b2 w2 own2. lb_bookAck (int (length bs)) ?b0 (store_bytes s bs w1) = Some (lb_Len b2, b2, w2) \<and>
           received w own b bs w2 own2 b2)"
      using core [OF a(2) x b0 u subset_insertI] by blast
    have "lb_book g bookSize maxSize b w = Some (s, ?b0, w1)"
      using c(1) True nd a(1) by (auto simp: lb_book_def wr min_def Let_def split: if_splits)
    then show ?thesis using c(2-4) x(2) by auto
  qed
qed


text \<open>\<^verbatim>\<open>resetTail\<close> ends a chain of large nodes with an empty read-only one.\<close>

lemma lb_resetTail_ok:
  assumes inv: "lb_inv w own b" "submitted w b" "bookable w b" "lb_MallocLen b = 0" and g: "mcache_ok g"
  shows "\<exists>b' w' own'. lb_resetTail g maxSize b w = Some (b', w') \<and> received w own b [] w' own' b'"
proof (cases "maxSize \<le> pagesize")
  case True
  then show ?thesis using inv by (auto simp: lb_resetTail_def received_def)
next
  case False
  have wn: "write_n b \<noteq> None" using inv(3) by (auto simp: bookable_def split: option.splits)
  obtain hs rs ws wr ts where rd: "ready w own b hs rs ws (wr # ts)" by (rule ready_writeE [OF inv(1,2) wn])
  obtain x w1 where a: "append_node g 0 b w = Some (b\<lparr>write_n := Some x\<rparr>, w1)"
    "ready w1 (insert x own) (b\<lparr>write_n := Some x\<rparr>) hs rs (ws @ [wr]) [x]"
    "unreads w1 (rs @ ws @ [wr, x]) = unreads w (rs @ ws @ wr # ts)"
    "pendings w1 (ws @ [wr, x]) = pendings w (ws @ wr # ts)" "new_node g 0 w (nd_at w1 x)"
    by (rule append_node_ok [OF rd g]) blast
  note i = readyD [OF rd] and R1 = lb_repD [OF readyD(1) [OF a(2)]]
  let ?b1 = "b\<lparr>write_n := Some x\<rparr>" and ?b' = "b\<lparr>write_n := Some x, flush := Some x\<rparr>"
  have p0: "pends w1 ((ws @ [wr]) @ [x]) = 0" using R1(12) inv(4) by (simp add: lb_MallocLen_def)
  have nd: "nodes w1 = (\<lambda>c. if c \<in> set ((ws @ [wr]) @ [x]) then Some (flushed (nd_at w1 c)) else nodes w1 c)"
  proof
    fix c
    show "nodes w1 c = (if c \<in> set ((ws @ [wr]) @ [x]) then Some (flushed (nd_at w1 c)) else nodes w1 c)"
    proof (cases "c \<in> set ((ws @ [wr]) @ [x])")
      case True
      then have "c \<in> set (hs @ rs @ (ws @ [wr]) @ [x])" by auto
      then have "nodes w1 c = Some (nd_at w1 c)" by (rule lb_rep_nodes [OF readyD(1) [OF a(2)]])
      moreover have "flushed (nd_at w1 c) = nd_at w1 c" by (rule flushed_id) (rule pends_0D [OF p0 True])
      ultimately show ?thesis using True by metis
    qed (metis (no_types))
  qed
  have m0: "mallocSize b = 0" using inv(4) by (simp add: lb_MallocLen_def)
  have beq: "?b' = ?b1\<lparr>mallocSize := 0, flush := write_n ?b1, length_b := length_b ?b1 + pends w1 ((ws @ [wr]) @ [x])\<rparr>"
    unfolding p0 using m0 by (cases b) simp
  have f: "ready w1 (insert x own) ?b' hs (rs @ ws @ [wr]) [] [x]"
    "unreads w1 ((rs @ ws @ [wr]) @ [] @ [x]) = unreads w1 (rs @ (ws @ [wr]) @ [x]) @ pendings w1 ((ws @ [wr]) @ [x])"
    "pendings w1 ([] @ [x]) = []"
    using ready_flush [OF a(2) nd refl refl refl refl beq] by (simp_all del: seq_simps)
  note i' = readyD [OF f(1)]
  have "lb_inv w1 (insert x own) ?b'" "submitted w1 ?b'" using f(1) ready_iff [of w1 "insert x own" ?b'] by blast+
  moreover have "bookable w1 ?b'" using a(5) by (simp add: bookable_def new_node_def nil_slice_def)
  moreover have "stream w1 ?b' = stream w b"
  proof -
    have "pendings w1 ((ws @ [wr]) @ [x]) = pendings w (ws @ wr # ts)" using a(4) by (simp del: seq_simps)
    moreover have "pendings w (ws @ wr # ts) = []"
      using length_pendings [of w "ws @ wr # ts"] lb_repD(12) [OF i(1)] m0 by (simp del: seq_simps)
    moreover have "unreads w1 (rs @ (ws @ [wr]) @ [x]) = unreads w (rs @ ws @ wr # ts)" using a(3) by (simp del: seq_simps)
    ultimately show ?thesis unfolding i'(7) i(7) f(2,3) by simp
  qed
  moreover have "lb_resetTail g maxSize b w = Some (?b', w1)" using False a(1) by (simp add: lb_resetTail_def)
  ultimately show ?thesis using m0 by (auto simp: received_def lb_Len_def lb_MallocLen_def)
qed

lemma consumed_bookable:
  assumes "lb_inv w own b" "submitted w b" "bookable w b" "consumed w own b n w' b'"
  shows "bookable w' b'"
proof -
  have wn: "write_n b \<noteq> None" using assms(3) by (auto simp: bookable_def split: option.splits)
  obtain hs rs ws wr ts where rd: "ready w own b hs rs ws (wr # ts)" by (rule ready_writeE [OF assms(1,2) wn])
  have wr: "write_n b = Some wr" "wr \<in> own" using lb_repD(4) [OF readyD(1) [OF rd]] readyD(5) [OF rd] by auto
  then have "write_n b' = Some wr" "alike w w' wr" using assms(4) by (auto simp: consumed_def)
  then show ?thesis using assms(3) wr(1) by (simp add: bookable_def alike_def node_like_def)
qed

lemma lb_Release_received:
  assumes "lb_inv w own b" "submitted w b" "bookable w b" "lb_MallocLen b = 0"
  shows "\<exists>b' w' own'. lb_Release b w = Some (b', w') \<and> lb_inv w' own' b' \<and> submitted w' b' \<and> bookable w' b' \<and>
    lb_MallocLen b' = 0 \<and> stream w' b' = stream w b \<and> lb_Len b' = lb_Len b"
proof -
  obtain b' w' gone where r: "lb_Release b w = Some (b', w')" "lb_inv w' (own - set gone) b'" "submitted w' b'"
    "stream w' b' = stream w b" "lb_Len b' = lb_Len b" "mallocSize b' = mallocSize b"
    "write_n b' = write_n b" "\<And>a. write_n b = Some a \<Longrightarrow> nodes w' a = nodes w a"
    by (rule lb_Release_ok [OF assms(1,2)]) blast
  have "bookable w' b'" using assms(3) r(7,8) by (auto simp: bookable_def nd_at_def split: option.splits)
  then show ?thesis using r(1-6) assms(4) by (auto simp: lb_MallocLen_def)
qed

text \<open>
  C17: receiving. \<^verbatim>\<open>book\<close> returns a window of at least one and at most \<^verbatim>\<open>bookSize\<close> bytes, and for every
  number of bytes that arrive in it \<^verbatim>\<open>bookAck\<close> makes exactly those bytes, in order, the new end of
  the readable stream, and returns the new length.
\<close>
theorem book_bookAck:
  assumes "lb_inv w own b" "submitted w b" "bookable w b" "lb_MallocLen b = 0" "mcache_ok g"
    and "0 < bookSize" "0 < maxSize"
  shows "\<exists>s b1 w1. lb_book g bookSize maxSize b w = Some (s, b1, w1) \<and> 0 < s_len s \<and> s_len s \<le> bookSize \<and>
    (\<forall>bs. int (length bs) \<le> s_len s \<longrightarrow>
      (\<exists>b2 w2 own2. lb_bookAck (int (length bs)) b1 (store_bytes s bs w1) = Some (lb_Len b2, b2, w2) \<and>
         received w own b bs w2 own2 b2))"
  using lb_book_receives [OF assms] by blast

theorem book_bookAck_witness:
  "\<exists>s b1 w1. lb_book ex_globals 8192 8192 ex_buffer ex_world = Some (s, b1, w1) \<and> 0 < s_len s \<and> s_len s \<le> 8192 \<and>
    (\<forall>bs. int (length bs) \<le> s_len s \<longrightarrow>
      (\<exists>b2 w2 own2. lb_bookAck (int (length bs)) b1 (store_bytes s bs w1) = Some (lb_Len b2, b2, w2) \<and>
         received ex_world ex_own ex_buffer bs w2 own2 b2))"
proof -
  have "bookable ex_world ex_buffer" by (simp add: bookable_def ex_buffer_def ex_nd writable_def getMode_def) (simp add: ex_defs readonlyMask_def)
  then show ?thesis
    using book_bookAck [OF ex_inv _ _ ex_mcache, of 8192 8192] by (simp add: ex_buffer_def lb_MallocLen_def)
qed

end
