(* ===== verification/LinkBufferSend.thy ===== *)
theory LinkBufferSend
  imports LinkBufferBook "HOL-Library.Sublist"
begin

section \<open>LinkBuffer: sending\<close>

text \<open>
  \<^verbatim>\<open>GetBytes\<close>, which hands the readable bytes to \<^verbatim>\<open>sendmsg\<close> as a vector of windows, without consuming
  them.
\<close>

definition vec_bytes :: "'m memory_scheme \<Rightarrow> slice list \<Rightarrow> byte list" where
  "vec_bytes m vs = concat (map (slice_bytes m) vs)"

lemma node_rest:
  assumes "node_ok nd"
  shows "reslice (buf nd) (off nd) (s_len (buf nd)) =
      Some \<lparr>s_arr = s_arr (buf nd), s_off = s_off (buf nd) + off nd, s_len = s_len (buf nd) - off nd,
            s_cap = s_cap (buf nd) - off nd\<rparr>"
    and "slice_bytes m \<lparr>s_arr = s_arr (buf nd), s_off = s_off (buf nd) + off nd, s_len = s_len (buf nd) - off nd,
            s_cap = s_cap (buf nd) - off nd\<rparr> = unread m nd"
proof -
  show "reslice (buf nd) (off nd) (s_len (buf nd)) =
      Some \<lparr>s_arr = s_arr (buf nd), s_off = s_off (buf nd) + off nd, s_len = s_len (buf nd) - off nd,
            s_cap = s_cap (buf nd) - off nd\<rparr>"
    using assms by (simp add: reslice_def node_ok_def)
  have "slice_bytes m \<lparr>s_arr = s_arr (buf nd), s_off = s_off (buf nd) + off nd, s_len = s_len (buf nd) - off nd,
            s_cap = s_cap (buf nd) - off nd\<rparr> =
      take (nat (s_len (buf nd) - off nd)) (drop (nat (off nd)) (slice_bytes m (buf nd)))"
    using assms by (intro slice_bytes_take_drop) (auto simp: node_ok_def)
  then show "slice_bytes m \<lparr>s_arr = s_arr (buf nd), s_off = s_off (buf nd) + off nd, s_len = s_len (buf nd) - off nd,
            s_cap = s_cap (buf nd) - off nd\<rparr> = unread m nd"
    using assms by (simp add: unread_def node_ok_def nat_diff_distrib)
qed

lemma GetBytes_loop_ok:
  assumes "lseg (nodes w) p as fl" "\<forall>a\<in>set as. fl \<noteq> Some a \<and> node_ok (nd_at w a)"
  shows "\<exists>vs r bs cs. GetBytes_loop p fl room w = Some (vs, r) \<and> as = bs @ cs \<and>
    vec_bytes w vs = unreads w bs \<and> (r > 0 \<longrightarrow> cs = []) \<and> length vs + r = room \<and>
    (\<forall>v\<in>set vs. 0 < s_len v)"
  using assms
proof (induction as arbitrary: p room)
  case Nil
  then show ?case by (subst GetBytes_loop.simps) (auto simp: vec_bytes_def)
next
  case (Cons a as)
  obtain nd where nd: "p = Some a" "nodes w a = Some nd" "lseg (nodes w) (next_n nd) as fl"
    using Cons.prems(1) by (auto split: option.splits)
  have at: "nd_at w a = nd" using nd(2) by simp
  have ok: "node_ok nd" and q: "Some a \<noteq> fl" using Cons.prems(2) at by auto
  note ih = Cons.IH [OF nd(3)] 
  have pr: "\<forall>c\<in>set as. fl \<noteq> Some c \<and> node_ok (nd_at w c)" using Cons.prems(2) by simp
  show ?case
  proof (cases "room > 0")
    case False
    then have "GetBytes_loop p fl room w = Some ([], room)" by (subst GetBytes_loop.simps) simp
    with False show ?thesis by (intro exI [of _ "[]"] exI [of _ room] exI [of _ "a # as"]) (simp add: vec_bytes_def)
  next
    case room: True
    show ?thesis
    proof (cases "node_Len nd > 0")
      case True
      obtain vs r bs cs where i: "GetBytes_loop (next_n nd) fl (room - 1) w = Some (vs, r)" "as = bs @ cs"
        "vec_bytes w vs = unreads w bs" "r > 0 \<longrightarrow> cs = []" "length vs + r = room - 1" "\<forall>v\<in>set vs. 0 < s_len v"
        using ih [OF pr, of "room - 1"] by blast
      let ?v = "\<lparr>s_arr = s_arr (buf nd), s_off = s_off (buf nd) + off nd, s_len = s_len (buf nd) - off nd,
            s_cap = s_cap (buf nd) - off nd\<rparr>"
      have "GetBytes_loop p fl room w = Some (?v # vs, r)"
        using room True q i(1) node_rest(1) [OF ok] by (subst GetBytes_loop.simps) (simp add: nd(1,2))
      moreover have "vec_bytes w (?v # vs) = unreads w (a # bs)"
        using i(3) node_rest(2) [OF ok, of w] by (simp add: vec_bytes_def at)
      moreover have "length (?v # vs) + r = room" using i(5) room by simp
      moreover have "\<forall>v\<in>set (?v # vs). 0 < s_len v" using i(6) True by (simp add: node_Len_def)
      ultimately show ?thesis using i(2,4) by (intro exI [of _ "?v # vs"] exI [of _ r] exI [of _ "a # bs"] exI [of _ cs]) simp
    next
      case False
      obtain vs r bs cs where i: "GetBytes_loop (next_n nd) fl room w = Some (vs, r)" "as = bs @ cs"
        "vec_bytes w vs = unreads w bs" "r > 0 \<longrightarrow> cs = []" "length vs + r = room" "\<forall>v\<in>set vs. 0 < s_len v"
        using ih [OF pr, of room] by blast
      have "GetBytes_loop p fl room w = Some (vs, r)"
        using room False q i(1) by (subst GetBytes_loop.simps) (simp add: nd(1,2))
      moreover have "unread w nd = []" using False ok node_Len_nonneg [OF ok] by (simp add: unread_Nil_iff)
      ultimately show ?thesis using i(2-6) at
        by (intro exI [of _ vs] exI [of _ r] exI [of _ "a # bs"] exI [of _ cs]) simp
    qed
  qed
qed

lemma lb_GetBytes_prefix:
  assumes inv: "lb_inv w own b" "submitted w b" "flush b \<noteq> None" and n: "0 < plen"
  shows "\<exists>vs. lb_GetBytes plen b w = Some vs \<and> prefix (vec_bytes w vs) (take (nat (lb_Len b)) (stream w b)) \<and>
    length vs \<le> plen \<and> (0 < lb_Len b \<longrightarrow> vec_bytes w vs \<noteq> []) \<and> (\<forall>v\<in>set vs. 0 \<le> s_len v)"
proof -
  obtain hs rs ws ts where rd: "ready w own b hs rs ws ts" by (rule readyE [OF inv(1,2)])
  note i = readyD [OF rd] and R = lb_repD [OF readyD(1) [OF rd]]
  let ?U = "unreads w (rs @ ws @ ts)"
  have ub: "take (nat (lb_Len b)) (stream w b) = ?U" unfolding i(7) i(8) [symmetric] by (simp del: seq_simps)
  obtain f zs where f: "ws @ ts = f # zs" "flush b = Some f"
    using lb_rep_chain(2) [OF i(1)] inv(3) by (cases "ws @ ts") auto
  have fS: "f \<in> set (hs @ rs @ ws @ ts)" using f(1) by (metis Un_iff list.set_intros(1) set_append)
  have "nodes w f = Some (nd_at w f)" by (rule lb_rep_nodes [OF i(1) fS])
  then obtain fd where fd: "nodes w f = Some fd" "nd_at w f = fd" by blast
  have okf: "node_ok fd" using R(6) [OF fS] fd by simp
  have frs: "f \<notin> set rs" using R(5) f(1) by auto
  have zs: "unreads w zs = []"
  proof (rule unreads_empty)
    fix a assume "a \<in> set zs"
    then have t: "a \<in> set (tl (ws @ ts))" unfolding f(1) by simp
    have "a \<in> set (hs @ rs @ ws @ ts)" using in_set_tlD [OF t] by simp
    then have "node_ok (nd_at w a)" by (rule R(6))
    then show "unread w (nd_at w a) = []" using i(2) [OF t] by (simp add: unread_Nil_iff)
  qed
  have U: "?U = unreads w rs @ unread w fd"
    using zs f(1) fd(2) by simp
  obtain vs r bs cs where g: "GetBytes_loop (read b) (flush b) plen w = Some (vs, r)" "rs = bs @ cs"
    "vec_bytes w vs = unreads w bs" "r > 0 \<longrightarrow> cs = []" "length vs + r = plen" "\<forall>v\<in>set vs. 0 < s_len v"
    using GetBytes_loop_ok [OF R(2), of plen] R(6) frs f(2) by auto
  let ?v = "\<lparr>s_arr = s_arr (buf fd), s_off = s_off (buf fd) + off fd, s_len = s_len (buf fd) - off fd,
            s_cap = s_cap (buf fd) - off fd\<rparr>"
  show ?thesis
  proof (cases "r > 0")
    case True
    have "lb_GetBytes plen b w = Some (vs @ [?v])"
      using n g(1) True node_rest(1) [OF okf] fd f(2) by (simp add: lb_GetBytes_def)
    moreover have all: "vec_bytes w (vs @ [?v]) = ?U"
      using g(2-4) True node_rest(2) [OF okf, of w] unfolding U by (simp add: vec_bytes_def)
    moreover have "?U \<noteq> []" if "0 < lb_Len b" using i(8) that by force
    moreover have "\<forall>v\<in>set (vs @ [?v]). 0 \<le> s_len v" using g(6) okf by (auto simp: node_ok_def)
    ultimately show ?thesis unfolding ub using g(5) True by (intro exI [of _ "vs @ [?v]"]) (auto simp del: seq_simps)
  next
    case False
    have "lb_GetBytes plen b w = Some vs" using n g(1) False by (simp add: lb_GetBytes_def)
    moreover have "prefix (vec_bytes w vs) ?U" unfolding g(3) U g(2) by (auto simp: prefix_def)
    moreover have "vec_bytes w vs \<noteq> []"
    proof -
      have "vs \<noteq> []" using g(5) False n by auto
      then have "slice_bytes w (hd vs) \<noteq> []" using g(6) by (cases vs) (auto simp: slice_bytes_def)
      then show ?thesis using \<open>vs \<noteq> []\<close> by (cases vs) (auto simp: vec_bytes_def)
    qed
    moreover have "\<forall>v\<in>set vs. 0 \<le> s_len v" using g(6) by auto
    ultimately show ?thesis unfolding ub using g(5) by (intro exI [of _ vs]) auto
  qed
qed

text \<open>
  C18: \<^verbatim>\<open>GetBytes(p)\<close> with a non-empty vector \<^verbatim>\<open>p\<close> fills at most \<^verbatim>\<open>len(p)\<close> of its places with windows whose
  bytes, put together, are a prefix of the readable bytes, and not an empty one unless nothing is
  readable.
\<close>
theorem GetBytes_spec:
  assumes "lb_inv w own b" "submitted w b" "flush b \<noteq> None" "0 < plen"
  shows "\<exists>vs. lb_GetBytes plen b w = Some vs \<and> prefix (vec_bytes w vs) (take (nat (lb_Len b)) (stream w b)) \<and>
    length vs \<le> plen \<and> (0 < lb_Len b \<longrightarrow> vec_bytes w vs \<noteq> [])"
  using lb_GetBytes_prefix [OF assms] by blast

theorem GetBytes_spec_witness:
  "\<exists>vs. lb_GetBytes 32 ex_buffer ex_world = Some vs \<and> prefix (vec_bytes ex_world vs) [11, 12, 20, 21] \<and>
    length vs \<le> 32 \<and> vec_bytes ex_world vs \<noteq> []"
  using GetBytes_spec [OF ex_inv, of 32] by (simp add: ex_Len ex_stream) (simp add: ex_buffer_def)

text \<open>
  With a nil vector the places are counted without the last node, so its bytes are left out:
  of the readable bytes 11, 12, 20, 21 only the first two are returned.
\<close>

lemma GetBytes_nil_incomplete:
  "\<exists>v. lb_GetBytes 0 ex_buffer ex_world = Some [v] \<and> slice_bytes ex_world v = [11, 12] \<and>
    stream ex_world ex_buffer = [11, 12, 20, 21] \<and> lb_Len ex_buffer = 4"
proof -
  have c: "count_nodes (Some 0) (Some 1) ex_world = Some 1"
    by (subst count_nodes.simps, simp add: ex_defs, subst count_nodes.simps, simp)
  have g: "GetBytes_loop (Some 0) (Some 1) 1 ex_world =
      Some ([\<lparr>s_arr = 1, s_off = 1, s_len = 2, s_cap = 2\<rparr>], 0)"
    by (subst GetBytes_loop.simps, simp add: ex_defs node_Len_def reslice_def, subst GetBytes_loop.simps, simp)
  have "lb_GetBytes 0 ex_buffer ex_world = Some [\<lparr>s_arr = 1, s_off = 1, s_len = 2, s_cap = 2\<rparr>]"
    using c g by (simp add: lb_GetBytes_def ex_buffer_def)
  moreover have "slice_bytes ex_world \<lparr>s_arr = 1, s_off = 1, s_len = 2, s_cap = 2\<rparr> = [11, 12]"
    by (simp add: slice_bytes_def ex_world_def upt_rec)
  ultimately show ?thesis using ex_stream ex_Len by auto
qed

end
