(* ===== verification/LinkBufferQueue.thy ===== *)
theory LinkBufferQueue
  imports LinkBufferSend
begin

section \<open>A buffer is a queue of bytes\<close>

text \<open>
  The contract of \<^verbatim>\<open>nocopy.go\<close>: a buffer is two sequences of bytes, those that can be read and those
  that were written and not yet flushed. The locale says what an implementation promises for each
  operation, and concludes for sequences of them; \<^verbatim>\<open>LinkBuffer\<close>, with its chain of reference-counted nodes
  on the heap, is an instance.
\<close>

subsection \<open>The abstract queue\<close>

datatype buf_op =
  ONext int | OPeek int | OSkip int | OReadBinary int | OReadString int | OReadByte | OUntil byte
| ORelease | OLen | OMalloc "byte list" | OWriteBinary "byte list" | OWriteString "byte list"
| OWriteByte byte | OMallocLen | OFlush

datatype buf_res = RBytes "byte list" | RInt int | RFail error | ROk

type_synonym queue = "byte list \<times> byte list"

definition take_front :: "string \<Rightarrow> int \<Rightarrow> queue \<Rightarrow> buf_res \<times> queue" where
  "take_front name n q =
     (if n \<le> 0 then (RBytes [], q)
      else if int (length (fst q)) < n then (RFail (EFmt name n), q)
      else (RBytes (take (nat n) (fst q)), drop (nat n) (fst q), snd q))"

fun queue_step :: "buf_op \<Rightarrow> queue \<Rightarrow> buf_res \<times> queue" where
  "queue_step (ONext n) q = take_front ''link buffer next[%d] not enough'' n q"
| "queue_step (OPeek n) q = (fst (take_front ''link buffer peek[%d] not enough'' n q), q)"
| "queue_step (OSkip n) q =
     (let (r, q') = take_front ''link buffer skip[%d] not enough'' n q
      in (case r of RFail e \<Rightarrow> RFail e | _ \<Rightarrow> ROk, q'))"
| "queue_step (OReadBinary n) q = take_front ''link buffer read binary[%d] not enough'' n q"
| "queue_step (OReadString n) q = take_front ''link buffer read string[%d] not enough'' n q"
| "queue_step OReadByte q =
     (case fst q of [] \<Rightarrow> (RFail (EText ''link buffer read byte is empty''), q) | x # xs \<Rightarrow> (RBytes [x], xs, snd q))"
| "queue_step (OUntil c) q =
     (if c \<in> set (fst q)
      then let k = Suc (length (takeWhile (\<lambda>x. x \<noteq> c) (fst q))) in (RBytes (take k (fst q)), drop k (fst q), snd q)
      else (RFail untilErr, q))"
| "queue_step ORelease q = (ROk, q)"
| "queue_step OLen q = (RInt (int (length (fst q))), q)"
| "queue_step (OMalloc bs) q = (ROk, fst q, snd q @ bs)"
| "queue_step (OWriteBinary bs) q = (RInt (int (length bs)), fst q, snd q @ bs)"
| "queue_step (OWriteString bs) q = (RInt (int (length bs)), fst q, snd q @ bs)"
| "queue_step (OWriteByte x) q = (ROk, fst q, snd q @ [x])"
| "queue_step OMallocLen q = (RInt (int (length (snd q))), q)"
| "queue_step OFlush q = (ROk, fst q @ snd q, [])"

fun queue_run :: "buf_op list \<Rightarrow> queue \<Rightarrow> buf_res list \<times> queue" where
  "queue_run [] q = ([], q)"
| "queue_run (c # cs) q = (let (r, q) = queue_step c q; (rs, q) = queue_run cs q in (r # rs, q))"

subsection \<open>The contract\<close>

fun run_ops :: "(buf_op \<Rightarrow> 's \<Rightarrow> (buf_res \<times> 's) option) \<Rightarrow> buf_op list \<Rightarrow> 's \<Rightarrow> (buf_res list \<times> 's) option" where
  "run_ops step [] s = Some ([], s)"
| "run_ops step (c # cs) s = do { (r, s) \<leftarrow> step c s; (rs, s) \<leftarrow> run_ops step cs s; Some (r # rs, s) }"

locale byte_buffer =
  fixes good :: "'s \<Rightarrow> bool" and abs :: "'s \<Rightarrow> queue" and step :: "buf_op \<Rightarrow> 's \<Rightarrow> (buf_res \<times> 's) option"
  assumes step_ok: "good s \<Longrightarrow> \<exists>s'. step c s = Some (fst (queue_step c (abs s)), s') \<and> good s' \<and> abs s' = snd (queue_step c (abs s))"
begin

lemma run_refines:
  "good s \<Longrightarrow> \<exists>s'. run_ops step cs s = Some (fst (queue_run cs (abs s)), s') \<and> good s' \<and> abs s' = snd (queue_run cs (abs s))"
proof (induction cs arbitrary: s)
  case (Cons c cs)
  from step_ok [OF Cons.prems, of c] obtain s1 where 1: "step c s = Some (fst (queue_step c (abs s)), s1)" "good s1"
    "abs s1 = snd (queue_step c (abs s))" by blast
  from Cons.IH [OF 1(2)] obtain s2 where "run_ops step cs s1 = Some (fst (queue_run cs (abs s1)), s2)" "good s2"
    "abs s2 = snd (queue_run cs (abs s1))" by blast
  with 1 show ?case by (auto simp: split_beta Let_def)
qed simp

end

subsection \<open>The operations of a LinkBuffer\<close>

text \<open>
  A caller of \<^verbatim>\<open>WriteBinary\<close> gives it bytes of its own in a new array, a caller of \<^verbatim>\<open>Malloc\<close> fills what it gets.
\<close>

definition slice_of :: "byte list \<Rightarrow> world \<Rightarrow> slice \<times> world" where
  "slice_of bs w = (let (s, w) = new_array (int (length bs)) (int (length bs)) w in (s, store_bytes s bs w))"

definition read_result :: "(error + slice) lb_result \<Rightarrow> (buf_res \<times> LinkBuffer \<times> world) option" where
  "read_result r = do { (x, b, w) \<leftarrow> r; Some (case x of Inl e \<Rightarrow> RFail e | Inr p \<Rightarrow> RBytes (slice_bytes w p), b, w) }"

fun lb_exec :: "globals \<Rightarrow> buf_op \<Rightarrow> LinkBuffer \<times> world \<Rightarrow> (buf_res \<times> LinkBuffer \<times> world) option" where
  "lb_exec g (ONext n) (b, w) = read_result (lb_Next g n b w)"
| "lb_exec g (OPeek n) (b, w) = read_result (lb_Peek g n b w)"
| "lb_exec g (OSkip n) (b, w) =
     do { (e, b, w) \<leftarrow> lb_Skip n b w; Some (case e of Some e \<Rightarrow> RFail e | None \<Rightarrow> ROk, b, w) }"
| "lb_exec g (OReadBinary n) (b, w) = read_result (lb_ReadBinary g n b w)"
| "lb_exec g (OReadString n) (b, w) = read_result (lb_ReadString g n b w)"
| "lb_exec g OReadByte (b, w) =
     do { (x, b, w) \<leftarrow> lb_ReadByte b w; Some (case x of Inl e \<Rightarrow> RFail e | Inr x \<Rightarrow> RBytes [x], b, w) }"
| "lb_exec g (OUntil c) (b, w) = read_result (lb_Until g c b w)"
| "lb_exec g ORelease (b, w) = do { (b, w) \<leftarrow> lb_Release b w; Some (ROk, b, w) }"
| "lb_exec g OLen (b, w) = Some (RInt (lb_Len b), b, w)"
| "lb_exec g (OMalloc bs) (b, w) =
     do { (s, b, w) \<leftarrow> lb_Malloc g (int (length bs)) b w; Some (ROk, b, if bs = [] then w else store_bytes s bs w) }"
| "lb_exec g (OWriteBinary bs) (b, w) =
     do { let (s, w) = slice_of bs w; (n, b, w) \<leftarrow> lb_WriteBinary g s b w; Some (RInt n, b, w) }"
| "lb_exec g (OWriteString bs) (b, w) =
     do { let (s, w) = slice_of bs w; (n, b, w) \<leftarrow> lb_WriteString g s b w; Some (RInt n, b, w) }"
| "lb_exec g (OWriteByte x) (b, w) = do { (b, w) \<leftarrow> lb_WriteByte g x b w; Some (ROk, b, w) }"
| "lb_exec g OMallocLen (b, w) = Some (RInt (lb_MallocLen b), b, w)"
| "lb_exec g OFlush (b, w) = do { (b, w) \<leftarrow> lb_Flush g b w; Some (ROk, b, w) }"

text \<open>The abstraction: the stream, cut where the readable part ends.\<close>

definition lb_queue :: "LinkBuffer \<times> world \<Rightarrow> queue" where
  "lb_queue s = (let str = stream (snd s) (fst s); k = nat (lb_Len (fst s)) in (take k str, drop k str))"

definition lb_good :: "LinkBuffer \<times> world \<Rightarrow> bool" where
  "lb_good s \<longleftrightarrow> (\<exists>own. lb_inv (snd s) own (fst s) \<and> submitted (snd s) (fst s) \<and> write_n (fst s) \<noteq> None)"

lemma lb_lengths:
  assumes "lb_inv w own b" "submitted w b"
  shows "int (length (stream w b)) = lb_Len b + lb_MallocLen b" "0 \<le> lb_Len b" "0 \<le> lb_MallocLen b"
proof -
  obtain hs rs ws ts where rd: "ready w own b hs rs ws ts" by (rule readyE [OF assms])
  note i = readyD [OF rd]
  show "int (length (stream w b)) = lb_Len b + lb_MallocLen b" "0 \<le> lb_Len b" "0 \<le> lb_MallocLen b"
    unfolding i(7) i(8) [symmetric] lb_MallocLen_def lb_repD(12) [OF i(1)] length_pendings [symmetric]
    by (simp_all del: seq_simps)
qed

lemma lb_queue_lengths:
  assumes "lb_inv w own b" "submitted w b"
  shows "int (length (fst (lb_queue (b, w)))) = lb_Len b" "int (length (snd (lb_queue (b, w)))) = lb_MallocLen b"
    "fst (lb_queue (b, w)) @ snd (lb_queue (b, w)) = stream w b"
  using lb_lengths [OF assms] by (auto simp: lb_queue_def Let_def)

lemma consumed_good: "consumed w own b n w' b' \<Longrightarrow> write_n b \<noteq> None \<Longrightarrow> lb_good (b', w')"
  by (auto simp: consumed_def lb_good_def)

lemma consumed_queue:
  assumes "consumed w own b n w' b'" "lb_inv w own b" "submitted w b" "0 \<le> n" "n \<le> lb_Len b"
  shows "lb_queue (b', w') = (drop (nat n) (fst (lb_queue (b, w))), snd (lb_queue (b, w)))"
    "take (nat n) (stream w b) = take (nat n) (fst (lb_queue (b, w)))"
  using assms lb_lengths [OF assms(2,3)]
  by (auto simp: lb_queue_def consumed_def Let_def drop_take nat_diff_distrib)

lemma appended_good: "appended w own b bs w' own' b' \<Longrightarrow> lb_good (b', w')"
  by (auto simp: appended_def lb_good_def)

lemma appended_queue:
  assumes "appended w own b bs w' own' b'" "lb_inv w own b" "submitted w b"
  shows "lb_queue (b', w') = (fst (lb_queue (b, w)), snd (lb_queue (b, w)) @ bs)"
  using assms lb_lengths [OF assms(2,3)] by (auto simp: lb_queue_def appended_def Let_def)

subsection \<open>Every operation refines its abstract step\<close>

definition refines :: "globals \<Rightarrow> buf_op \<Rightarrow> LinkBuffer \<times> world \<Rightarrow> bool" where
  "refines g c s \<longleftrightarrow> (\<exists>s'. lb_exec g c s = Some (fst (queue_step c (lb_queue s)), s') \<and> lb_good s' \<and>
     lb_queue s' = snd (queue_step c (lb_queue s)))"

lemma read_front:
  assumes inv: "lb_inv w own b" "submitted w b" "write_n b \<noteq> None"
    and "n \<le> 0 \<Longrightarrow> r = Some (Inr nil_slice, b, w)"
    and "0 < n \<Longrightarrow> lb_Len b < n \<Longrightarrow> r = Some (Inl (EFmt name n), b, w)"
    and "0 < n \<Longrightarrow> n \<le> lb_Len b \<Longrightarrow> \<exists>p b' w'. r = Some (Inr p, b', w') \<and>
      slice_bytes w' p = take (nat n) (stream w b) \<and> consumed w own b n w' b'"
  shows "\<exists>s'. read_result r = Some (fst (take_front name n (lb_queue (b, w))), s') \<and> lb_good s' \<and>
     lb_queue s' = snd (take_front name n (lb_queue (b, w)))"
proof -
  have good: "lb_good (b, w)" using inv by (auto simp: lb_good_def)
  consider "n \<le> 0" | "0 < n" "lb_Len b < n" | "0 < n" "n \<le> lb_Len b" by linarith
  then show ?thesis
  proof cases
    case 3
    from assms(6) [OF 3] obtain p b' w' where r: "r = Some (Inr p, b', w')" "slice_bytes w' p = take (nat n) (stream w b)"
      "consumed w own b n w' b'" by blast
    show ?thesis
      using 3 r consumed_good [OF r(3) inv(3)] consumed_queue [OF r(3) inv(1,2)] lb_queue_lengths(1) [OF inv(1,2)]
      by (auto simp: read_result_def take_front_def)
  qed (use assms(4,5) good lb_queue_lengths(1) [OF inv(1,2)] in \<open>auto simp: read_result_def take_front_def\<close>)
qed

lemma lb_Peek_write:
  assumes "lb_inv w own b" "submitted w b" "write_n b \<noteq> None" "mcache_ok g" "0 < n" "n \<le> lb_Len b"
    and "lb_Peek g n b w = Some (r, b', w')"
  shows "write_n b' \<noteq> None"
proof -
  obtain hs rs ws wr ts where rd: "ready w own b hs rs ws (wr # ts)" by (rule ready_writeE [OF assms(1-3)])
  note i = readyD [OF rd]
  have "n \<le> length_b b" using assms(6) by (simp add: lb_Len_def)
  from lb_Peek_rep [OF i(1,2) assms(4,5) this] assms(7) obtain xs ys where "lb_rep w' b' (hs @ xs) ys ws (wr # ts)"
    by auto
  from lb_repD(4) [OF this] show ?thesis by auto
qed

lemma refines_Next:
  assumes "lb_inv w own b" "submitted w b" "write_n b \<noteq> None" "mcache_ok g"
  shows "refines g (ONext n) (b, w)"
  unfolding refines_def queue_step.simps lb_exec.simps
proof (rule read_front [OF assms(1-3)])
  show "\<exists>p b' w'. lb_Next g n b w = Some (Inr p, b', w') \<and> slice_bytes w' p = take (nat n) (stream w b) \<and>
      consumed w own b n w' b'" if "0 < n" "n \<le> lb_Len b"
    by (rule lb_Next_reads [OF assms(1,2,4) that])
qed (simp_all add: lb_Next_def)

lemma refines_Peek:
  assumes "lb_inv w own b" "submitted w b" "write_n b \<noteq> None" "mcache_ok g"
  shows "refines g (OPeek n) (b, w)"
proof (cases "0 < n \<and> n \<le> lb_Len b")
  case True
  then have n: "0 < n" "n \<le> lb_Len b" by simp_all
  from lb_Peek_peeks [OF assms(1,2,4) n] obtain p b' w' where r: "lb_Peek g n b w = Some (Inr p, b', w')"
    "slice_bytes w' p = take (nat n) (stream w b)" "lb_inv w' own b'" "submitted w' b'" "stream w' b' = stream w b"
    "lb_Len b' = lb_Len b" by blast
  have "lb_good (b', w')" unfolding lb_good_def using r(3,4) lb_Peek_write [OF assms(1-4) n r(1)] by auto
  moreover have "lb_queue (b', w') = lb_queue (b, w)" using r(5,6) by (simp add: lb_queue_def)
  moreover have "take (nat n) (stream w b) = take (nat n) (fst (lb_queue (b, w)))" using n by (simp add: lb_queue_def Let_def)
  ultimately show ?thesis
    using r(1,2) n lb_queue_lengths(1) [OF assms(1,2)] by (simp add: refines_def read_result_def take_front_def)
next
  case False
  then show ?thesis
    using assms lb_queue_lengths(1) [OF assms(1,2)]
    by (auto simp: refines_def read_result_def take_front_def lb_Peek_def lb_good_def)
qed

lemma refines_ReadBinary:
  assumes "lb_inv w own b" "submitted w b" "write_n b \<noteq> None"
  shows "refines g (OReadBinary n) (b, w)" "refines g (OReadString n) (b, w)"
  unfolding refines_def queue_step.simps lb_exec.simps
  by (rule read_front [OF assms(1-3)];
      use lb_readBinary_reads [OF assms(1,2), of n g] in \<open>auto simp: lb_ReadBinary_def lb_ReadString_def\<close>)+

lemma refines_Skip:
  assumes "lb_inv w own b" "submitted w b" "write_n b \<noteq> None"
  shows "refines g (OSkip n) (b, w)"
proof -
  have good: "lb_good (b, w)" using assms by (auto simp: lb_good_def)
  consider "n \<le> 0" | "0 < n" "lb_Len b < n" | "0 < n" "n \<le> lb_Len b" by linarith
  then show ?thesis
  proof cases
    case 3
    from lb_Skip_skips [OF assms(1,2) 3] obtain b' w' where r: "lb_Skip n b w = Some (None, b', w')" "consumed w own b n w' b'"
      by blast
    show ?thesis
      using 3 r consumed_good [OF r(2) assms(3)] consumed_queue [OF r(2) assms(1,2)] lb_queue_lengths(1) [OF assms(1,2)]
      by (auto simp: refines_def take_front_def)
  qed (use good lb_queue_lengths(1) [OF assms(1,2)] in \<open>auto simp: refines_def lb_Skip_def take_front_def\<close>)
qed

lemma refines_ReadByte:
  assumes "lb_inv w own b" "submitted w b" "write_n b \<noteq> None"
  shows "refines g OReadByte (b, w)"
proof (cases "lb_Len b < 1")
  case True
  then have "fst (lb_queue (b, w)) = []" using lb_queue_lengths(1) [OF assms(1,2)] by (cases "fst (lb_queue (b, w))") auto
  with True assms show ?thesis by (auto simp: refines_def lb_ReadByte_def lb_good_def)
next
  case False
  then have 1: "1 \<le> lb_Len b" by simp
  from lb_ReadByte_reads [OF assms(1,2) this] obtain b' w' where
    r: "lb_ReadByte b w = Some (Inr (stream w b ! 0), b', w')" "consumed w own b 1 w' b'" by blast
  obtain x xs where q: "fst (lb_queue (b, w)) = x # xs"
    using 1 lb_queue_lengths(1) [OF assms(1,2)] by (cases "fst (lb_queue (b, w))") auto
  have "stream w b ! 0 = x" using lb_queue_lengths(3) [OF assms(1,2)] q by (cases "stream w b") auto
  then show ?thesis
    using r q consumed_good [OF r(2) assms(3)] consumed_queue(1) [OF r(2) assms(1,2)] 1
    by (auto simp: refines_def)
qed

lemma refines_Until:
  assumes "lb_inv w own b" "submitted w b" "write_n b \<noteq> None" "mcache_ok g"
  shows "refines g (OUntil c) (b, w)"
proof -
  let ?bs = "fst (lb_queue (b, w))" let ?k = "length (takeWhile (\<lambda>x. x \<noteq> c) ?bs)"
  have bs: "take (nat (lb_Len b)) (stream w b) = ?bs" by (simp add: lb_queue_def Let_def)
  note u = lb_Until_reads [OF assms(1,2,4), of c, unfolded bs]
  show ?thesis
  proof (cases "c \<in> set ?bs")
    case True
    with u obtain p b' w' where r: "lb_Until g c b w = Some (Inr p, b', w')"
      "slice_bytes w' p = takeWhile (\<lambda>x. x \<noteq> c) ?bs @ [c]" "consumed w own b (int ?k + 1) w' b'" by auto
    have le: "int ?k + 1 \<le> lb_Len b" using IndexByte_mem(2) [OF True] lb_queue_lengths(1) [OF assms(1,2)] by simp
    have n: "nat (int ?k + 1) = Suc ?k" by simp
    show ?thesis
      using r(1,2) consumed_good [OF r(3) assms(3)] consumed_queue(1) [OF r(3) assms(1,2) _ le] True
      by (auto simp: refines_def read_result_def IndexByte_mem(3) [OF True] n Let_def)
  next
    case False
    with u assms show ?thesis by (auto simp: refines_def read_result_def lb_good_def)
  qed
qed

lemma slice_of_frame:
  assumes "lb_inv w own b" "submitted w b" "slice_of bs w = (s, w1)"
  shows "lb_inv w1 own b" "submitted w1 b" "stream w1 b = stream w b" "slice_bytes w1 s = bs" "foreign w1 b s"
    "s_len s = int (length bs)"
proof -
  obtain hs rs ws ts where rd: "ready w own b hs rs ws ts" by (rule readyE [OF assms(1,2)])
  note i = readyD [OF rd] and R = lb_repD [OF readyD(1) [OF rd]]
  have s: "s = \<lparr>s_arr = next_arr w, s_off = 0, s_len = int (length bs), s_cap = int (length bs)\<rparr>"
    and w1: "w1 = store_bytes s bs (w\<lparr>next_arr := Suc (next_arr w)\<rparr>)"
    using assms(3) by (auto simp: slice_of_def new_array_def Let_def)
  have eq: "nodes w1 = nodes w" "next_addr w1 = next_addr w" "pool w1 = pool w" "next_arr w1 = Suc (next_arr w)"
    by (simp_all add: w1 store_bytes_def)
  have mem: "same_mem w w1" by (simp add: same_mem_def w1 s store_bytes_def)
  have at: "nd_at w1 a = nd_at w a" for a by (simp add: nd_at_def eq)
  have st: "still w w1 a" if "a \<in> set (hs @ rs @ ws @ ts)" for a
    by (rule still_eq [OF fun_cong [OF eq(1)]]) (metis lb_rep_nodes [OF i(1) that] option.distinct(1))
  have wok: "world_ok w1 own" by (rule world_ok_like [OF i(3)]) (simp_all add: eq)
  note fr = lb_rep_frame [OF i(1) mem st]
  have rd1: "ready w1 own b hs rs ws ts" using wok fr(1) rd unfolding ready_def at by blast
  show "lb_inv w1 own b" "submitted w1 b" using rd1 ready_iff [of w1 own b] by blast+
  show "stream w1 b = stream w b"
    using stream_rep [OF i(4,1)] stream_rep [OF readyD(4) [OF rd1] fr(1)] fr(3) by simp
  show "slice_bytes w1 s = bs" unfolding w1 by (rule slice_bytes_store_same) (simp_all add: s)
  show "s_len s = int (length bs)" by (simp add: s)
  have ch: "chain (next_addr w1) (nodes w1) (head b) = hs @ rs @ ws @ ts"
    unfolding eq by (rule chain_rep [OF i(4) lb_rep_chain(3) [OF i(1)] R(5)])
  have "s_arr (buf (nd_at w1 a)) \<noteq> s_arr s" if "a \<in> set (hs @ rs @ ws @ ts)" for a
    using R(7) [OF that] by (simp add: at s)
  moreover have "case cachePeek b of None \<Rightarrow> True | Some c \<Rightarrow> s_arr c \<noteq> s_arr s"
    using R(13) by (auto simp: peek_ok_def s split: option.splits)
  ultimately show "foreign w1 b s" unfolding foreign_def ch by (simp add: s eq(4))
qed

lemma appended_refines:
  assumes "appended w1 own b bs w' own' b'" "lb_inv w1 own b" "submitted w1 b" "stream w1 b = stream w b"
  shows "lb_good (b', w')" "lb_queue (b', w') = (fst (lb_queue (b, w)), snd (lb_queue (b, w)) @ bs)"
  using appended_good [OF assms(1)] appended_queue [OF assms(1-3)] assms(4) by (simp_all add: lb_queue_def)

lemma refines_write:
  assumes "lb_inv w own b" "submitted w b" "write_n b \<noteq> None" "mcache_ok g"
  shows "refines g (OWriteBinary bs) (b, w)" "refines g (OWriteString bs) (b, w)" "refines g (OWriteByte x) (b, w)"
proof -
  obtain s w1 where s: "slice_of bs w = (s, w1)" by fastforce
  note f = slice_of_frame [OF assms(1,2) s]
  have n: "0 \<le> s_len s" using f(6) by simp
  from lb_WriteBinary_appends [OF f(1,2) assms(3,4) n f(5)] obtain b' w' own' where
    r: "lb_WriteBinary g s b w1 = Some (s_len s, b', w')" "appended w1 own b (slice_bytes w1 s) w' own' b'" by blast
  note a = appended_refines [OF r(2) f(1-3)]
  show "refines g (OWriteBinary bs) (b, w)" using r(1) a f(4,6) by (simp add: refines_def s)
  have "lb_WriteString g s b w1 = lb_WriteBinary g s b w1" by (simp add: lb_WriteString_def lb_WriteBinary_def Let_def)
  then show "refines g (OWriteString bs) (b, w)" using r(1) a f(4,6) by (simp add: refines_def s)
  from lb_WriteByte_appends [OF assms, of x] obtain b2 w2 own2 where
    "lb_WriteByte g x b w = Some (b2, w2)" "appended w own b [x] w2 own2 b2" by blast
  then show "refines g (OWriteByte x) (b, w)" using appended_refines [OF _ assms(1,2) refl] by (auto simp: refines_def)
qed

lemma refines_Malloc:
  assumes "lb_inv w own b" "submitted w b" "write_n b \<noteq> None" "mcache_ok g"
  shows "refines g (OMalloc bs) (b, w)"
proof (cases "bs = []")
  case True
  then show ?thesis using assms by (auto simp: refines_def lb_Malloc_def lb_good_def)
next
  case False
  then have n: "0 < int (length bs)" by simp
  obtain s b' w' own' where m: "lb_Malloc g (int (length bs)) b w = Some (s, b', w')"
    "\<And>cs. int (length cs) = int (length bs) \<Longrightarrow> appended w own b cs (store_bytes s cs w') own' b'"
    by (rule lb_Malloc_appends [OF assms n]) blast
  then show ?thesis using False appended_refines [OF m(2) [OF refl] assms(1,2) refl] by (simp add: refines_def)
qed

lemma refines_rest:
  assumes "lb_inv w own b" "submitted w b" "write_n b \<noteq> None" "mcache_ok g"
  shows "refines g ORelease (b, w)" "refines g OFlush (b, w)" "refines g OLen (b, w)" "refines g OMallocLen (b, w)"
proof -
  obtain b' w' gone where r: "lb_Release b w = Some (b', w')" "lb_inv w' (own - set gone) b'" "submitted w' b'"
    "stream w' b' = stream w b" "lb_Len b' = lb_Len b" "write_n b' = write_n b"
    by (rule lb_Release_ok [OF assms(1,2)]) blast
  then show "refines g ORelease (b, w)" using assms(3) by (auto simp: refines_def lb_good_def lb_queue_def)
  from lb_Flush_submits [OF assms] obtain b2 w2 own2 where f: "lb_Flush g b w = Some (b2, w2)" "lb_inv w2 own2 b2"
    "submitted w2 b2" "write_n b2 \<noteq> None" "stream w2 b2 = stream w b" "lb_Len b2 = lb_Len b + lb_MallocLen b" by blast
  then have "lb_queue (b2, w2) = (stream w b, [])" using lb_lengths [OF assms(1,2)] by (simp add: lb_queue_def Let_def)
  then show "refines g OFlush (b, w)"
    using f lb_queue_lengths(3) [OF assms(1,2)] by (auto simp: refines_def lb_good_def)
  show "refines g OLen (b, w)" "refines g OMallocLen (b, w)"
    using assms lb_queue_lengths [OF assms(1,2)] by (auto simp: refines_def lb_good_def)
qed

lemma lb_exec_refines:
  assumes "lb_good s" "mcache_ok g"
  shows "refines g c s"
proof -
  obtain b w where s: "s = (b, w)" by fastforce
  from assms(1) obtain own where i: "lb_inv w own b" "submitted w b" "write_n b \<noteq> None" by (auto simp: s lb_good_def)
  note r = refines_Next refines_Peek refines_Until refines_write refines_Malloc refines_rest
  show ?thesis
    unfolding s by (cases c) (simp_all add: r [OF i assms(2)] refines_Skip [OF i] refines_ReadBinary [OF i] refines_ReadByte [OF i])
qed

interpretation lbq: byte_buffer "\<lambda>s. mcache_ok (fst s) \<and> lb_good (snd s)" "\<lambda>s. lb_queue (snd s)"
    "\<lambda>c s. map_option (\<lambda>(r, t). (r, fst s, t)) (lb_exec (fst s) c (snd s))"
  by unfold_locales (use lb_exec_refines in \<open>auto simp: refines_def\<close>)

lemma run_ops_lb:
  "run_ops (\<lambda>c s. map_option (\<lambda>(r, t). (r, fst s, t)) (lb_exec (fst s) c (snd s))) cs (g, s) =
     map_option (\<lambda>(rs, t). (rs, g, t)) (run_ops (lb_exec g) cs s)"
proof (induction cs arbitrary: s)
  case (Cons c cs)
  show ?case
  proof (cases "lb_exec g c s")
    case (Some a)
    then show ?thesis using Cons.IH [of "snd a"] by (cases "run_ops (lb_exec g) cs (snd a)") (auto simp: split_beta)
  qed simp
qed simp

lemma lb_run_refines:
  assumes "mcache_ok g" "lb_good s"
  shows "\<exists>s'. run_ops (lb_exec g) cs s = Some (fst (queue_run cs (lb_queue s)), s') \<and> lb_good s' \<and>
    lb_queue s' = snd (queue_run cs (lb_queue s))"
  using lbq.run_refines [of "(g, s)" cs] assms by (auto simp: run_ops_lb)

lemma NewLinkBuffer_ready:
  assumes "world_ok w own" "mcache_ok g"
  obtains b w' x where "NewLinkBuffer g sz w = Some (b, w')" "ready w' (insert x own) b [] [] [] [x]" "write_n b = Some x"
    "stream w' b = []" "lb_Len b = 0" "lb_MallocLen b = 0" "x \<notin> own" "\<And>a. a \<noteq> x \<Longrightarrow> nodes w' a = nodes w a"
    "same_mem w w'" "caches b = []" "cachePeek b = None" "bookable w' b"
proof -
  let ?l = "case sz of None \<Rightarrow> 0 | Some l \<Rightarrow> l"
  obtain x w' nd where n: "newLinkBufferNode g ?l w = Some (x, w')" "nodes w' x = Some nd" "new_node g ?l w nd"
    "x \<notin> own" "world_ok w' (insert x own)" "\<And>a. a \<noteq> x \<Longrightarrow> nodes w' a = nodes w a" "cells w' = cells w"
    "next_arr w \<le> next_arr w'" "0 < ?l \<Longrightarrow> next_arr w' = Suc (next_arr w)"
    by (rule newLinkBufferNode_ok [OF assms, of ?l]) blast
  define b where "b = zero_LinkBuffer\<lparr>head := Some x, read := Some x, flush := Some x, write_n := Some x\<rparr>"
  have run: "NewLinkBuffer g sz w = Some (b, w')" using n(1) by (simp add: NewLinkBuffer_def b_def Let_def)
  have at: "nd_at w' x = nd" using n(2) by simp
  have nd: "off nd = 0" "malloc_n nd = 0" "s_len (buf nd) = 0" "origin nd = None" "next_n nd = None" "0 \<le> s_cap (buf nd)"
    "0 \<le> s_off (buf nd)" "s_arr (buf nd) < next_arr w'"
    using n(3,8,9) assms(1) by (auto simp: new_node_def nil_slice_def world_ok_def split: if_splits)
  have "lb_rep w' b [] [] [] [x]"
    using nd n(2) by (simp add: lb_rep_def b_def zero_LinkBuffer_def at node_ok_def pend_len_def peek_ok_def node_Len_def)
  then have rd: "ready w' (insert x own) b [] [] [] [x]"
    using n(5) nd(4) by (simp add: ready_def at)
  have "unread w' nd = []" "slice_bytes w' (pend_win nd) = []" using nd by (simp_all add: unread_def pend_win_def slice_bytes_def)
  then have str: "stream w' b = []" using readyD(7) [OF rd] by (simp add: at)
  have bk: "bookable w' b" using n(3) by (auto simp: bookable_def b_def at new_node_def nil_slice_def split: if_splits)
  show thesis
    by (rule that [OF run rd _ str _ _ n(4,6)])
      (use n(7,8) bk in \<open>simp_all add: b_def zero_LinkBuffer_def lb_Len_def lb_MallocLen_def same_mem_def\<close>)
qed

lemma NewLinkBuffer_good:
  assumes "world_ok w own" "mcache_ok g"
  shows "\<exists>b w'. NewLinkBuffer g sz w = Some (b, w') \<and> lb_good (b, w') \<and> lb_queue (b, w') = ([], [])"
proof -
  obtain b w' x where n: "NewLinkBuffer g sz w = Some (b, w')" "ready w' (insert x own) b [] [] [] [x]" "write_n b = Some x"
    "stream w' b = []" by (rule NewLinkBuffer_ready [OF assms]) blast
  from n(2) have "lb_inv w' (insert x own) b \<and> submitted w' b" unfolding ready_iff by blast
  then show ?thesis using n by (auto simp: lb_good_def lb_queue_def)
qed

text \<open>
  C1: a new buffer, in any well-formed heap and for any sequence of its reading and writing operations,
  returns exactly the results of the abstract queue: bytes come out once, in the order in which they
  were written, and only after a flush; no operation panics or loops, and errors are those of the
  queue.
\<close>
theorem linkbuffer_refines_queue:
  assumes "world_ok w own" "mcache_ok g"
  shows "\<exists>b w' s'. NewLinkBuffer g sz w = Some (b, w') \<and>
    run_ops (lb_exec g) cs (b, w') = Some (fst (queue_run cs ([], [])), s') \<and> lb_queue s' = snd (queue_run cs ([], []))"
  using NewLinkBuffer_good [OF assms, of sz] lb_run_refines [OF assms(2), of _ cs] by metis

theorem linkbuffer_refines_queue_witness:
  "\<exists>b w' s'. NewLinkBuffer ex_globals None (ex_empty_world\<lparr>nodes := Map.empty\<rparr>) = Some (b, w') \<and>
    run_ops (lb_exec ex_globals) [OWriteBinary [1, 2, 3], OLen, OFlush, OPeek 2, ONext 2, ORelease, OWriteByte 9, OUntil 9, OFlush, OUntil 9] (b, w') =
      Some ([RInt 3, RInt 0, ROk, RBytes [1, 2], RBytes [1, 2], ROk, ROk, RFail untilErr, ROk, RBytes [3, 9]], s')"
proof -
  let ?cs = "[OWriteBinary [1, 2, 3], OLen, OFlush, OPeek 2, ONext 2, ORelease, OWriteByte 9, OUntil 9, OFlush, OUntil 9]"
  have ok: "world_ok (ex_empty_world\<lparr>nodes := Map.empty\<rparr>) {}" by (simp add: world_ok_def ex_empty_world_def refs_def)
  have "fst (queue_run ?cs ([], [])) =
    [RInt 3, RInt 0, ROk, RBytes [1, 2], RBytes [1, 2], ROk, ROk, RFail untilErr, ROk, RBytes [3, 9]]"
    by (simp add: take_front_def Let_def)
  then show ?thesis using linkbuffer_refines_queue [OF ok ex_mcache, of None ?cs] by metis
qed

subsection \<open>MallocAck(0)\<close>

text \<open>
  C33: \<^verbatim>\<open>MallocAck(0)\<close> does not discard what was allocated in the flush node: the loop that shortens the
  node does not run, so \<^verbatim>\<open>MallocLen()\<close> is 0 while the next \<^verbatim>\<open>Flush\<close> makes the bytes readable.
\<close>
theorem MallocAck_0_keeps_bytes:
  assumes "flush b = Some f" "nodes w f = Some nd" "next_n nd = None" "s_cap (buf nd) \<le> pagesize"
    and "0 \<le> s_len (buf nd)" "s_len (buf nd) < malloc_n nd" "malloc_n nd \<le> s_cap (buf nd)"
  shows "\<exists>b1 w1 b2 w2. lb_MallocAck 0 b w = Some (None, b1, w1) \<and> lb_MallocLen b1 = 0 \<and>
    lb_Flush g b1 w1 = Some (b2, w2) \<and> lb_Len b2 = lb_Len b + (malloc_n nd - s_len (buf nd))"
proof -
  have "lb_MallocAck 0 b w = Some (None, b\<lparr>mallocSize := 0, write_n := flush b\<rparr>, w)"
    using assms by (simp add: lb_MallocAck_def MallocAck_loop.simps [of 0] discard_loop.simps [of None])
  moreover have "reslice (buf nd) 0 (malloc_n nd) = Some ((buf nd)\<lparr>s_len := malloc_n nd\<rparr>)"
    using assms by (simp add: reslice_def)
  ultimately show ?thesis
    using assms by (simp add: lb_Flush_def Flush_loop.simps [of "Some f"] Flush_loop.simps [of None] lb_MallocLen_def lb_Len_def recalLen_def)
qed

theorem MallocAck_0_keeps_bytes_witness:
  "\<exists>s b w b1 w1 b2 w2. lb_Malloc ex_globals 3 ex_empty ex_empty_world = Some (s, b, w) \<and>
    lb_MallocAck 0 b w = Some (None, b1, w1) \<and> lb_MallocLen b1 = 0 \<and>
    lb_Flush ex_globals b1 w1 = Some (b2, w2) \<and> lb_Len b2 = 3"
proof -
  let ?b = "ex_empty\<lparr>mallocSize := 3\<rparr>" and ?nd = "ex_empty_node\<lparr>malloc_n := 3\<rparr>"
  let ?w = "set_node 0 ?nd ex_empty_world"
  have m: "\<exists>s. lb_Malloc ex_globals 3 ex_empty ex_empty_world = Some (s, ?b, ?w)"
    by (simp add: lb_Malloc_def growth_def growth_loop.simps [of ex_globals 3] write_Malloc_def node_Malloc_def ex_empty_def
        ex_empty_world_def ex_empty_node_def getMode_def reslice3_def set_node_def)
  have "flush ?b = Some 0" "nodes ?w 0 = Some ?nd" "next_n ?nd = None" "s_cap (buf ?nd) \<le> pagesize" "0 \<le> s_len (buf ?nd)"
    "s_len (buf ?nd) < malloc_n ?nd" "malloc_n ?nd \<le> s_cap (buf ?nd)" "malloc_n ?nd - s_len (buf ?nd) = 3" "lb_Len ?b = 0"
    by (simp_all add: ex_empty_def ex_empty_node_def pagesize_def block8k_def lb_Len_def)
  then show ?thesis using m MallocAck_0_keeps_bytes [of ?b 0 ?w ?nd ex_globals] by auto
qed

end
