(* ===== verification/SysIO.thy ===== *)
theory SysIO
  imports Errors LinkBufferSend
begin

section \<open>Vectored input and output (sys\_exec.go, sys\_sendmsg\_linux.go, net\_io.go)\<close>

text \<open>
  A vector is a list of windows. The system calls are parameters: \<open>rv\<close> is \<^verbatim>\<open>readv(2)\<close>, which gets the
  descriptor and the number of bytes that fit, and returns an error or the bytes that arrived;
  \<open>wv\<close> and \<open>sm\<close> are \<^verbatim>\<open>writev(2)\<close> and \<^verbatim>\<open>sendmsg(2)\<close>, which get the bytes of the vector and return an error
  or how many were taken (with the flags of \<^verbatim>\<open>sendmsg\<close> before the bytes). \<open>'k\<close> is the state of the kernel. \<open>readv_ok\<close> and \<open>send_ok\<close> are their
  documented behaviour.
\<close>

subsection \<open>Vectors\<close>

definition barriercap :: nat where "barriercap = 32"

definition MaxInt32 :: int where "MaxInt32 = 2 ^ 31 - 1"

type_synonym iovec = "slice \<times> int"

text \<open>\<open>room\<close> is the number of places of \<^verbatim>\<open>ivs\<close> that are left; using one more is an index panic.\<close>

fun iovecs_loop :: "nat \<Rightarrow> int \<Rightarrow> slice list \<Rightarrow> iovec list option" where
  "iovecs_loop room totalLen [] = Some []"
| "iovecs_loop room totalLen (chunk # bs) =
     (let l = s_len chunk
      in if l = 0 then iovecs_loop room totalLen bs
         else case room of
                0 \<Rightarrow> None
              | Suc room \<Rightarrow>
                  (let totalLen = totalLen + l
                   in if totalLen < MaxInt32
                      then map_option (\<lambda>ivs. (chunk, l) # ivs) (iovecs_loop room totalLen bs)
                      else Some [(chunk, MaxInt32 - totalLen + l)]))"

definition iovecs :: "slice list \<Rightarrow> nat \<Rightarrow> iovec list option" where
  "iovecs bs ivs = iovecs_loop ivs 0 bs"

definition resetIovecs :: "slice list \<Rightarrow> slice list" where
  "resetIovecs bs = map (\<lambda>_. nil_slice) bs"

definition iov_len :: "iovec list \<Rightarrow> int" where
  "iov_len ivs = sum_list (map snd ivs)"

definition iov_bytes :: "'m memory_scheme \<Rightarrow> iovec list \<Rightarrow> byte list" where
  "iov_bytes m ivs = concat (map (\<lambda>(s, l). take (nat l) (slice_bytes m s)) ivs)"

text \<open>The kernel stores what it read into the places of the vector, one after the other.\<close>

fun scatter :: "iovec list \<Rightarrow> byte list \<Rightarrow> 'm memory_scheme \<Rightarrow> 'm memory_scheme" where
  "scatter [] bs m = m"
| "scatter ((s, l) # ivs) bs m = scatter ivs (drop (nat l) bs) (store_bytes s (take (nat l) bs) m)"

subsection \<open>System calls\<close>

type_synonym 'k sys_read = "int \<Rightarrow> int \<Rightarrow> 'k \<Rightarrow> (errno + byte list) \<times> 'k"
type_synonym 'k sys_send = "int \<Rightarrow> int \<Rightarrow> byte list \<Rightarrow> 'k \<Rightarrow> (errno + int) \<times> 'k"

definition readv_ok :: "'k sys_read \<Rightarrow> bool" where
  "readv_ok rv \<longleftrightarrow> (\<forall>fd n k. case fst (rv fd n k) of Inl e \<Rightarrow> e \<noteq> 0 | Inr bs \<Rightarrow> int (length bs) \<le> n)"

definition send_ok :: "'k sys_send \<Rightarrow> bool" where
  "send_ok sm \<longleftrightarrow>
     (\<forall>fd flags bs k. case fst (sm fd flags bs k) of Inl e \<Rightarrow> e \<noteq> 0 | Inr n \<Rightarrow> 0 \<le> n \<and> n \<le> int (length bs))"

text \<open>The result is the pair the source returns, the vector as it is left, and the new states.\<close>

definition readv ::
    "'k sys_read \<Rightarrow> int \<Rightarrow> slice list \<Rightarrow> nat \<Rightarrow> 'k \<Rightarrow> 'm memory_scheme \<Rightarrow>
     ((int \<times> error option) \<times> slice list \<times> 'k \<times> 'm memory_scheme) option" where
  "readv rv fd bs ivs k m =
     do {
       v \<leftarrow> iovecs bs ivs;
       if v = [] then Some ((0, None), bs, k, m)
       else (case rv fd (iov_len v) k of
               (Inl e, k) \<Rightarrow> Some ((-1, Some (Errno e)), resetIovecs bs, k, m)
             | (Inr data, k) \<Rightarrow> Some ((int (length data), None), resetIovecs bs, k, scatter v data m))
     }"

definition writev ::
    "'k sys_send \<Rightarrow> int \<Rightarrow> slice list \<Rightarrow> nat \<Rightarrow> 'k \<Rightarrow> 'm memory_scheme \<Rightarrow>
     ((int \<times> error option) \<times> slice list \<times> 'k) option" where
  "writev wv fd bs ivs k m =
     do {
       v \<leftarrow> iovecs bs ivs;
       if v = [] then Some ((0, None), bs, k)
       else (case wv fd 0 (iov_bytes m v) k of
               (Inl e, k) \<Rightarrow> Some ((-1, Some (Errno e)), resetIovecs bs, k)
             | (Inr n, k) \<Rightarrow> Some ((n, None), resetIovecs bs, k))
     }"

definition MSG_ZEROCOPY :: int where "MSG_ZEROCOPY = 0x4000000"

definition sendmsg ::
    "'k sys_send \<Rightarrow> int \<Rightarrow> slice list \<Rightarrow> nat \<Rightarrow> bool \<Rightarrow> 'k \<Rightarrow> 'm memory_scheme \<Rightarrow>
     ((int \<times> error option) \<times> slice list \<times> 'k) option" where
  "sendmsg sm fd bs ivs zerocopy k m =
     do {
       v \<leftarrow> iovecs bs ivs;
       if v = [] then Some ((0, None), bs, k)
       else (case sm fd (if zerocopy then MSG_ZEROCOPY else 0) (iov_bytes m v) k of
               (Inl e, k) \<Rightarrow> Some ((-1, Some (Errno e)), resetIovecs bs, k)
             | (Inr n, k) \<Rightarrow> Some ((n, None), resetIovecs bs, k))
     }"

definition ioread ::
    "'k sys_read \<Rightarrow> int \<Rightarrow> slice list \<Rightarrow> nat \<Rightarrow> 'k \<Rightarrow> 'm memory_scheme \<Rightarrow>
     ((int \<times> error option) \<times> slice list \<times> 'k \<times> 'm memory_scheme) option" where
  "ioread rv fd bs ivs k m =
     do {
       ((n, err), bs, k, m) \<leftarrow> readv rv fd bs ivs k m;
       if n = 0 \<and> err = None then Some ((0, Some (Exc ErrEOF [])), bs, k, m)
       else if err = Some (Errno EINTR) \<or> err = Some (Errno EAGAIN) then Some ((0, None), bs, k, m)
       else Some ((n, err), bs, k, m)
     }"

text \<open>\<open>fstat fd\<close> is the mode that \<^verbatim>\<open>fstat\<close> reports of the descriptor, \<open>None\<close> when it fails.\<close>

definition S_IFIFO :: "32 word" where "S_IFIFO = 0x1000"

definition isFifo :: "(int \<Rightarrow> 32 word option) \<Rightarrow> int \<Rightarrow> bool" where
  "isFifo fstat fd = (case fstat fd of None \<Rightarrow> False | Some md \<Rightarrow> and md S_IFIFO \<noteq> 0)"

definition iosend ::
    "(int \<Rightarrow> 32 word option) \<Rightarrow> 'k sys_send \<Rightarrow> 'k sys_send \<Rightarrow> int \<Rightarrow> slice list \<Rightarrow> nat \<Rightarrow> bool \<Rightarrow>
     'k \<Rightarrow> 'm memory_scheme \<Rightarrow> ((int \<times> error option) \<times> slice list \<times> 'k) option" where
  "iosend fstat wv sm fd bs ivs zerocopy k m =
     do {
       ((n, err), bs, k) \<leftarrow>
         (if isFifo fstat fd then writev wv fd bs ivs k m else sendmsg sm fd bs ivs zerocopy k m);
       if err = Some (Errno EAGAIN) then Some ((0, None), bs, k)
       else Some ((n, err), bs, k)
     }"


subsection \<open>Facts\<close>

lemma iovecs_loop_ok:
  assumes "0 \<le> tot" "tot < MaxInt32" "\<forall>c\<in>set bs. 0 \<le> s_len c" "length bs \<le> room"
  shows "\<exists>v. iovecs_loop room tot bs = Some v \<and> (\<forall>(s, l)\<in>set v. 0 < l \<and> l \<le> s_len s \<and> s \<in> set bs) \<and>
    tot + iov_len v \<le> MaxInt32 \<and> prefix (iov_bytes m v) (vec_bytes m bs) \<and>
    (tot + sum_list (map s_len bs) < MaxInt32 \<longrightarrow> iov_bytes m v = vec_bytes m bs)"
  using assms
proof (induction bs arbitrary: tot room)
  case Nil
  then show ?case by (simp add: iov_len_def iov_bytes_def vec_bytes_def)
next
  case (Cons c bs)
  have nn: "0 \<le> sum_list (map s_len bs)" using Cons.prems(3) by (intro sum_list_nonneg) auto
  consider "s_len c = 0" | "0 < s_len c" "tot + s_len c < MaxInt32" | "0 < s_len c" "MaxInt32 \<le> tot + s_len c"
    using Cons.prems(3) by force
  then show ?case
  proof cases
    case 1
    then have "slice_bytes m c = []" by (simp add: slice_bytes_empty)
    moreover obtain v where "iovecs_loop room tot bs = Some v" "\<forall>(s, l)\<in>set v. 0 < l \<and> l \<le> s_len s \<and> s \<in> set bs"
      "tot + iov_len v \<le> MaxInt32" "prefix (iov_bytes m v) (vec_bytes m bs)"
      "tot + sum_list (map s_len bs) < MaxInt32 \<longrightarrow> iov_bytes m v = vec_bytes m bs"
      using Cons.IH [of tot room] Cons.prems by auto
    ultimately show ?thesis using 1 by (intro exI [of _ v]) (auto simp: vec_bytes_def)
  next
    case 2
    obtain r where r: "room = Suc r" "length bs \<le> r" using Cons.prems(4) by (cases room) auto
    obtain v where v: "iovecs_loop r (tot + s_len c) bs = Some v" "\<forall>(s, l)\<in>set v. 0 < l \<and> l \<le> s_len s \<and> s \<in> set bs"
      "tot + s_len c + iov_len v \<le> MaxInt32" "prefix (iov_bytes m v) (vec_bytes m bs)"
      "tot + s_len c + sum_list (map s_len bs) < MaxInt32 \<longrightarrow> iov_bytes m v = vec_bytes m bs"
      using Cons.IH [of "tot + s_len c" r] Cons.prems 2 r(2) by auto
    then have "iovecs_loop room tot (c # bs) = Some ((c, s_len c) # v)" using 2 r(1) by (simp add: Let_def)
    then show ?thesis using v 2(1)
      by (intro exI [of _ "(c, s_len c) # v"]) (auto simp: iov_len_def iov_bytes_def vec_bytes_def)
  next
    case 3
    obtain r where r: "room = Suc r" using Cons.prems(4) by (cases room) auto
    let ?l = "MaxInt32 - (tot + s_len c) + s_len c"
    have "iovecs_loop room tot (c # bs) = Some [(c, ?l)]" using 3 r by (simp add: Let_def)
    moreover have "prefix (take (nat ?l) (slice_bytes m c)) (slice_bytes m c)" by (rule take_is_prefix)
    ultimately show ?thesis using 3 nn Cons.prems(1,2)
      by (intro exI [of _ "[(c, ?l)]"]) (auto simp: iov_len_def iov_bytes_def vec_bytes_def intro: prefix_prefix take_is_prefix)
  qed
qed

text \<open>
  C19: \<^verbatim>\<open>iovecs\<close>. With a place for every window it does not panic; it describes at most \<^verbatim>\<open>MaxInt32\<close> bytes,
  and they are a prefix of the bytes of the windows in their order, all of them when they are
  fewer than \<^verbatim>\<open>MaxInt32\<close>.
\<close>
theorem iovecs_spec:
  assumes "\<forall>c\<in>set bs. 0 \<le> s_len c" "length bs \<le> ivs"
  shows "\<exists>v. iovecs bs ivs = Some v \<and> iov_len v \<le> MaxInt32 \<and> prefix (iov_bytes m v) (vec_bytes m bs) \<and>
    (sum_list (map s_len bs) < MaxInt32 \<longrightarrow> iov_bytes m v = vec_bytes m bs)"
  using iovecs_loop_ok [of 0 bs ivs m] assms by (auto simp: iovecs_def MaxInt32_def)

theorem iovecs_spec_witness:
  "\<exists>v. iovecs [nil_slice, ex_large] barriercap = Some v \<and> iov_len v \<le> MaxInt32 \<and>
    iov_bytes ex_world v = vec_bytes ex_world [nil_slice, ex_large]"
  using iovecs_spec [of "[nil_slice, ex_large]" barriercap ex_world]
  by (auto simp: nil_slice_def ex_large_def barriercap_def MaxInt32_def)

lemma iosend_outcome:
  assumes "send_ok wv" "send_ok sm" "\<forall>c\<in>set bs. 0 \<le> s_len c" "length bs \<le> ivs"
  obtains v n err k' bs' where "iosend fstat wv sm fd bs ivs zerocopy k m = Some ((n, err), bs', k')"
    "iovecs bs ivs = Some v" "length bs' = length bs"
    "(v = [] \<and> n = 0 \<and> err = None \<and> k' = k) \<or>
     (v \<noteq> [] \<and> (\<exists>r. (if isFifo fstat fd then wv fd 0 (iov_bytes m v) k
        else sm fd (if zerocopy then MSG_ZEROCOPY else 0) (iov_bytes m v) k) = (r, k') \<and>
        (case r of Inr j \<Rightarrow> n = j \<and> 0 \<le> j \<and> j \<le> int (length (iov_bytes m v)) \<and> err = None
         | Inl e \<Rightarrow> if e = EAGAIN then n = 0 \<and> err = None else n = -1 \<and> err = Some (Errno e))))"
proof -
  obtain v where v: "iovecs bs ivs = Some v"
    using iovecs_loop_ok [of 0 bs ivs m] assms(3,4) by (auto simp: iovecs_def MaxInt32_def)
  have w: "fst (wv fd 0 bs k) = Inr j \<Longrightarrow> 0 \<le> j \<and> j \<le> int (length bs)" for bs j
    using assms(1) by (auto simp: send_ok_def split: sum.splits)
  have s: "fst (sm fd f bs k) = Inr j \<Longrightarrow> 0 \<le> j \<and> j \<le> int (length bs)" for bs f j
    using assms(2) by (auto simp: send_ok_def split: sum.splits)
  show thesis
  proof (cases "v = []")
    case True
    then show thesis using v by (intro that [of 0 None bs k v]) (simp_all add: iosend_def writev_def sendmsg_def)
  next
    case False
    define x where "x = (if isFifo fstat fd then wv fd 0 (iov_bytes m v) k
        else sm fd (if zerocopy then MSG_ZEROCOPY else 0) (iov_bytes m v) k)"
    obtain r k' where x: "x = (r, k')" by (cases x)
    have b: "r = Inr j \<Longrightarrow> 0 \<le> j \<and> j \<le> int (length (iov_bytes m v))" for j
      using x w [of "iov_bytes m v" j] s [of 0 "iov_bytes m v" j] s [of MSG_ZEROCOPY "iov_bytes m v" j] unfolding x_def by (auto split: if_splits)
    define ne where "ne = (case r of Inl e \<Rightarrow> if e = EAGAIN then (0, None) else (-1, Some (Errno e)) | Inr j \<Rightarrow> (j, None))"
    have "iosend fstat wv sm fd bs ivs zerocopy k m = Some (ne, resetIovecs bs, k')"
      using v False x unfolding x_def
      by (auto simp: iosend_def writev_def sendmsg_def ne_def split: sum.splits if_splits)
    then show thesis using v False x b
      by (intro that [of "fst ne" "snd ne" "resetIovecs bs" k' v])
        (auto simp: ne_def x_def resetIovecs_def split: sum.splits)
  qed
qed

lemma ioread_window:
  assumes "readv_ok rv" "0 < s_len p" "s_len p < MaxInt32" "1 \<le> ivs"
  shows "ioread rv fd [p] ivs k m = Some (case rv fd (s_len p) k of
      (Inl e, k) \<Rightarrow> (if e = EINTR \<or> e = EAGAIN then (0, None) else (-1, Some (Errno e)), [nil_slice], k, m)
    | (Inr [], k) \<Rightarrow> ((0, Some (Exc ErrEOF [])), [nil_slice], k, store_bytes p [] m)
    | (Inr bs, k) \<Rightarrow> ((int (length bs), None), [nil_slice], k, store_bytes p bs m))"
proof -
  obtain i where i: "ivs = Suc i" using assms(4) by (cases ivs) auto
  have v: "iovecs [p] ivs = Some [(p, s_len p)]" using assms(2,3) i by (simp add: iovecs_def)
  have l: "int (length bs) \<le> s_len p" if "rv fd (s_len p) k = (Inr bs, k')" for bs k'
    using assms(1) that unfolding readv_ok_def by (metis fst_conv old.sum.simps(6))
  have "take (nat (s_len p)) bs = bs" if "rv fd (s_len p) k = (Inr bs, k')" for bs k' using l [OF that] by simp
  moreover obtain r k' where "rv fd (s_len p) k = (r, k')" by (cases "rv fd (s_len p) k")
  ultimately show ?thesis using v assms(2)
    by (cases r) (auto simp: ioread_def readv_def resetIovecs_def iov_len_def split: list.splits)
qed

text \<open>A vector that was reset describes nothing, and reading into it is taken for the end of the stream.\<close>

lemma ioread_reset:
  "ioread rv fd (resetIovecs bs) ivs k m = Some ((0, Some (Exc ErrEOF [])), resetIovecs bs, k, m)"
proof -
  have "iovecs_loop ivs 0 (resetIovecs bs) = Some []"
    by (induction bs) (simp_all add: resetIovecs_def nil_slice_def)
  then show ?thesis by (simp add: ioread_def readv_def iovecs_def)
qed

end
