(* ===== verification/Locker.thy ===== *)
theory Locker
  imports Prelude
begin

section \<open>Lockers (connection\_lock.go, fifo\_lock.go)\<close>

text \<open>
  The CAS locks of a connection and of a fifo: an array of 32-bit words, one for each key, 0 for
  unlocked, 1 for locked, 2 for stopped; the closing key holds who closed. Each operation is one
  atomic access; \<^verbatim>\<open>stop\<close> spins, so it takes the moves the other goroutines make while it yields.
  The locale \<open>key_lock\<close> is what callers rely on; mutual exclusion is proved in it for any number
  of goroutines and holds for every key of both lockers by interpretation.
\<close>

subsection \<open>Atomic accesses\<close>

definition CompareAndSwap :: "i32 list \<Rightarrow> nat \<Rightarrow> i32 \<Rightarrow> i32 \<Rightarrow> bool \<times> i32 list" where
  "CompareAndSwap xs k old new = (if xs ! k = old then (True, xs[k := new]) else (False, xs))"

subsection \<open>connection\_lock.go\<close>

type_synonym who = i32

definition none :: who where "none = 0"
definition user :: who where "user = 1"
definition poller :: who where "poller = 2"

type_synonym key = nat

definition closing :: key where "closing = 0"
definition connecting :: key where "connecting = 1"
definition processing :: key where "processing = 2"
definition flushing :: key where "flushing = 3"
definition total :: nat where "total = 4"

record locker =
  keychain :: "i32 list"

definition zero_locker :: locker where
  "zero_locker = \<lparr>keychain = replicate total 0\<rparr>"

definition closeBy :: "who \<Rightarrow> 'l locker_scheme \<Rightarrow> bool \<times> 'l locker_scheme" where
  "closeBy w l = (let (ok, ks) = CompareAndSwap (keychain l) closing 0 w in (ok, l\<lparr>keychain := ks\<rparr>))"

definition isCloseBy :: "who \<Rightarrow> 'l locker_scheme \<Rightarrow> bool" where
  "isCloseBy w l \<longleftrightarrow> keychain l ! closing = w"

definition status :: "key \<Rightarrow> 'l locker_scheme \<Rightarrow> i32" where
  "status k l = keychain l ! k"

definition force :: "key \<Rightarrow> i32 \<Rightarrow> 'l locker_scheme \<Rightarrow> 'l locker_scheme" where
  "force k v l = l\<lparr>keychain := (keychain l)[k := v]\<rparr>"

definition lock :: "key \<Rightarrow> 'l locker_scheme \<Rightarrow> bool \<times> 'l locker_scheme" where
  "lock k l = (let (ok, ks) = CompareAndSwap (keychain l) k 0 1 in (ok, l\<lparr>keychain := ks\<rparr>))"

definition unlock :: "key \<Rightarrow> 'l locker_scheme \<Rightarrow> 'l locker_scheme" where
  "unlock k l = l\<lparr>keychain := (keychain l)[k := 0]\<rparr>"

text \<open>
  \<^verbatim>\<open>stop\<close>: the list is what the other goroutines do, one move each time the loop yields; \<open>None\<close>
  when it is still spinning after the last of them.
\<close>

fun stop :: "key \<Rightarrow> ('l locker_scheme \<Rightarrow> 'l locker_scheme) list \<Rightarrow> 'l locker_scheme \<Rightarrow> 'l locker_scheme option" where
  "stop k env l =
     (let (ok, ks) = CompareAndSwap (keychain l) k 0 2
      in if ok then Some (l\<lparr>keychain := ks\<rparr>)
         else if keychain l ! k = 2 then Some l
         else case env of [] \<Rightarrow> None | e # es \<Rightarrow> stop k es (e l))"

definition isUnlock :: "key \<Rightarrow> 'l locker_scheme \<Rightarrow> bool" where
  "isUnlock k l \<longleftrightarrow> keychain l ! k = 0"

subsection \<open>fifo\_lock.go\<close>

definition fifoClosing :: key where "fifoClosing = 0"
definition fifoProcessing :: key where "fifoProcessing = 1"
definition fifoFlushing :: key where "fifoFlushing = 2"
definition fifoTotal :: nat where "fifoTotal = 3"

record fifoLocker =
  fkeychain :: "i32 list"

definition zero_fifoLocker :: fifoLocker where
  "zero_fifoLocker = \<lparr>fkeychain = replicate fifoTotal 0\<rparr>"

definition fifo_closeBy :: "who \<Rightarrow> 'l fifoLocker_scheme \<Rightarrow> bool \<times> 'l fifoLocker_scheme" where
  "fifo_closeBy w l =
     (let (ok, ks) = CompareAndSwap (fkeychain l) fifoClosing 0 w in (ok, l\<lparr>fkeychain := ks\<rparr>))"

definition fifo_isCloseBy :: "who \<Rightarrow> 'l fifoLocker_scheme \<Rightarrow> bool" where
  "fifo_isCloseBy w l \<longleftrightarrow> fkeychain l ! fifoClosing = w"

definition fifo_status :: "key \<Rightarrow> 'l fifoLocker_scheme \<Rightarrow> i32" where
  "fifo_status k l = fkeychain l ! k"

definition fifo_force :: "key \<Rightarrow> i32 \<Rightarrow> 'l fifoLocker_scheme \<Rightarrow> 'l fifoLocker_scheme" where
  "fifo_force k v l = l\<lparr>fkeychain := (fkeychain l)[k := v]\<rparr>"

definition fifo_lock :: "key \<Rightarrow> 'l fifoLocker_scheme \<Rightarrow> bool \<times> 'l fifoLocker_scheme" where
  "fifo_lock k l = (let (ok, ks) = CompareAndSwap (fkeychain l) k 0 1 in (ok, l\<lparr>fkeychain := ks\<rparr>))"

definition fifo_unlock :: "key \<Rightarrow> 'l fifoLocker_scheme \<Rightarrow> 'l fifoLocker_scheme" where
  "fifo_unlock k l = l\<lparr>fkeychain := (fkeychain l)[k := 0]\<rparr>"

fun fifo_stop ::
    "key \<Rightarrow> ('l fifoLocker_scheme \<Rightarrow> 'l fifoLocker_scheme) list \<Rightarrow> 'l fifoLocker_scheme \<Rightarrow>
     'l fifoLocker_scheme option" where
  "fifo_stop k env l =
     (let (ok, ks) = CompareAndSwap (fkeychain l) k 0 2
      in if ok then Some (l\<lparr>fkeychain := ks\<rparr>)
         else if fkeychain l ! k = 2 then Some l
         else case env of [] \<Rightarrow> None | e # es \<Rightarrow> fifo_stop k es (e l))"

definition fifo_isUnlock :: "key \<Rightarrow> 'l fifoLocker_scheme \<Rightarrow> bool" where
  "fifo_isUnlock k l \<longleftrightarrow> fkeychain l ! k = 0"

subsection \<open>Goroutines around one key\<close>

text \<open>
  Any number of goroutines, each outside or inside a section guarded by the key; one that is
  inside leaves by unlocking; a stopper makes one attempt of its loop at a time.
\<close>

inductive lock_step ::
    "('s \<Rightarrow> bool \<times> 's) \<Rightarrow> ('s \<Rightarrow> 's) \<Rightarrow> ('s \<Rightarrow> 's option) \<Rightarrow>
     's \<times> nat set \<Rightarrow> 's \<times> nat set \<Rightarrow> bool"
  for lck ulck stp where
  enter: "i \<notin> ins \<Longrightarrow> lck s = (True, s') \<Longrightarrow> lock_step lck ulck stp (s, ins) (s', insert i ins)"
| refused: "i \<notin> ins \<Longrightarrow> lck s = (False, s') \<Longrightarrow> lock_step lck ulck stp (s, ins) (s', ins)"
| leave: "i \<in> ins \<Longrightarrow> lock_step lck ulck stp (s, ins) (ulck s, ins - {i})"
| halt: "stp s = Some s' \<Longrightarrow> lock_step lck ulck stp (s, ins) (s', ins)"

locale key_lock =
  fixes ok :: "'s \<Rightarrow> bool" and val :: "'s \<Rightarrow> i32"
    and lck :: "'s \<Rightarrow> bool \<times> 's" and ulck :: "'s \<Rightarrow> 's" and stp :: "'s \<Rightarrow> 's option"
  assumes lck_free: "ok s \<Longrightarrow> val s = 0 \<Longrightarrow> \<exists>s'. lck s = (True, s') \<and> ok s' \<and> val s' = 1"
    and lck_held: "ok s \<Longrightarrow> val s \<noteq> 0 \<Longrightarrow> lck s = (False, s)"
    and ulck_frees: "ok s \<Longrightarrow> ok (ulck s) \<and> val (ulck s) = 0"
    and stp_stops: "ok s \<Longrightarrow> stp s = Some s' \<Longrightarrow> ok s' \<and> val s' = 2 \<and> val s \<noteq> 1"
begin

definition inv :: "'s \<times> nat set \<Rightarrow> bool" where
  "inv c \<longleftrightarrow> (case c of (s, ins) \<Rightarrow> ok s \<and> (if val s = 1 then \<exists>i. ins = {i} else ins = {}))"

lemma step_inv: "lock_step lck ulck stp c c' \<Longrightarrow> inv c \<Longrightarrow> inv c'"
proof (induction rule: lock_step.induct)
  case (enter i ins s s')
  then have "val s = 0" using lck_held [of s] by (auto simp: inv_def)
  with enter lck_free [of s] show ?case by (auto simp: inv_def)
next
  case (refused i ins s s')
  then show ?case using lck_held [of s] lck_free [of s] by (cases "val s = 0") (auto simp: inv_def)
next
  case (leave i ins s)
  then have "val s = 1" by (auto simp: inv_def split: if_splits)
  with leave ulck_frees [of s] show ?case by (auto simp: inv_def)
next
  case (halt s s' ins)
  then show ?case using stp_stops [of s s'] by (auto simp: inv_def split: if_splits)
qed

lemma steps_inv: "(lock_step lck ulck stp)\<^sup>*\<^sup>* c c' \<Longrightarrow> inv c \<Longrightarrow> inv c'"
  by (induction rule: rtranclp_induct) (auto intro: step_inv)

lemma one_inside:
  assumes "(lock_step lck ulck stp)\<^sup>*\<^sup>* (s, {}) (s', ins)" "ok s" "val s \<noteq> 1" "i \<in> ins" "j \<in> ins"
  shows "i = j" "val s' = 1"
proof -
  have "inv (s', ins)" using steps_inv [OF assms(1)] assms(2,3) by (simp add: inv_def)
  then show "i = j" "val s' = 1" using assms(4,5) by (auto simp: inv_def split: if_splits)
qed

lemma nobody_when_stopped:
  assumes "(lock_step lck ulck stp)\<^sup>*\<^sup>* (s, {}) (s', ins)" "ok s" "val s \<noteq> 1" "val s' = 2"
  shows "ins = {}" "lck s' = (False, s')"
proof -
  have "inv (s', ins)" using steps_inv [OF assms(1)] assms(2,3) by (simp add: inv_def)
  then show "ins = {}" "lck s' = (False, s')" using assms(4) lck_held [of s'] by (auto simp: inv_def)
qed

end

subsection \<open>Both lockers keep the contract\<close>

lemmas locker_defs =
  CompareAndSwap_def lock_def unlock_def status_def closeBy_def isCloseBy_def force_def isUnlock_def
lemmas fifo_locker_defs =
  CompareAndSwap_def fifo_lock_def fifo_unlock_def fifo_status_def fifo_closeBy_def
  fifo_isCloseBy_def fifo_force_def fifo_isUnlock_def

declare stop.simps [simp del] fifo_stop.simps [simp del]

interpretation conn_key: key_lock "\<lambda>l. k < length (keychain l)" "status k" "lock k" "unlock k" "stop k []"
  for k :: key
  by unfold_locales (auto simp: locker_defs stop.simps split: if_splits)

interpretation fifo_key: key_lock "\<lambda>l. k < length (fkeychain l)" "fifo_status k" "fifo_lock k"
    "fifo_unlock k" "fifo_stop k []"
  for k :: key
  by unfold_locales (auto simp: fifo_locker_defs fifo_stop.simps split: if_splits)

lemma closeBy_once:
  assumes "0 < length (keychain l)" "w \<noteq> 0"
  shows "fst (closeBy w l) \<longleftrightarrow> isCloseBy none l" "\<not> isCloseBy none (snd (closeBy w l))"
    "isCloseBy none l \<Longrightarrow> isCloseBy w (snd (closeBy w l))"
    "\<not> isCloseBy none l \<Longrightarrow> snd (closeBy w l) = l"
  using assms by (auto simp: locker_defs closing_def none_def)





end
