(* ===== verification/Operator.thy ===== *)
theory Operator
  imports Errors Locker
begin

section \<open>FD operators and their cache (fd\_operator.go, fd\_operator\_cache.go, poll.go)\<close>

text \<open>
  An operator ties a file descriptor to its handlers. Its state word guards the handlers: a
  poller works between \<^verbatim>\<open>do\<close> and \<^verbatim>\<open>done\<close>, and \<^verbatim>\<open>unused\<close> waits for it. Operators live in a heap
  and are recycled through a cache: a linked free list for \<^verbatim>\<open>alloc\<close>, and a list of indices that are
  to be freed, which only the poller moves to the free list. Handlers are values of a type \<open>'h\<close>.
\<close>

subsection \<open>Operators\<close>

datatype PollEvent = PollReadable | PollWritable | PollDetach | PollR2RW | PollRW2R

record 'h FDOperator =
  FD :: int
  OnRead :: "'h option"
  OnWrite :: "'h option"
  OnHup :: "'h option"
  Inputs :: "'h option"
  InputAck :: "'h option"
  Outputs :: "'h option"
  OutputAck :: "'h option"
  op_poll :: "nat option"
  detached :: i32
  op_next :: "addr option"
  op_state :: i32
  op_index :: i32

definition zero_FDOperator :: "'h FDOperator" where
  "zero_FDOperator = \<lparr>FD = 0, OnRead = None, OnWrite = None, OnHup = None, Inputs = None,
     InputAck = None, Outputs = None, OutputAck = None, op_poll = None, detached = 0,
     op_next = None, op_state = 0, op_index = 0\<rparr>"

text \<open>
  \<^verbatim>\<open>op.Control(event)\<close>: the poller's own \<^verbatim>\<open>Control\<close> is the parameter; \<open>None\<close> when the operator has
  no poller, which is a nil dereference. The flag says whether the poller was called.
\<close>

definition op_Control ::
    "(PollEvent \<Rightarrow> error option) \<Rightarrow> PollEvent \<Rightarrow> 'h FDOperator \<Rightarrow> (error option \<times> bool \<times> 'h FDOperator) option" where
  "op_Control ctl event op =
     (let op' = (if event = PollDetach then op\<lparr>detached := detached op + 1\<rparr> else op)
      in if event = PollDetach \<and> sint (detached op') > 1 then Some (None, False, op')
         else if op_poll op = None then None
         else Some (ctl event, True, op'))"

definition op_do :: "'h FDOperator \<Rightarrow> bool \<times> 'h FDOperator" where
  "op_do op = (if op_state op = 1 then (True, op\<lparr>op_state := 2\<rparr>) else (False, op))"

definition op_done :: "'h FDOperator \<Rightarrow> 'h FDOperator" where
  "op_done op = op\<lparr>op_state := 1\<rparr>"

text \<open>The spinning operations take what the other goroutines do each time they yield.\<close>

fun op_inuse :: "('h FDOperator \<Rightarrow> 'h FDOperator) list \<Rightarrow> 'h FDOperator \<Rightarrow> 'h FDOperator option" where
  "op_inuse env op =
     (if op_state op = 0 then Some (op\<lparr>op_state := 1\<rparr>)
      else if op_state op = 1 then Some op
      else case env of [] \<Rightarrow> None | e # es \<Rightarrow> op_inuse es (e op))"

fun op_unused :: "('h FDOperator \<Rightarrow> 'h FDOperator) list \<Rightarrow> 'h FDOperator \<Rightarrow> 'h FDOperator option" where
  "op_unused env op =
     (if op_state op = 1 then Some (op\<lparr>op_state := 0\<rparr>)
      else if op_state op = 0 then Some op
      else case env of [] \<Rightarrow> None | e # es \<Rightarrow> op_unused es (e op))"

definition op_isUnused :: "'h FDOperator \<Rightarrow> bool" where
  "op_isUnused op \<longleftrightarrow> op_state op = 0"

definition op_reset :: "'h FDOperator \<Rightarrow> 'h FDOperator" where
  "op_reset op = op\<lparr>FD := 0, OnRead := None, OnWrite := None, OnHup := None, Inputs := None,
     InputAck := None, Outputs := None, OutputAck := None, op_poll := None, detached := 0\<rparr>"

subsection \<open>The operator cache\<close>

record 'h operatorCache =
  ops :: "addr \<Rightarrow> 'h FDOperator option"
  next_op :: addr
  first :: "addr option"
  op_cache :: "addr list"
  locked :: i32
  freelocked :: i32
  freelist :: "i32 list"

definition newOperatorCache :: "'h operatorCache" where
  "newOperatorCache = \<lparr>ops = (\<lambda>_. None), next_op = 0, first = None, op_cache = [],
                       locked = 0, freelocked = 0, freelist = []\<rparr>"

text \<open>\<^verbatim>\<open>lock\<close> spins while the word is not 0; \<open>None\<close> when the word is held.\<close>

definition spin_lock :: "i32 \<Rightarrow> i32 option" where
  "spin_lock l = (if l = 0 then Some 1 else None)"

definition spin_unlock :: "i32 \<Rightarrow> i32" where
  "spin_unlock l = 0"

definition put_op :: "addr \<Rightarrow> 'h FDOperator \<Rightarrow> 'h operatorCache \<Rightarrow> 'h operatorCache" where
  "put_op a op c = c\<lparr>ops := (ops c)(a \<mapsto> op)\<rparr>"

fun alloc_loop :: "nat \<Rightarrow> i32 \<Rightarrow> 'h operatorCache \<Rightarrow> 'h operatorCache" where
  "alloc_loop 0 index c = c"
| "alloc_loop (Suc n) index c =
     (let pd = next_op c;
          c = put_op pd (zero_FDOperator\<lparr>op_index := index, op_next := first c\<rparr>) c;
          c = c\<lparr>next_op := Suc pd, op_cache := op_cache c @ [pd], first := Some pd\<rparr>
      in alloc_loop n (index + 1) c)"

text \<open>\<open>opSize\<close> is \<^verbatim>\<open>unsafe.Sizeof(FDOperator{})\<close>, which the platform fixes.\<close>

definition alloc_count :: "nat \<Rightarrow> nat" where
  "alloc_count opSize = (let n = 4096 div opSize in if n = 0 then 1 else n)"

definition cache_alloc :: "nat \<Rightarrow> 'h operatorCache \<Rightarrow> (addr \<times> 'h operatorCache) option" where
  "cache_alloc opSize c =
     do {
       lk \<leftarrow> spin_lock (locked c);
       let c = c\<lparr>locked := lk\<rparr>;
       let c = (if first c = None
                then alloc_loop (alloc_count opSize) (of_nat (length (op_cache c))) c else c);
       op \<leftarrow> first c;
       nd \<leftarrow> ops c op;
       let c = c\<lparr>first := op_next nd\<rparr>;
       Some (op, c\<lparr>locked := spin_unlock (locked c)\<rparr>)
     }"

definition cache_freeable ::
    "('h FDOperator \<Rightarrow> 'h FDOperator) list \<Rightarrow> addr \<Rightarrow> 'h operatorCache \<Rightarrow> 'h operatorCache option" where
  "cache_freeable env a c =
     do {
       nd \<leftarrow> ops c a;
       nd \<leftarrow> op_unused env nd;
       let nd = op_reset nd;
       let c = put_op a nd c;
       lk \<leftarrow> spin_lock (freelocked c);
       let c = c\<lparr>freelocked := lk, freelist := freelist c @ [op_index nd]\<rparr>;
       Some (c\<lparr>freelocked := spin_unlock (freelocked c)\<rparr>)
     }"

text \<open>Indexing the cache; a negative or too large index is a run-time panic.\<close>

definition cache_at :: "'h operatorCache \<Rightarrow> i32 \<Rightarrow> addr option" where
  "cache_at c idx =
     (if 0 \<le> sint idx \<and> sint idx < int (length (op_cache c)) then Some (op_cache c ! nat (sint idx)) else None)"

fun free_loop :: "i32 list \<Rightarrow> 'h operatorCache \<Rightarrow> 'h operatorCache option" where
  "free_loop [] c = Some c"
| "free_loop (idx # is) c =
     do {
       a \<leftarrow> cache_at c idx;
       nd \<leftarrow> ops c a;
       let c = put_op a (nd\<lparr>op_next := first c\<rparr>) c;
       free_loop is (c\<lparr>first := Some a\<rparr>)
     }"

definition cache_free :: "'h operatorCache \<Rightarrow> 'h operatorCache option" where
  "cache_free c =
     do {
       flk \<leftarrow> spin_lock (freelocked c);
       let c = c\<lparr>freelocked := flk\<rparr>;
       if freelist c = [] then Some (c\<lparr>freelocked := spin_unlock (freelocked c)\<rparr>)
       else do {
         lk \<leftarrow> spin_lock (locked c);
         let c = c\<lparr>locked := lk\<rparr>;
         c \<leftarrow> free_loop (freelist c) c;
         let c = c\<lparr>freelist := []\<rparr>;
         let c = c\<lparr>locked := spin_unlock (locked c)\<rparr>;
         Some (c\<lparr>freelocked := spin_unlock (freelocked c)\<rparr>)
       }
     }"

subsection \<open>The invariant of the cache\<close>

fun op_chain :: "(addr \<Rightarrow> 'h FDOperator option) \<Rightarrow> addr option \<Rightarrow> addr list \<Rightarrow> bool" where
  "op_chain h p [] \<longleftrightarrow> p = None"
| "op_chain h p (a # as) \<longleftrightarrow> p = Some a \<and> (case h a of None \<Rightarrow> False | Some op \<Rightarrow> op_chain h (op_next op) as)"

text \<open>
  \<open>fs\<close> are the operators on the free list and \<open>used\<close> those handed out: no operator is in two of
  the free list, the freeable list and \<open>used\<close>, and each knows its place in the cache.
\<close>

definition frees :: "'h operatorCache \<Rightarrow> addr set" where
  "frees c = {a. \<exists>i\<in>set (freelist c). cache_at c i = Some a}"

definition cache_core :: "'h operatorCache \<Rightarrow> addr list \<Rightarrow> addr set \<Rightarrow> bool" where
  "cache_core c fs used \<longleftrightarrow>
     op_chain (ops c) (first c) fs \<and> distinct (op_cache c) \<and> length (op_cache c) < 2 ^ 31 \<and>
     (\<forall>a\<in>set (op_cache c). a < next_op c) \<and>
     (\<forall>i<length (op_cache c). \<exists>op. ops c (op_cache c ! i) = Some op \<and> op_index op = of_nat i) \<and>
     distinct (freelist c) \<and> (\<forall>i\<in>set (freelist c). cache_at c i \<noteq> None) \<and>
     distinct fs \<and> set fs \<union> used \<union> frees c = set (op_cache c) \<and>
     set fs \<inter> used = {} \<and> set fs \<inter> frees c = {} \<and> used \<inter> frees c = {}"

definition cache_inv :: "'h operatorCache \<Rightarrow> addr list \<Rightarrow> addr set \<Rightarrow> bool" where
  "cache_inv c fs used \<longleftrightarrow> locked c = 0 \<and> freelocked c = 0 \<and> cache_core c fs used"

text \<open>What the users of a cache do: an operator is handed back only by the one it was handed to.\<close>

inductive cache_step :: "nat \<Rightarrow> 'h operatorCache \<times> addr set \<Rightarrow> 'h operatorCache \<times> addr set \<Rightarrow> bool"
  for opSize where
  alloc: "cache_alloc opSize c = Some (op, c') \<Longrightarrow> length (op_cache c) + alloc_count opSize < 2 ^ 31 \<Longrightarrow>
    cache_step opSize (c, used) (c', insert op used)"
| freeable: "a \<in> used \<Longrightarrow> cache_freeable [] a c = Some c' \<Longrightarrow> cache_step opSize (c, used) (c', used - {a})"
| free: "cache_free c = Some c' \<Longrightarrow> cache_step opSize (c, used) (c', used)"

subsection \<open>Facts\<close>

lemma sint_of_nat_i32: "i < 2 ^ 31 \<Longrightarrow> sint (of_nat i :: i32) = int i"
  by (simp add: signed_of_nat signed_take_bit_int_eq_self)

lemma cache_at_of_nat:
  "i < length (op_cache c) \<Longrightarrow> length (op_cache c) < 2 ^ 31 \<Longrightarrow> cache_at c (of_nat i) = Some (op_cache c ! i)"
  by (simp add: cache_at_def sint_of_nat_i32)

lemma cache_at_frame: "op_cache c' = op_cache c \<Longrightarrow> cache_at c' i = cache_at c i"
  by (simp add: cache_at_def)

lemma cache_at_SomeD: "cache_at c i = Some a \<Longrightarrow> a \<in> set (op_cache c)"
  by (auto simp: cache_at_def split: if_splits)

lemma cache_at_inj:
  assumes "cache_at c i = Some a" "cache_at c j = Some a" "distinct (op_cache c)"
  shows "i = j"
proof -
  have "nat (sint i) = nat (sint j)" "0 \<le> sint i" "0 \<le> sint j"
    using assms by (auto simp: cache_at_def nth_eq_iff_index_eq split: if_splits)
  then have "sint i = sint j" by simp
  then show ?thesis by (rule signed_word_eqI)
qed

lemma op_chain_cong:
  "(\<And>a. a \<in> set as \<Longrightarrow> map_option op_next (h' a) = map_option op_next (h a)) \<Longrightarrow>
     op_chain h' p as = op_chain h p as"
proof (induction as arbitrary: p)
  case (Cons a as)
  then have "map_option op_next (h' a) = map_option op_next (h a)" by simp
  with Cons show ?case by (cases "h a"; cases "h' a") auto
qed simp

lemma op_chain_dom: "op_chain h p as \<Longrightarrow> a \<in> set as \<Longrightarrow> h a \<noteq> None"
  by (induction as arbitrary: p) (auto split: option.splits)

lemma put_op_simps [simp]:
  "ops (put_op a op c) = (ops c)(a \<mapsto> op)" "next_op (put_op a op c) = next_op c"
  "first (put_op a op c) = first c" "op_cache (put_op a op c) = op_cache c"
  "locked (put_op a op c) = locked c" "freelocked (put_op a op c) = freelocked c"
  "freelist (put_op a op c) = freelist c"
  by (simp_all add: put_op_def)

lemma frees_cong: "op_cache c' = op_cache c \<Longrightarrow> freelist c' = freelist c \<Longrightarrow> frees c' = frees c"
  by (simp add: frees_def cache_at_frame [of c' c])

lemma cache_core_cong:
  assumes "ops c' = ops c" "next_op c' = next_op c" "first c' = first c" "op_cache c' = op_cache c"
    "freelist c' = freelist c"
  shows "cache_core c' fs used = cache_core c fs used"
  unfolding cache_core_def assms frees_cong [OF assms(4,5)] cache_at_frame [OF assms(4)] ..

lemma cache_core_sub: "cache_core c fs used \<Longrightarrow> a \<in> set fs \<union> used \<union> frees c \<Longrightarrow> a \<in> set (op_cache c)"
  by (auto simp: cache_core_def)

text \<open>One new operator, put at the end of the cache and in front of the free list.\<close>

definition grow :: "'h operatorCache \<Rightarrow> 'h operatorCache" where
  "grow c = (put_op (next_op c)
       (zero_FDOperator\<lparr>op_index := of_nat (length (op_cache c)), op_next := first c\<rparr>) c)
     \<lparr>next_op := Suc (next_op c), op_cache := op_cache c @ [next_op c], first := Some (next_op c)\<rparr>"

lemma grow_frees: "cache_core c fs used \<Longrightarrow> frees (grow c) = frees c"
proof -
  assume c: "cache_core c fs used"
  have "cache_at (grow c) i = cache_at c i" if "cache_at c i \<noteq> None" for i
    using that by (auto simp: cache_at_def grow_def nth_append split: if_splits)
  then have "\<forall>i\<in>set (freelist c). cache_at (grow c) i = cache_at c i" using c by (auto simp: cache_core_def)
  moreover have "freelist (grow c) = freelist c" by (simp add: grow_def)
  ultimately show ?thesis by (auto simp: frees_def)
qed

lemma grow_core:
  assumes c: "cache_core c fs used" and len: "Suc (length (op_cache c)) < 2 ^ 31"
  shows "cache_core (grow c) (next_op c # fs) used"
proof -
  let ?c = "grow c" and ?n = "next_op c"
  have new: "?n \<notin> set (op_cache c)" using c by (auto simp: cache_core_def)
  then have out: "?n \<notin> set fs \<union> used \<union> frees c" using cache_core_sub [OF c] by blast
  have at: "cache_at ?c i = cache_at c i" if "cache_at c i \<noteq> None" for i
    using that by (auto simp: cache_at_def grow_def nth_append split: if_splits)
  have fr: "frees ?c = frees c" by (rule grow_frees [OF c])
  have "op_chain (ops ?c) (first ?c) (?n # fs)"
  proof -
    have "op_chain (ops ?c) (first c) fs = op_chain (ops c) (first c) fs"
      by (rule op_chain_cong) (use out in \<open>auto simp: grow_def\<close>)
    then show ?thesis using c by (simp add: grow_def cache_core_def)
  qed
  moreover have "\<exists>op. ops ?c (op_cache ?c ! i) = Some op \<and> op_index op = of_nat i"
    if i: "i < length (op_cache ?c)" for i
  proof (cases "i < length (op_cache c)")
    case True
    then have "op_cache c ! i \<noteq> ?n" using new nth_mem by metis
    then show ?thesis using True c by (auto simp: grow_def nth_append cache_core_def)
  next
    case False
    then have "i = length (op_cache c)" using i by (simp add: grow_def)
    then show ?thesis by (simp add: grow_def)
  qed
  moreover have "\<forall>i\<in>set (freelist ?c). cache_at ?c i \<noteq> None"
    using at c by (auto simp: cache_core_def grow_def)
  moreover have "op_cache ?c = op_cache c @ [?n]" "freelist ?c = freelist c" "next_op ?c = Suc ?n"
    by (simp_all add: grow_def)
  ultimately show ?thesis
    using c new out len unfolding cache_core_def fr by (auto simp: less_Suc_eq)
qed

lemma alloc_loop_core:
  assumes "cache_core c fs used" "length (op_cache c) + n < 2 ^ 31"
  shows "\<exists>ns. length ns = n \<and>
           cache_core (alloc_loop n (of_nat (length (op_cache c))) c) (ns @ fs) used \<and>
           locked (alloc_loop n (of_nat (length (op_cache c))) c) = locked c \<and>
           freelocked (alloc_loop n (of_nat (length (op_cache c))) c) = freelocked c \<and>
           freelist (alloc_loop n (of_nat (length (op_cache c))) c) = freelist c \<and>
           frees (alloc_loop n (of_nat (length (op_cache c))) c) = frees c"
  using assms
proof (induction n arbitrary: c fs)
  case (Suc n)
  have step: "alloc_loop (Suc n) (of_nat (length (op_cache c))) c =
      alloc_loop n (of_nat (length (op_cache (grow c)))) (grow c)"
    by (simp add: grow_def Let_def add.commute)
  have "cache_core (grow c) (next_op c # fs) used" using Suc.prems by (intro grow_core) auto
  moreover have "length (op_cache (grow c)) + n < 2 ^ 31" using Suc.prems by (simp add: grow_def)
  ultimately obtain ns where ns: "length ns = n"
    "cache_core (alloc_loop n (of_nat (length (op_cache (grow c)))) (grow c)) (ns @ next_op c # fs) used"
    "locked (alloc_loop n (of_nat (length (op_cache (grow c)))) (grow c)) = locked (grow c)"
    "freelocked (alloc_loop n (of_nat (length (op_cache (grow c)))) (grow c)) = freelocked (grow c)"
    "freelist (alloc_loop n (of_nat (length (op_cache (grow c)))) (grow c)) = freelist (grow c)"
    "frees (alloc_loop n (of_nat (length (op_cache (grow c)))) (grow c)) = frees (grow c)"
    using Suc.IH by blast
  moreover have "locked (grow c) = locked c" "freelocked (grow c) = freelocked c" "freelist (grow c) = freelist c"
    by (simp_all add: grow_def)
  moreover have "frees (grow c) = frees c" by (rule grow_frees [OF Suc.prems(1)])
  ultimately show ?case unfolding step by (intro exI [of _ "ns @ [next_op c]"]) simp
qed auto

lemma cache_alloc_ok:
  assumes inv: "cache_inv c fs used" and len: "length (op_cache c) + alloc_count opSize < 2 ^ 31"
  shows "\<exists>op c' fs'. cache_alloc opSize c = Some (op, c') \<and> op \<notin> used \<and> op \<notin> frees c \<and>
           cache_inv c' fs' (insert op used) \<and> freelist c' = freelist c"
proof -
  let ?c = "c\<lparr>locked := 1\<rparr>"
  let ?d = "if first ?c = None then alloc_loop (alloc_count opSize) (of_nat (length (op_cache ?c))) ?c else ?c"
  have core: "cache_core c fs used" and lk: "locked c = 0" "freelocked c = 0" using inv by (auto simp: cache_inv_def)
  have core1: "cache_core ?c fs used" using core by (subst cache_core_cong [of _ c]) simp_all
  have pos: "0 < alloc_count opSize" by (simp add: alloc_count_def Let_def)
  have "\<exists>gs. gs \<noteq> [] \<and> cache_core ?d gs used \<and> freelocked ?d = 0 \<and> freelist ?d = freelist c \<and> frees ?d = frees c"
  proof (cases "first c = None")
    case True
    have "length (op_cache ?c) + alloc_count opSize < 2 ^ 31" using len by simp
    from alloc_loop_core [OF core1 this] obtain ns where
      "length ns = alloc_count opSize" "cache_core ?d (ns @ fs) used" "freelocked ?d = freelocked ?c"
      "freelist ?d = freelist ?c" "frees ?d = frees ?c" using True by auto
    then show ?thesis using pos lk frees_cong [of ?c c] by (intro exI [of _ "ns @ fs"]) auto
  next
    case False
    then have dd: "?d = ?c" by auto
    from False core have "fs \<noteq> []" by (auto simp: cache_core_def)
    then show ?thesis unfolding dd using core1 lk frees_cong [of ?c c] by (intro exI [of _ fs]) simp
  qed
  then obtain a gs where d: "cache_core ?d (a # gs) used" "freelocked ?d = 0" "freelist ?d = freelist c"
    "frees ?d = frees c"
    by (metis neq_Nil_conv)
  then obtain nd where nd: "first ?d = Some a" "ops ?d a = Some nd"
    by (auto simp: cache_core_def split: option.splits)
  let ?e = "?d\<lparr>first := op_next nd, locked := 0\<rparr>"
  have run: "cache_alloc opSize c = Some (a, ?e)"
    using lk nd by (simp add: cache_alloc_def spin_lock_def spin_unlock_def Let_def del: alloc_loop.simps)
  have fr: "frees ?e = frees ?d" by (rule frees_cong) simp_all
  have at: "cache_at ?e i = cache_at ?d i" for i by (rule cache_at_frame) simp
  have "a \<notin> used" "a \<notin> frees ?d" using d(1) by (auto simp: cache_core_def)
  moreover have "cache_core ?e gs (insert a used)"
    using d(1) nd unfolding cache_core_def fr at by auto
  ultimately show ?thesis using run d by (auto simp: cache_inv_def)
qed

declare op_unused.simps [simp del] op_inuse.simps [simp del]

lemma op_unused_index:
  assumes "op_unused env op = Some op'" "\<And>e op. e \<in> set env \<Longrightarrow> op_index (e op) = op_index op"
  shows "op_index op' = op_index op" "op_state op' = 0"
proof -
  have "op_index op' = op_index op \<and> op_state op' = 0"
    using assms
  proof (induction env arbitrary: op)
    case Nil
    then show ?case by (subst (asm) op_unused.simps) (auto split: if_splits)
  next
    case (Cons e es)
    show ?case
    proof (cases "op_state op = 0 \<or> op_state op = 1")
      case True
      then show ?thesis using Cons.prems(1) by (subst (asm) op_unused.simps) (auto split: if_splits)
    next
      case False
      then have "op_unused es (e op) = Some op'" using Cons.prems(1) by (subst (asm) op_unused.simps) simp
      then show ?thesis using Cons.IH [of "e op"] Cons.prems(2) by simp
    qed
  qed
  then show "op_index op' = op_index op" "op_state op' = 0" by auto
qed

lemma cache_freeable_ok:
  assumes inv: "cache_inv c fs used" and a: "a \<in> used" "ops c a = Some nd"
    and un: "op_unused env nd = Some nd'" "\<And>e op. e \<in> set env \<Longrightarrow> op_index (e op) = op_index op"
  shows "\<exists>c'. cache_freeable env a c = Some c' \<and> cache_inv c' fs (used - {a}) \<and> a \<in> frees c'"
proof -
  have core: "cache_core c fs used" and lk: "locked c = 0" "freelocked c = 0" using inv by (auto simp: cache_inv_def)
  obtain i where i: "i < length (op_cache c)" "op_cache c ! i = a"
    using cache_core_sub [OF core] a(1) by (metis Un_iff in_set_conv_nth)
  then have ix: "op_index nd = of_nat i" using core a(2) by (auto simp: cache_core_def)
  have u: "op_index nd' = op_index nd" using op_unused_index [of env nd nd'] un by blast
  let ?c = "(put_op a (op_reset nd') c)\<lparr>freelist := freelist c @ [of_nat i], freelocked := 0\<rparr>"
  have run: "cache_freeable env a c = Some ?c"
    using a un(1) lk u ix
    by (simp add: cache_freeable_def spin_lock_def spin_unlock_def op_reset_def Let_def put_op_def)
  have ati: "cache_at c (of_nat i) = Some a"
    using cache_at_of_nat [OF i(1)] core i(2) by (simp add: cache_core_def)
  have at: "cache_at ?c j = cache_at c j" for j by (rule cache_at_frame) simp
  have fr: "frees ?c = insert a (frees c)" using ati by (auto simp: frees_def at)
  have "of_nat i \<notin> set (freelist c)"
    using core a(1) ati by (auto simp: cache_core_def frees_def)
  moreover have "a \<notin> set fs" "a \<notin> frees c" using core a(1) by (auto simp: cache_core_def)
  moreover have "op_chain (ops ?c) (first ?c) fs"
  proof -
    have "op_chain (ops ?c) (first c) fs = op_chain (ops c) (first c) fs"
      by (rule op_chain_cong) (use \<open>a \<notin> set fs\<close> in auto)
    then show ?thesis using core by (simp add: cache_core_def)
  qed
  moreover have "\<exists>op. ops ?c (op_cache ?c ! j) = Some op \<and> op_index op = of_nat j"
    if "j < length (op_cache ?c)" for j
    using core that i ix u by (auto simp: cache_core_def op_reset_def nth_eq_iff_index_eq)
  ultimately have "cache_core ?c fs (used - {a})"
    using core a(1) ati unfolding cache_core_def fr at by auto
  then show ?thesis using run lk fr by (auto simp: cache_inv_def)
qed

lemma free_loop_ok:
  assumes "cache_core (c\<lparr>freelist := is\<rparr>) fs used"
  shows "\<exists>c' fs'. free_loop is c = Some c' \<and> cache_core (c'\<lparr>freelist := []\<rparr>) fs' used \<and>
           set fs' = set fs \<union> frees (c\<lparr>freelist := is\<rparr>) \<and>
           locked c' = locked c \<and> freelocked c' = freelocked c \<and> op_cache c' = op_cache c"
  using assms
proof (induction "is" arbitrary: c fs)
  case Nil
  then show ?case by (auto simp: frees_def)
next
  case (Cons i js)
  note core = Cons.prems
  from core obtain a where a: "cache_at c i = Some a"
    by (auto simp: cache_core_def cache_at_def split: if_splits)
  have ain: "a \<in> frees (c\<lparr>freelist := i # js\<rparr>)" using a by (auto simp: frees_def cache_at_def)
  then have out: "a \<notin> set fs" "a \<notin> used" using core by (auto simp: cache_core_def)
  obtain k where k: "k < length (op_cache c)" "op_cache c ! k = a"
    using cache_at_SomeD [OF a] by (auto simp: in_set_conv_nth)
  then obtain nd where nd: "ops c a = Some nd" "op_index nd = of_nat k" using core by (auto simp: cache_core_def)
  let ?d = "(put_op a (nd\<lparr>op_next := first c\<rparr>) c)\<lparr>first := Some a\<rparr>"
  have step: "free_loop (i # js) c = free_loop js ?d" using a nd by (simp add: Let_def)
  have at: "cache_at (?d\<lparr>freelist := x\<rparr>) j = cache_at c j" "cache_at (c\<lparr>freelist := x\<rparr>) j = cache_at c j" for x j
    by (rule cache_at_frame, simp)+
  have fr: "frees (?d\<lparr>freelist := js\<rparr>) = frees (c\<lparr>freelist := i # js\<rparr>) - {a}"
  proof -
    have "j \<noteq> i" if "j \<in> set js" for j using core that by (auto simp: cache_core_def)
    then have "cache_at c j \<noteq> Some a" if "j \<in> set js" for j
      using cache_at_inj [OF a] core that by (auto simp: cache_core_def)
    then show ?thesis using a by (auto simp: frees_def at)
  qed
  have "op_chain (ops ?d) (first ?d) (a # fs)"
  proof -
    have "op_chain (ops ?d) (first c) fs = op_chain (ops c) (first c) fs"
      by (rule op_chain_cong) (use out in auto)
    then show ?thesis using core by (simp add: cache_core_def)
  qed
  moreover have "\<exists>op. ops ?d (op_cache ?d ! j) = Some op \<and> op_index op = of_nat j"
    if "j < length (op_cache ?d)" for j
    using core that k nd by (auto simp: cache_core_def nth_eq_iff_index_eq)
  ultimately have "cache_core (?d\<lparr>freelist := js\<rparr>) (a # fs) used"
    using core ain out unfolding cache_core_def fr at by (auto simp: cache_at_def)
  from Cons.IH [OF this] obtain c' fs' where q: "free_loop js ?d = Some c'"
    "cache_core (c'\<lparr>freelist := []\<rparr>) fs' used" "set fs' = set (a # fs) \<union> frees (?d\<lparr>freelist := js\<rparr>)"
    "locked c' = locked ?d" "freelocked c' = freelocked ?d" "op_cache c' = op_cache ?d"
    by blast
  have "set fs' = set fs \<union> frees (c\<lparr>freelist := i # js\<rparr>)" using q(3) fr ain by auto
  then show ?case unfolding step using q by (intro exI [of _ c'] exI [of _ fs']) simp
qed

lemma cache_free_ok:
  assumes inv: "cache_inv c fs used"
  shows "\<exists>c' fs'. cache_free c = Some c' \<and> cache_inv c' fs' used \<and> freelist c' = [] \<and>
           set fs' = set fs \<union> frees c"
proof -
  have core: "cache_core c fs used" and lk: "locked c = 0" "freelocked c = 0" using inv by (auto simp: cache_inv_def)
  show ?thesis
  proof (cases "freelist c = []")
    case True
    then have "cache_free c = Some c" using lk by (simp add: cache_free_def spin_lock_def spin_unlock_def)
    then show ?thesis using inv True by (auto simp: frees_def)
  next
    case False
    let ?c = "c\<lparr>freelocked := 1, locked := 1\<rparr>"
    have "cache_core (?c\<lparr>freelist := freelist c\<rparr>) fs used"
      using core by (subst cache_core_cong [of _ c]) simp_all
    from free_loop_ok [OF this] obtain d fs' where d: "free_loop (freelist c) ?c = Some d"
      "cache_core (d\<lparr>freelist := []\<rparr>) fs' used" "set fs' = set fs \<union> frees (?c\<lparr>freelist := freelist c\<rparr>)"
      by blast
    have "cache_free c = Some (d\<lparr>freelist := [], locked := 0, freelocked := 0\<rparr>)"
      using False lk d(1) by (simp add: cache_free_def spin_lock_def spin_unlock_def Let_def)
    moreover have "cache_core (d\<lparr>freelist := [], locked := 0, freelocked := 0\<rparr>) fs' used"
      using d(2) by (subst cache_core_cong [of _ "d\<lparr>freelist := []\<rparr>"]) simp_all
    moreover have "frees (?c\<lparr>freelist := freelist c\<rparr>) = frees c" by (rule frees_cong) simp_all
    ultimately show ?thesis using d(3) by (auto simp: cache_inv_def)
  qed
qed

lemma cache_step_inv:
  assumes "cache_step opSize s s'" "\<exists>fs. cache_inv (fst s) fs (snd s)"
  shows "\<exists>fs. cache_inv (fst s') fs (snd s')"
  using assms
proof (induction rule: cache_step.induct)
  case (alloc c op c' used)
  then obtain fs where "cache_inv c fs used" by auto
  from cache_alloc_ok [OF this alloc(2)] alloc(1) show ?case by auto
next
  case (freeable a used c c')
  then obtain fs where inv: "cache_inv c fs used" by auto
  from freeable(2) obtain nd nd' where nd: "ops c a = Some nd" "op_unused [] nd = Some nd'"
    by (auto simp: cache_freeable_def split: bind_splits)
  from cache_freeable_ok [OF inv freeable(1) nd] freeable(2) show ?case by auto
next
  case (free c c' used)
  then obtain fs where "cache_inv c fs used" by auto
  from cache_free_ok [OF this] free(1) show ?case by auto
qed

lemma new_cache_inv: "cache_inv newOperatorCache [] {}"
  by (simp add: cache_inv_def cache_core_def newOperatorCache_def frees_def)

lemma cache_steps_inv:
  assumes "(cache_step opSize)\<^sup>*\<^sup>* (newOperatorCache, {}) s"
  shows "\<exists>fs. cache_inv (fst s) fs (snd s)"
  using assms
proof (induction rule: rtranclp_induct)
  case base
  then show ?case using new_cache_inv by auto
next
  case (step s s')
  then show ?case by (intro cache_step_inv [OF step(2)])
qed

text \<open>C7: the operator cache never hands an operator out twice. After any sequence of allocations,
  frees by the holders, and recycling by the poller, \<^verbatim>\<open>alloc\<close> returns, and what it returns is
  neither in use nor waiting to be recycled.\<close>

theorem cache_alloc_fresh:
  assumes "(cache_step opSize)\<^sup>*\<^sup>* (newOperatorCache, {}) (c, used)"
    "length (op_cache c) + alloc_count opSize < 2 ^ 31"
  shows "\<exists>op c'. cache_alloc opSize c = Some (op, c') \<and> op \<notin> used \<and> op \<notin> frees c"
proof -
  obtain fs where "cache_inv c fs used" using cache_steps_inv [OF assms(1)] by auto
  from cache_alloc_ok [OF this assms(2)] show ?thesis by blast
qed

lemma ex_cache_run:
  "\<exists>c. cache_alloc 4096 (newOperatorCache :: nat operatorCache) = Some (0, c) \<and> length (op_cache c) = 1"
proof -
  have "alloc_count 4096 = Suc 0" by (simp add: alloc_count_def)
  then show ?thesis
    by (simp add: cache_alloc_def newOperatorCache_def spin_lock_def spin_unlock_def put_op_def Let_def)
qed

theorem cache_alloc_fresh_witness:
  "\<exists>c op c'. (cache_step 4096)\<^sup>*\<^sup>* (newOperatorCache :: nat operatorCache, {}) (c, {0}) \<and>
     cache_alloc 4096 c = Some (op, c') \<and> op \<notin> {0} \<and> op \<notin> frees c"
proof -
  obtain c where c: "cache_alloc 4096 (newOperatorCache :: nat operatorCache) = Some (0, c)"
    "length (op_cache c) = 1" using ex_cache_run by blast
  have "cache_step 4096 (newOperatorCache, {}) (c, insert 0 {})"
    by (rule cache_step.alloc [OF c(1)]) (simp add: newOperatorCache_def alloc_count_def)
  then have run: "(cache_step 4096)\<^sup>*\<^sup>* (newOperatorCache, {}) (c, {0})" by (rule r_into_rtranclp)
  then show ?thesis
    using cache_alloc_fresh [OF run] c(2) by (auto simp: alloc_count_def)
qed

subsection \<open>The state word of an operator\<close>

text \<open>An operator guards its handlers the way a key guards a section: free while in use, held by
  the goroutine between \<^verbatim>\<open>do\<close> and \<^verbatim>\<open>done\<close>, stopped when unused.\<close>

definition op_val :: "'h FDOperator \<Rightarrow> i32" where
  "op_val op = (if op_state op = 1 then 0 else if op_state op = 2 then 1 else 2)"

interpretation op_guard: key_lock "\<lambda>_. True" op_val op_do op_done "op_unused []"
  by unfold_locales (auto simp: op_val_def op_do_def op_done_def op_unused.simps split: if_splits)



definition detach :: "(PollEvent \<Rightarrow> error option) \<Rightarrow> bool \<times> 'h FDOperator \<Rightarrow> bool \<times> 'h FDOperator" where
  "detach ctl s = (case op_Control ctl PollDetach (snd s) of
                     Some (e, called, op) \<Rightarrow> (called, op) | None \<Rightarrow> s)"

lemma detach_count:
  assumes "op_poll op \<noteq> None" "detached op = 0" "n < 2 ^ 31"
  shows "detached (snd ((detach ctl ^^ n) (b, op))) = of_nat n \<and>
         op_poll (snd ((detach ctl ^^ n) (b, op))) = op_poll op \<and>
         (n \<noteq> 0 \<longrightarrow> fst ((detach ctl ^^ n) (b, op)) = (n = 1))"
  using assms(3)
proof (induction n)
  case 0
  then show ?case using assms by simp
next
  case (Suc n)
  obtain b' o' where s: "(detach ctl ^^ n) (b, op) = (b', o')" by fastforce
  with Suc have o: "detached o' = of_nat n" "op_poll o' = op_poll op" by auto
  have "sint (of_nat (Suc n) :: i32) = int (Suc n)" using Suc.prems by (intro sint_of_nat_i32)
  then have "sint (detached o' + 1) = int n + 1" using o by (simp add: add.commute)
  then have "detach ctl (b', o') = (n = 0, o'\<lparr>detached := detached o' + 1\<rparr>)"
    using o assms(1) by (auto simp: detach_def op_Control_def Let_def)
  then have "(detach ctl ^^ Suc n) (b, op) = (n = 0, o'\<lparr>detached := detached o' + 1\<rparr>)" using s by simp
  then show ?case using o by (simp add: add.commute del: funpow.simps)
qed

text \<open>C11: an operator is detached once. Of \<open>n\<close> calls of \<^verbatim>\<open>Control(PollDetach)\<close> on a fresh operator
  exactly the first reaches the poller, for as long as the 32-bit counter does not wrap.\<close>

theorem detach_once:
  assumes "op_poll op \<noteq> None" "detached op = 0" "0 < n" "n < 2 ^ 31"
  shows "fst ((detach ctl ^^ n) (False, op)) \<longleftrightarrow> n = 1"
  using detach_count [OF assms(1,2,4), of ctl False] assms(3) by simp

theorem detach_once_witness:
  "fst ((detach (\<lambda>_. None) ^^ 1) (False, zero_FDOperator\<lparr>op_poll := Some 0\<rparr> :: nat FDOperator)) \<and>
   \<not> fst ((detach (\<lambda>_. None) ^^ 2) (False, zero_FDOperator\<lparr>op_poll := Some 0\<rparr> :: nat FDOperator))"
  using detach_once [of "zero_FDOperator\<lparr>op_poll := Some 0\<rparr> :: nat FDOperator" 1 "\<lambda>_. None"]
    detach_once [of "zero_FDOperator\<lparr>op_poll := Some 0\<rparr> :: nat FDOperator" 2 "\<lambda>_. None"]
  by (simp add: zero_FDOperator_def)

end
