(* ===== verification/PollManager.thy ===== *)
theory PollManager
  imports Errors
begin

section \<open>Load balancing and the poll manager (poll\_loadbalance.go, poll\_manager.go)\<close>

text \<open>
  The manager owns the pollers, grows or shrinks their number on the first \<^verbatim>\<open>Pick\<close> after
  \<^verbatim>\<open>SetNumLoops\<close>, and picks one for each new connection. A poller is a number; opening and closing
  one (\<^verbatim>\<open>openPoll\<close>, \<^verbatim>\<open>Poll.Close\<close>) may fail, which the parameters \<open>opn\<close> and \<open>cls\<close> decide, and
  \<open>rnd\<close> stands for \<^verbatim>\<open>fastrand.Intn\<close>. The state keeps a log of the pollers that were started and
  closed. \<open>None\<close> is a run-time panic.
\<close>

subsection \<open>poll\_loadbalance.go\<close>

datatype LoadBalance = RoundRobin | Random | OtherLoadBalance int

type_synonym poll = nat

record randomLB =
  r_polls :: "poll list"
  r_pollSize :: int

record roundRobinLB =
  polls :: "poll list"
  accepted :: "64 word"
  pollSize :: int

datatype loadbalance = LB_random randomLB | LB_roundRobin roundRobinLB

definition newRandomLB :: "poll list \<Rightarrow> loadbalance" where
  "newRandomLB ps = LB_random \<lparr>r_polls = ps, r_pollSize = int (length ps)\<rparr>"

definition newRoundRobinLB :: "poll list \<Rightarrow> loadbalance" where
  "newRoundRobinLB ps = LB_roundRobin \<lparr>polls = ps, accepted = 0, pollSize = int (length ps)\<rparr>"

fun newLoadbalance :: "LoadBalance \<Rightarrow> poll list \<Rightarrow> loadbalance" where
  "newLoadbalance RoundRobin ps = newRoundRobinLB ps"
| "newLoadbalance Random ps = newRandomLB ps"
| "newLoadbalance (OtherLoadBalance _) ps = newRoundRobinLB ps"

fun lb_kind :: "loadbalance \<Rightarrow> LoadBalance" where
  "lb_kind (LB_random b) = Random"
| "lb_kind (LB_roundRobin b) = RoundRobin"

text \<open>Go's remainder: the sign of the dividend; a zero divisor panics.\<close>

definition go_rem :: "int \<Rightarrow> int \<Rightarrow> int option" where
  "go_rem a b = (if b = 0 then None else Some (sgn a * (\<bar>a\<bar> mod \<bar>b\<bar>)))"

definition go_index :: "'a list \<Rightarrow> int \<Rightarrow> 'a option" where
  "go_index xs i = (if 0 \<le> i \<and> i < int (length xs) then Some (xs ! nat i) else None)"

definition randomLB_Pick :: "(int \<Rightarrow> int) \<Rightarrow> randomLB \<Rightarrow> poll option" where
  "randomLB_Pick rnd b =
     (if r_pollSize b \<le> 0 then None else go_index (r_polls b) (rnd (r_pollSize b)))"

definition roundRobinLB_Pick :: "roundRobinLB \<Rightarrow> (poll \<times> roundRobinLB) option" where
  "roundRobinLB_Pick b =
     do {
       let b = b\<lparr>accepted := accepted b + 1\<rparr>;
       idx \<leftarrow> go_rem (sint (accepted b)) (pollSize b);
       p \<leftarrow> go_index (polls b) idx;
       Some (p, b)
     }"

fun balance_Pick :: "(int \<Rightarrow> int) \<Rightarrow> loadbalance \<Rightarrow> (poll \<times> loadbalance) option" where
  "balance_Pick rnd (LB_random b) = map_option (\<lambda>p. (p, LB_random b)) (randomLB_Pick rnd b)"
| "balance_Pick rnd (LB_roundRobin b) = map_option (\<lambda>(p, b). (p, LB_roundRobin b)) (roundRobinLB_Pick b)"

fun Rebalance :: "poll list \<Rightarrow> loadbalance \<Rightarrow> loadbalance" where
  "Rebalance ps (LB_random b) = LB_random (b\<lparr>r_polls := ps, r_pollSize := int (length ps)\<rparr>)"
| "Rebalance ps (LB_roundRobin b) = LB_roundRobin (b\<lparr>polls := ps, pollSize := int (length ps)\<rparr>)"

subsection \<open>poll\_manager.go\<close>

definition managerUninitialized :: i32 where "managerUninitialized = 0"
definition managerInitializing :: i32 where "managerInitializing = 1"
definition managerInitialized :: i32 where "managerInitialized = 2"

record manager =
  numLoops :: i32
  m_status :: i32
  balance :: "loadbalance option"
  m_polls :: "poll list"
  next_poll :: nat
  waiting :: "poll list"
  closed_polls :: "poll list"

definition SetNumLoops :: "int \<Rightarrow> manager \<Rightarrow> error option \<times> manager" where
  "SetNumLoops n m =
     (if n < 1 then (Some (EFmt ''set invalid numLoops[%d]'' n), m)
      else (None, m\<lparr>numLoops := word_of_int n, m_status := managerUninitialized\<rparr>))"

definition SetLoadBalance :: "LoadBalance \<Rightarrow> manager \<Rightarrow> manager" where
  "SetLoadBalance lb m =
     (case balance m of
        Some b \<Rightarrow> if lb_kind b = lb then m else m\<lparr>balance := Some (newLoadbalance lb (m_polls m))\<rparr>
      | None \<Rightarrow> m\<lparr>balance := Some (newLoadbalance lb (m_polls m))\<rparr>)"

definition newManager :: "int \<Rightarrow> manager" where
  "newManager n =
     snd (SetNumLoops n (SetLoadBalance RoundRobin
       \<lparr>numLoops = 0, m_status = 0, balance = None, m_polls = [], next_poll = 0,
        waiting = [], closed_polls = []\<rparr>))"

text \<open>\<^verbatim>\<open>Close\<close> returns the error of the last poller it closes.\<close>

definition manager_Close :: "(poll \<Rightarrow> error option) \<Rightarrow> manager \<Rightarrow> error option \<times> manager" where
  "manager_Close cls m =
     (if m_polls m = [] then None else cls (last (m_polls m)),
      m\<lparr>closed_polls := closed_polls m @ m_polls m, numLoops := 0, balance := None, m_polls := []\<rparr>)"

text \<open>The growing loop of \<^verbatim>\<open>Run\<close>: \<open>k\<close> more pollers, each opened and started.\<close>

fun grow_polls ::
    "(nat \<Rightarrow> error option) \<Rightarrow> nat \<Rightarrow> poll list \<Rightarrow> manager \<Rightarrow> (error + poll list) \<times> manager" where
  "grow_polls opn 0 ps m = (Inr ps, m)"
| "grow_polls opn (Suc k) ps m =
     (case opn (next_poll m) of
        Some e \<Rightarrow> (Inl e, m\<lparr>next_poll := Suc (next_poll m)\<rparr>)
      | None \<Rightarrow> grow_polls opn k (ps @ [next_poll m])
                 (m\<lparr>next_poll := Suc (next_poll m), waiting := waiting m @ [next_poll m]\<rparr>))"

definition set_polls :: "poll list \<Rightarrow> manager \<Rightarrow> manager option" where
  "set_polls ps m =
     map_option (\<lambda>b. m\<lparr>m_polls := ps, balance := Some (Rebalance ps b)\<rparr>) (balance m)"

definition Run ::
    "(nat \<Rightarrow> error option) \<Rightarrow> (poll \<Rightarrow> error option) \<Rightarrow> manager \<Rightarrow> (error option \<times> manager) option" where
  "Run opn cls m =
     (let n = sint (numLoops m); k = length (m_polls m)
      in if n = int k then Some (None, m)
         else if n < 0 then None
         else if n < int k then
           do {
             let m = m\<lparr>closed_polls := closed_polls m @ drop (nat n) (m_polls m)\<rparr>;
             m \<leftarrow> set_polls (take (nat n) (m_polls m)) m;
             Some (None, m)
           }
         else
           (case grow_polls opn (nat n - k) (m_polls m) m of
              (Inl e, m) \<Rightarrow> Some (Some e, snd (manager_Close cls m))
            | (Inr ps, m) \<Rightarrow> do { m \<leftarrow> set_polls ps m; Some (None, m) }))"

definition Reset ::
    "(nat \<Rightarrow> error option) \<Rightarrow> (poll \<Rightarrow> error option) \<Rightarrow> manager \<Rightarrow> (error option \<times> manager) option" where
  "Reset opn cls m =
     Run opn cls (m\<lparr>closed_polls := closed_polls m @ m_polls m, m_polls := []\<rparr>)"

definition pick_balance :: "(int \<Rightarrow> int) \<Rightarrow> manager \<Rightarrow> (poll \<times> manager) option" where
  "pick_balance rnd m =
     do {
       b \<leftarrow> balance m;
       (p, b) \<leftarrow> balance_Pick rnd b;
       Some (p, m\<lparr>balance := Some b\<rparr>)
     }"

text \<open>
  \<^verbatim>\<open>Pick\<close>: while another goroutine initialises, it yields; the list is what happens then. During
  \<^verbatim>\<open>Run\<close> a concurrent \<^verbatim>\<open>SetNumLoops\<close> may reset the status, which \<open>during\<close> stands for.
\<close>

fun Pick ::
    "(nat \<Rightarrow> error option) \<Rightarrow> (poll \<Rightarrow> error option) \<Rightarrow> (int \<Rightarrow> int) \<Rightarrow> (manager \<Rightarrow> manager) \<Rightarrow>
     (manager \<Rightarrow> manager) list \<Rightarrow> manager \<Rightarrow> (poll \<times> manager) option" where
  "Pick opn cls rnd during env m =
     (if m_status m = managerInitialized then pick_balance rnd m
      else if m_status m \<noteq> managerUninitialized then
        (case env of [] \<Rightarrow> None | e # es \<Rightarrow> Pick opn cls rnd during es (e m))
      else do {
        (_, m) \<leftarrow> Run opn cls (m\<lparr>m_status := managerInitializing\<rparr>);
        let m = during m;
        let m = (if m_status m = managerInitializing then m\<lparr>m_status := managerInitialized\<rparr> else m);
        pick_balance rnd m
      })"

declare Pick.simps [simp del]

text \<open>\<open>k\<close> picks of a round-robin balancer, in order.\<close>

fun rr_picks :: "nat \<Rightarrow> roundRobinLB \<Rightarrow> (poll list \<times> roundRobinLB) option" where
  "rr_picks 0 b = Some ([], b)"
| "rr_picks (Suc k) b =
     do { (p, b) \<leftarrow> roundRobinLB_Pick b; (ps, b) \<leftarrow> rr_picks k b; Some (p # ps, b) }"

subsection \<open>Round robin\<close>

lemma go_rem_nonneg: "0 \<le> a \<Longrightarrow> 0 < b \<Longrightarrow> go_rem a b = Some (a mod b)"
  by (auto simp: go_rem_def sgn_if)

lemma sint_of_nat64: "i < 2 ^ 63 \<Longrightarrow> sint (of_nat i :: 64 word) = int i"
  by (simp add: signed_of_nat signed_take_bit_int_eq_self)

lemma sint_nonneg: "unat (x :: 64 word) < 2 ^ 63 \<Longrightarrow> sint x = int (unat x)"
  using sint_of_nat64 [of "unat x"] by simp

lemma rr_Pick_eq:
  assumes n: "pollSize b = int (length (polls b))" "polls b \<noteq> []" and a: "unat (accepted b) + 1 < 2 ^ 63"
  shows "roundRobinLB_Pick b =
           Some (polls b ! ((unat (accepted b) + 1) mod length (polls b)), b\<lparr>accepted := accepted b + 1\<rparr>)"
proof -
  have u: "unat (accepted b + 1) = unat (accepted b) + 1"
    using a by (simp add: unat_word_ariths)
  then have "sint (accepted b + 1) = int (unat (accepted b) + 1)" using a by (subst sint_nonneg) simp_all
  moreover have "go_rem (int (unat (accepted b) + 1)) (int (length (polls b))) =
      Some (int ((unat (accepted b) + 1) mod length (polls b)))"
    using n(2) by (subst go_rem_nonneg) (simp_all add: zmod_int)
  ultimately show ?thesis using n by (simp add: roundRobinLB_Pick_def go_index_def Let_def)
qed

lemma rr_picks_eq:
  assumes "pollSize b = int (length (polls b))" "polls b \<noteq> []" "unat (accepted b) + k < 2 ^ 63"
  shows "rr_picks k b =
           Some (map (\<lambda>i. polls b ! ((unat (accepted b) + 1 + i) mod length (polls b))) [0..<k],
                 b\<lparr>accepted := accepted b + of_nat k\<rparr>)"
  using assms
proof (induction k arbitrary: b)
  case (Suc k)
  have u: "unat (accepted b + 1) = unat (accepted b) + 1"
    using Suc.prems by (simp add: unat_word_ariths)
  have "rr_picks k (b\<lparr>accepted := accepted b + 1\<rparr>) =
      Some (map (\<lambda>i. polls b ! ((unat (accepted b) + 1 + 1 + i) mod length (polls b))) [0..<k],
            b\<lparr>accepted := accepted b + 1 + of_nat k\<rparr>)"
    using Suc.IH [of "b\<lparr>accepted := accepted b + 1\<rparr>"] Suc.prems u by simp
  moreover have "[0..<Suc k] = 0 # map Suc [0..<k]" by (simp add: map_Suc_upt upt_conv_Cons)
  ultimately show ?case
    using rr_Pick_eq [OF Suc.prems(1,2)] Suc.prems(3) by (simp add: ac_simps comp_def del: upt_Suc)
qed simp

text \<open>C12: round robin is fair. In any stretch of as many picks as there are pollers each poller is
  picked exactly once, in the cyclic order of the pollers, as long as the counter of accepted
  connections stays below \<open>2 ^ 63\<close>.\<close>

theorem round_robin_fair:
  assumes "pollSize b = int (length (polls b))" "polls b \<noteq> []"
    "unat (accepted b) + length (polls b) < 2 ^ 63"
  shows "rr_picks (length (polls b)) b =
           Some (rotate ((unat (accepted b) + 1) mod length (polls b)) (polls b),
                 b\<lparr>accepted := accepted b + of_nat (length (polls b))\<rparr>)"
proof -
  have "map (\<lambda>i. polls b ! ((unat (accepted b) + 1 + i) mod length (polls b))) [0..<length (polls b)] =
      rotate ((unat (accepted b) + 1) mod length (polls b)) (polls b)"
    by (rule nth_equalityI) (simp_all add: nth_rotate mod_add_left_eq)
  then show ?thesis using rr_picks_eq [OF assms] by simp
qed

theorem round_robin_fair_witness:
  "rr_picks 3 \<lparr>polls = [7, 8, 9], accepted = 4, pollSize = 3\<rparr> =
     Some ([9, 7, 8], \<lparr>polls = [7, 8, 9], accepted = 7, pollSize = 3\<rparr>)"
proof -
  have three: "Suc (Suc (Suc 0)) = 3" by simp
  have "rotate 2 [7, 8, 9] = [9, 7, 8 :: nat]" by (simp add: numeral_2_eq_2)
  then show ?thesis
    using round_robin_fair [of "\<lparr>polls = [7, 8, 9], accepted = 4, pollSize = 3\<rparr>"]
    by (simp add: three del: rr_picks.simps)
qed

subsection \<open>The manager\<close>

lemma grow_polls_ok:
  assumes "\<And>i. opn i = None"
  shows "grow_polls opn k ps m =
           (Inr (ps @ [next_poll m..<next_poll m + k]),
            m\<lparr>next_poll := next_poll m + k, waiting := waiting m @ [next_poll m..<next_poll m + k]\<rparr>)"
proof (induction k arbitrary: ps m)
  case (Suc k)
  have "[next_poll m..<next_poll m + Suc k] = next_poll m # [Suc (next_poll m)..<Suc (next_poll m) + k]"
    by (simp add: upt_conv_Cons)
  then show ?case using assms Suc.IH by simp
qed simp

text \<open>The pollers of a consistent manager: distinct, started, not closed.\<close>

definition manager_ok :: "manager \<Rightarrow> bool" where
  "manager_ok m \<longleftrightarrow> distinct (m_polls m) \<and> set (m_polls m) \<subseteq> set (waiting m) \<and>
     set (m_polls m) \<inter> set (closed_polls m) = {} \<and>
     (\<forall>p\<in>set (waiting m) \<union> set (closed_polls m). p < next_poll m)"

lemma Run_ok:
  assumes m: "manager_ok m" "balance m = Some b" and opn: "\<And>i. opn i = None"
    and n: "0 < sint (numLoops m)"
  shows "\<exists>m'. Run opn cls m = Some (None, m') \<and> manager_ok m' \<and>
           length (m_polls m') = nat (sint (numLoops m)) \<and>
           take (length (m_polls m)) (m_polls m') = take (nat (sint (numLoops m))) (m_polls m) \<and>
           closed_polls m' = closed_polls m @ drop (nat (sint (numLoops m))) (m_polls m) \<and>
           m_status m' = m_status m \<and> numLoops m' = numLoops m \<and>
           (balance m' = Some b \<and> m_polls m' = m_polls m \<or> balance m' = Some (Rebalance (m_polls m') b))"
proof -
  let ?n = "sint (numLoops m)" and ?k = "length (m_polls m)"
  consider "?n = int ?k" | "?n < int ?k" | "int ?k < ?n" by linarith
  then show ?thesis
  proof cases
    case 1
    then have "Run opn cls m = Some (None, m)" by (simp add: Run_def)
    then show ?thesis using m 1 by auto
  next
    case 2
    let ?m = "m\<lparr>closed_polls := closed_polls m @ drop (nat ?n) (m_polls m),
                m_polls := take (nat ?n) (m_polls m), balance := Some (Rebalance (take (nat ?n) (m_polls m)) b)\<rparr>"
    have "Run opn cls m = Some (None, ?m)" using 2 n m(2) by (simp add: Run_def set_polls_def Let_def)
    moreover have "set (take (nat ?n) (m_polls m)) \<inter> set (drop (nat ?n) (m_polls m)) = {}"
      using m(1) by (simp add: manager_ok_def set_take_disj_set_drop_if_distinct)
    then have "manager_ok ?m"
      using m(1) by (auto simp: manager_ok_def dest: in_set_takeD in_set_dropD)
    ultimately show ?thesis using 2 n m(2) by (intro exI [of _ ?m]) auto
  next
    case 3
    let ?j = "nat ?n - ?k" and ?ns = "[next_poll m..<next_poll m + (nat ?n - ?k)]"
    let ?m = "m\<lparr>next_poll := next_poll m + ?j, waiting := waiting m @ ?ns,
                m_polls := m_polls m @ ?ns, balance := Some (Rebalance (m_polls m @ ?ns) b)\<rparr>"
    have "Run opn cls m = Some (None, ?m)"
      using 3 n m(2) grow_polls_ok [of opn ?j "m_polls m" m] opn by (simp add: Run_def set_polls_def Let_def)
    moreover have "manager_ok ?m"
    proof -
      have old: "p < next_poll m" if "p \<in> set (m_polls m) \<union> set (waiting m) \<union> set (closed_polls m)" for p
        using m(1) that by (auto simp: manager_ok_def)
      have "set ?ns \<inter> (set (m_polls m) \<union> set (closed_polls m)) = {}" using old by force
      then show ?thesis using m(1) old unfolding manager_ok_def by (auto simp: trans_less_add1)
    qed
    ultimately show ?thesis using 3 n m(2) by (intro exI [of _ ?m]) auto
  qed
qed

lemma Rebalance_Pick:
  assumes b: "b = LB_roundRobin r" "unat (accepted r) + 1 < 2 ^ 63" "ps \<noteq> []"
  shows "\<exists>p b'. balance_Pick rnd (Rebalance ps b) = Some (p, b') \<and> p \<in> set ps"
proof -
  have "roundRobinLB_Pick (r\<lparr>polls := ps, pollSize := int (length ps)\<rparr>) =
      Some (ps ! ((unat (accepted r) + 1) mod length ps), r\<lparr>polls := ps, pollSize := int (length ps), accepted := accepted r + 1\<rparr>)"
    using rr_Pick_eq [of "r\<lparr>polls := ps, pollSize := int (length ps)\<rparr>"] b by simp
  then show ?thesis using b by simp
qed



lemma grow_polls_fail:
  assumes "opn (next_poll m + j) = Some e" "\<And>i. i < j \<Longrightarrow> opn (next_poll m + i) = None" "j < k"
  shows "\<exists>m'. grow_polls opn k ps m = (Inl e, m') \<and> m_status m' = m_status m \<and> balance m' = balance m"
  using assms
proof (induction k arbitrary: ps m j)
  case (Suc k)
  show ?case
  proof (cases j)
    case 0
    then show ?thesis using Suc.prems by simp
  next
    case (Suc i)
    let ?m = "m\<lparr>next_poll := Suc (next_poll m), waiting := waiting m @ [next_poll m]\<rparr>"
    have "\<exists>m'. grow_polls opn k (ps @ [next_poll m]) ?m = (Inl e, m') \<and> m_status m' = m_status ?m \<and>
        balance m' = balance ?m"
      using Suc.prems(1,3) Suc.prems(2) [of "Suc _"] \<open>j = Suc i\<close> by (intro Suc.IH [of ?m i]) auto
    then show ?thesis using Suc.prems(2) [of 0] \<open>j = Suc i\<close> by simp
  qed
qed simp

text \<open>C14: when \<^verbatim>\<open>openPoll\<close> fails while the manager grows, \<^verbatim>\<open>Pick\<close> panics: \<^verbatim>\<open>Run\<close> closes the manager,
  which drops the balancer, and \<^verbatim>\<open>Pick\<close> ignores the error and dereferences it.\<close>

theorem Pick_panics_when_open_fails:
  assumes "m_status m = managerUninitialized" "int (length (m_polls m)) + int j < sint (numLoops m)"
    "opn (next_poll m + j) = Some e" "\<And>i. i < j \<Longrightarrow> opn (next_poll m + i) = None"
  shows "Pick opn cls rnd id env m = None"
proof -
  let ?m = "m\<lparr>m_status := managerInitializing\<rparr>"
  have "j < nat (sint (numLoops ?m)) - length (m_polls ?m)" using assms(2) by simp
  from grow_polls_fail [of opn ?m j e, OF _ _ this] assms(3,4)
  obtain m' where g: "grow_polls opn (nat (sint (numLoops ?m)) - length (m_polls ?m)) (m_polls ?m) ?m = (Inl e, m')"
    by auto
  have "Run opn cls ?m = Some (Some e, snd (manager_Close cls m'))"
    using assms(2) g by (simp add: Run_def Let_def)
  then show ?thesis
    using assms(1) by (subst Pick.simps)
      (simp add: managerInitialized_def managerUninitialized_def pick_balance_def manager_Close_def Let_def)
qed

theorem Pick_panics_when_open_fails_witness:
  "Pick (\<lambda>_. Some IoEOF) (\<lambda>_. None) id id [] (newManager 1) = None"
  using Pick_panics_when_open_fails [of "newManager 1" 0 "\<lambda>_. Some IoEOF" IoEOF]
  by (simp add: newManager_def SetNumLoops_def SetLoadBalance_def managerUninitialized_def)

end
