(* ===== verification/ShardQueue.thy ===== *)
theory ShardQueue
  imports Errors PollManager "HOL-Library.Multiset"
begin

section \<open>ShardQueue (mux/shard\_queue.go)\<close>

text \<open>
  Many goroutines add getters of writers; one task at a time collects them and flushes the
  connection. The model is a step relation: a state of the queue and a multiset of goroutines,
  each at a point of \<^verbatim>\<open>Add\<close>, \<^verbatim>\<open>triggering\<close>, \<^verbatim>\<open>foreach\<close> or \<^verbatim>\<open>Close\<close>; a step is one atomic access
  or one section under a shard lock or the list lock. \<open>'g\<close> is the type of getters, \<open>get\<close> what a
  getter returns, \<open>app\<close> what \<^verbatim>\<open>Append\<close> answers, \<open>flush_ok\<close> whether \<^verbatim>\<open>Flush\<close> succeeds and \<open>args\<close> the
  argument lists that clients pass to \<^verbatim>\<open>Add\<close>; the theorems assume that none of them is empty,
  since an empty \<^verbatim>\<open>Add\<close> triggers a shard that stays empty and can overwrite a slot of the ring. The fields \<open>added\<close> and \<open>dealt\<close> are a log.
\<close>

subsection \<open>State\<close>

definition sq_active :: int where "sq_active = 0"
definition sq_closing :: int where "sq_closing = 1"
definition sq_closed :: int where "sq_closed = 2"

record ('g, 'b) ShardQueue =
  sq_idx :: i32
  sq_size :: i32
  getters :: "'g list list"
  trigger :: int
  sq_state :: int
  runNum :: int
  sq_w :: nat
  sq_r :: nat
  sq_list :: "nat list"
  sent :: "'b list"
  conn_closed :: bool
  added :: "'g list"
  dealt :: "'g list"

definition NewShardQueue :: "nat \<Rightarrow> ('g, 'b) ShardQueue" where
  "NewShardQueue sz =
     \<lparr>sq_idx = 0, sq_size = of_nat sz, getters = replicate sz [], trigger = 0,
      sq_state = sq_active, runNum = 0, sq_w = 0, sq_r = 0, sq_list = replicate sz 0,
      sent = [], conn_closed = False, added = [], dealt = []\<rparr>"

text \<open>The goroutines: adders, the task, and closers, by what they do next.\<close>

datatype 'g pc =
    AIdx "'g list"
  | AAppend nat "'g list"
  | APush nat
  | ACount
  | Foreach
  | WLoad
  | WTake int int
  | WSwap int int nat
  | WDeal int int "'g list"
  | WFlush
  | WClear
  | WCheck
  | WClose
  | CWait

subsection \<open>The pieces of code between two atomic accesses\<close>

text \<open>The shard of the next \<^verbatim>\<open>Add\<close>; \<open>None\<close> when the index is negative, which panics at the use.\<close>

definition next_shard :: "('g, 'b) ShardQueue \<Rightarrow> nat option" where
  "next_shard q =
     do {
       s \<leftarrow> go_rem (sint (sq_idx q + 1)) (sint (sq_size q));
       if 0 \<le> s \<and> s < int (length (getters q)) then Some (nat s) else None
     }"

definition append_getters :: "nat \<Rightarrow> 'g list \<Rightarrow> ('g, 'b) ShardQueue \<Rightarrow> bool \<times> ('g, 'b) ShardQueue" where
  "append_getters s gts q =
     (getters q ! s = [],
      q\<lparr>getters := (getters q)[s := getters q ! s @ gts], added := added q @ gts\<rparr>)"

definition push_shard :: "nat \<Rightarrow> ('g, 'b) ShardQueue \<Rightarrow> ('g, 'b) ShardQueue" where
  "push_shard s q =
     (let w = (sq_w q + 1) mod unat (sq_size q) in q\<lparr>sq_w := w, sq_list := (sq_list q)[w := s]\<rparr>)"

definition take_shard :: "('g, 'b) ShardQueue \<Rightarrow> nat \<times> ('g, 'b) ShardQueue" where
  "take_shard q = (let r = (sq_r q + 1) mod unat (sq_size q) in (sq_list q ! r, q\<lparr>sq_r := r\<rparr>))"

definition swap_getters :: "nat \<Rightarrow> ('g, 'b) ShardQueue \<Rightarrow> 'g list \<times> ('g, 'b) ShardQueue" where
  "swap_getters s q = (getters q ! s, q\<lparr>getters := (getters q)[s := []]\<rparr>)"

text \<open>\<^verbatim>\<open>deal\<close>: an error of \<^verbatim>\<open>Append\<close> closes the connection and drops the rest of the getters.\<close>

fun deal ::
    "('g \<Rightarrow> 'b option) \<Rightarrow> ('b \<Rightarrow> error option) \<Rightarrow> 'g list \<Rightarrow> ('g, 'b) ShardQueue \<Rightarrow> ('g, 'b) ShardQueue" where
  "deal get app [] q = q"
| "deal get app (g # gts) q =
     (let q = q\<lparr>dealt := dealt q @ [g]\<rparr>
      in case get g of
           None \<Rightarrow> deal get app gts q
         | Some buf \<Rightarrow>
             (case app buf of
                None \<Rightarrow> deal get app gts (q\<lparr>sent := sent q @ [buf]\<rparr>)
              | Some e \<Rightarrow> q\<lparr>conn_closed := True\<rparr>))"

subsection \<open>Steps\<close>

inductive sq_step ::
    "('g list \<Rightarrow> bool) \<Rightarrow> ('g \<Rightarrow> 'b option) \<Rightarrow> ('b \<Rightarrow> error option) \<Rightarrow> bool \<Rightarrow>
     ('g, 'b) ShardQueue \<times> 'g pc multiset \<Rightarrow> ('g, 'b) ShardQueue \<times> 'g pc multiset \<Rightarrow> bool"
  for args get app flush_ok where
  add: "sq_state q = sq_active \<Longrightarrow> args gts \<Longrightarrow> sq_step args get app flush_ok (q, M) (q, add_mset (AIdx gts) M)"
| idx: "next_shard q = Some s \<Longrightarrow>
    sq_step args get app flush_ok (q, add_mset (AIdx gts) M) (q\<lparr>sq_idx := sq_idx q + 1\<rparr>, add_mset (AAppend s gts) M)"
| append_first: "append_getters s gts q = (True, q') \<Longrightarrow>
    sq_step args get app flush_ok (q, add_mset (AAppend s gts) M) (q', add_mset (APush s) M)"
| append_more: "append_getters s gts q = (False, q') \<Longrightarrow>
    sq_step args get app flush_ok (q, add_mset (AAppend s gts) M) (q', M)"
| push: "sq_step args get app flush_ok (q, add_mset (APush s) M) (push_shard s q, add_mset ACount M)"
| count_first: "trigger q + 1 \<le> 1 \<Longrightarrow>
    sq_step args get app flush_ok (q, add_mset ACount M) (q\<lparr>trigger := trigger q + 1\<rparr>, add_mset Foreach M)"
| count_more: "trigger q + 1 > 1 \<Longrightarrow>
    sq_step args get app flush_ok (q, add_mset ACount M) (q\<lparr>trigger := trigger q + 1\<rparr>, M)"
| foreach_run: "runNum q + 1 \<le> 1 \<Longrightarrow>
    sq_step args get app flush_ok (q, add_mset Foreach M) (q\<lparr>runNum := runNum q + 1\<rparr>, add_mset WLoad M)"
| foreach_skip: "runNum q + 1 > 1 \<Longrightarrow>
    sq_step args get app flush_ok (q, add_mset Foreach M) (q\<lparr>runNum := runNum q + 1\<rparr>, M)"
| load: "sq_step args get app flush_ok (q, add_mset WLoad M)
           (q, add_mset (if trigger q > 0 then WTake (trigger q) 0 else WFlush) M)"
| take: "take_shard q = (s, q') \<Longrightarrow>
    sq_step args get app flush_ok (q, add_mset (WTake tn neg) M) (q', add_mset (WSwap tn neg s) M)"
| swap: "swap_getters s q = (gts, q') \<Longrightarrow>
    sq_step args get app flush_ok (q, add_mset (WSwap tn neg s) M) (q', add_mset (WDeal tn neg gts) M)"
| deal_more: "tn + (neg - 1) \<noteq> 0 \<Longrightarrow>
    sq_step args get app flush_ok (q, add_mset (WDeal tn neg gts) M)
      (deal get app gts q, add_mset (WTake tn (neg - 1)) M)"
| deal_last: "tn + (neg - 1) = 0 \<Longrightarrow> q' = deal get app gts q \<Longrightarrow> t = trigger q' + (neg - 1) \<Longrightarrow>
    sq_step args get app flush_ok (q, add_mset (WDeal tn neg gts) M)
      (q'\<lparr>trigger := t\<rparr>, add_mset (if t > 0 then WTake t 0 else WFlush) M)"
| flush: "sq_step args get app flush_ok (q, add_mset WFlush M)
            (q\<lparr>conn_closed := conn_closed q \<or> \<not> flush_ok\<rparr>, add_mset WClear M)"
| clear: "sq_step args get app flush_ok (q, add_mset WClear M) (q\<lparr>runNum := 0\<rparr>, add_mset WCheck M)"
| check: "sq_step args get app flush_ok (q, add_mset WCheck M)
            (q, add_mset (if trigger q > 0 then Foreach else WClose) M)"
| close_task: "sq_step args get app flush_ok (q, add_mset WClose M)
    (if sq_state q = sq_closing then q\<lparr>sq_state := sq_closed\<rparr> else q, M)"
| close: "sq_state q = sq_active \<Longrightarrow>
    sq_step args get app flush_ok (q, M) (q\<lparr>sq_state := sq_closing\<rparr>, add_mset CWait M)"
| close_wait: "sq_step args get app flush_ok (q, add_mset CWait M)
    (if sq_state q = sq_closed then (q, M)
     else if trigger q = 0 then (q\<lparr>sq_state := sq_closed\<rparr>, M)
     else (q, add_mset CWait M))"


subsection \<open>What each goroutine accounts for\<close>

text \<open>
  \<open>held\<close> are the shards a goroutine is about to push or to empty, \<open>bal\<close> its part of the
  difference between the ring and \<^verbatim>\<open>trigger\<close>, \<open>in_task\<close> says that it is the running task, and
  \<open>carried\<close> are the getters it has taken out of a shard.
\<close>

fun held :: "'g pc \<Rightarrow> nat multiset" where
  "held (APush s) = {#s#}"
| "held (WSwap tn neg s) = {#s#}"
| "held _ = {#}"

fun bal :: "'g pc \<Rightarrow> int" where
  "bal ACount = 1"
| "bal (WTake tn neg) = neg"
| "bal (WSwap tn neg s) = neg - 1"
| "bal (WDeal tn neg gts) = neg - 1"
| "bal _ = 0"

fun in_task :: "'g pc \<Rightarrow> bool" where
  "in_task WLoad = True"
| "in_task (WTake tn neg) = True"
| "in_task (WSwap tn neg s) = True"
| "in_task (WDeal tn neg gts) = True"
| "in_task WFlush = True"
| "in_task WClear = True"
| "in_task _ = False"

fun carried :: "'g pc \<Rightarrow> 'g multiset" where
  "carried (WDeal tn neg gts) = mset gts"
| "carried _ = {#}"

fun pc_ok :: "nat \<Rightarrow> int \<Rightarrow> 'g pc \<Rightarrow> bool" where
  "pc_ok n t (AIdx gts) = (gts \<noteq> [])"
| "pc_ok n t (AAppend s gts) = (s < n \<and> gts \<noteq> [])"
| "pc_ok n t (WTake tn neg) = (tn \<le> t \<and> 0 < tn + neg \<and> neg \<le> 0)"
| "pc_ok n t (WSwap tn neg s) = (tn \<le> t \<and> 0 < tn + neg \<and> neg \<le> 0)"
| "pc_ok n t (WDeal tn neg gts) = (tn \<le> t \<and> 0 < tn + neg \<and> neg \<le> 0)"
| "pc_ok n t _ = True"

text \<open>The ring holds \<open>pend\<close> between \<^verbatim>\<open>r\<close> and \<^verbatim>\<open>w\<close>.\<close>

definition ring :: "nat \<Rightarrow> nat list \<Rightarrow> nat \<Rightarrow> nat \<Rightarrow> nat list \<Rightarrow> bool" where
  "ring n l r w pend \<longleftrightarrow>
     0 < n \<and> length l = n \<and> length pend \<le> n \<and> w = (r + length pend) mod n \<and> r < n \<and>
     (\<forall>i < length pend. l ! ((r + 1 + i) mod n) = pend ! i)"

definition nonempty_shards :: "'g list list \<Rightarrow> nat set" where
  "nonempty_shards gss = {s. s < length gss \<and> gss ! s \<noteq> []}"

definition sq_core :: "nat list \<Rightarrow> ('g, 'b) ShardQueue \<Rightarrow> 'g pc multiset \<Rightarrow> bool" where
  "sq_core pend q M \<longleftrightarrow>
     ring (unat (sq_size q)) (sq_list q) (sq_r q) (sq_w q) pend \<and>
     length (getters q) = unat (sq_size q) \<and>
     mset pend + \<Sum>\<^sub># (image_mset held M) = mset_set (nonempty_shards (getters q)) \<and>
     int (length pend) = trigger q + \<Sum>\<^sub># (image_mset bal M)"

definition sq_sched :: "('g, 'b) ShardQueue \<Rightarrow> 'g pc multiset \<Rightarrow> bool" where
  "sq_sched q M \<longleftrightarrow>
     0 \<le> trigger q \<and> 0 \<le> runNum q \<and>
     size (filter_mset in_task M) = (if runNum q = 0 then 0 else 1) \<and>
     (\<forall>p \<in># M. pc_ok (unat (sq_size q)) (trigger q) p) \<and>
     (trigger q > 0 \<longrightarrow> runNum q \<noteq> 0 \<or> Foreach \<in># M \<or> WCheck \<in># M)"

definition sq_log :: "('g, 'b) ShardQueue \<Rightarrow> 'g pc multiset \<Rightarrow> bool" where
  "sq_log q M \<longleftrightarrow>
     mset (dealt q) + mset (concat (getters q)) + \<Sum>\<^sub># (image_mset carried M) \<subseteq># mset (added q) \<and>
     (\<not> conn_closed q \<longrightarrow>
       mset (dealt q) + mset (concat (getters q)) + \<Sum>\<^sub># (image_mset carried M) = mset (added q))"

definition sq_inv :: "('g, 'b) ShardQueue \<times> 'g pc multiset \<Rightarrow> bool" where
  "sq_inv c \<longleftrightarrow>
     (\<exists>pend. sq_core pend (fst c) (snd c)) \<and> sq_sched (fst c) (snd c) \<and> sq_log (fst c) (snd c)"

subsection \<open>The ring\<close>

lemma ring_push:
  assumes "ring n l r w pend" "length pend < n"
  shows "ring n (l[(w + 1) mod n := s]) r ((w + 1) mod n) (pend @ [s])"
proof -
  have w: "(w + 1) mod n = (r + 1 + length pend) mod n"
    using assms(1) by (simp add: ring_def mod_simps ac_simps)
  have ne: "(r + 1 + i) mod n \<noteq> (r + 1 + length pend) mod n" if i: "i < length pend" for i
  proof
    assume "(r + 1 + i) mod n = (r + 1 + length pend) mod n"
    then have "n dvd (r + 1 + length pend) - (r + 1 + i)"
      using i by (metis (no_types) mod_eq_dvd_iff_nat add_le_cancel_left less_imp_le)
    then have "n dvd length pend - i" by simp
    with i assms(2) show False
      by (metis dvd_imp_le less_imp_diff_less not_less zero_less_diff)
  qed
  from assms show ?thesis
    unfolding ring_def w
    by (auto simp: nth_append nth_list_update less_Suc_eq ne mod_simps ac_simps
             dest!: ne)
qed

lemma ring_take:
  assumes "ring n l r w pend" "pend \<noteq> []"
  shows "ring n l ((r + 1) mod n) w (tl pend)" and "l ! ((r + 1) mod n) = hd pend"
proof -
  obtain s p where p: "pend = s # p" using assms(2) by (cases pend) auto
  have e: "\<And>i. ((r + 1) mod n + 1 + i) mod n = (r + 1 + Suc i) mod n"
    by (metis (no_types) add.assoc mod_add_left_eq add_Suc_right add.commute plus_1_eq_Suc)
  have a: "\<forall>i < Suc (length p). l ! ((r + 1 + i) mod n) = (s # p) ! i"
    using assms(1) p by (simp add: ring_def)
  show "l ! ((r + 1) mod n) = hd pend" using a [rule_format, of 0] p by simp
  have "l ! (((r + 1) mod n + 1 + i) mod n) = p ! i" if "i < length p" for i
    unfolding e using a [rule_format, of "Suc i"] that by simp
  moreover have "w = ((r + 1) mod n + length p) mod n"
    using assms(1) p by (simp add: ring_def mod_simps)
  ultimately show "ring n l ((r + 1) mod n) w (tl pend)"
    using assms(1) p by (simp add: ring_def)
qed

subsection \<open>Every step keeps the accounts\<close>

lemma nonempty_shards_fin [simp]: "finite (nonempty_shards gss)"
  by (simp add: nonempty_shards_def)

lemma nonempty_shards_first:
  "s < length gss \<Longrightarrow> gss ! s = [] \<Longrightarrow> gts \<noteq> [] \<Longrightarrow>
   mset_set (nonempty_shards (gss[s := gts])) = add_mset s (mset_set (nonempty_shards gss))"
proof -
  assume a: "s < length gss" "gss ! s = []" "gts \<noteq> []"
  then have "nonempty_shards (gss[s := gts]) = insert s (nonempty_shards gss)"
    by (auto simp: nonempty_shards_def nth_list_update)
  then show ?thesis using a by (simp add: nonempty_shards_def)
qed

lemma nonempty_shards_more:
  "s < length gss \<Longrightarrow> gss ! s \<noteq> [] \<Longrightarrow> nonempty_shards (gss[s := gss ! s @ gts]) = nonempty_shards gss"
  by (auto simp: nonempty_shards_def nth_list_update)

lemma nonempty_shards_swap:
  "s < length gss \<Longrightarrow> gss ! s \<noteq> [] \<Longrightarrow>
   mset_set (nonempty_shards gss) = add_mset s (mset_set (nonempty_shards (gss[s := []])))"
  using nonempty_shards_first [of s "gss[s := []]" "gss ! s"] by simp

lemma concat_update:
  "s < length gss \<Longrightarrow> mset (concat (gss[s := x])) + mset (gss ! s) = mset (concat gss) + mset x"
  by (induction gss arbitrary: s) (auto simp: nth_Cons' list_update.simps split: nat.splits)

lemma deal_unfold:
  "getters (deal get app gts q) = getters q" "trigger (deal get app gts q) = trigger q"
  "runNum (deal get app gts q) = runNum q" "sq_size (deal get app gts q) = sq_size q"
  "sq_list (deal get app gts q) = sq_list q" "sq_r (deal get app gts q) = sq_r q"
  "sq_w (deal get app gts q) = sq_w q" "added (deal get app gts q) = added q"
  "sq_state (deal get app gts q) = sq_state q" "sq_idx (deal get app gts q) = sq_idx q"
  by (induction gts arbitrary: q) (simp_all add: Let_def split: option.splits)

lemma deal_sub: "mset (dealt (deal get app gts q)) \<subseteq># mset (dealt q) + mset gts"
proof (induction gts arbitrary: q)
  case (Cons g gts)
  show ?case
    using Cons.IH [of "q\<lparr>dealt := dealt q @ [g]\<rparr>"] Cons.IH [of "q\<lparr>dealt := dealt q @ [g], sent := sent q @ [b]\<rparr>" for b]
    by (auto simp: Let_def split: option.splits)
qed simp

lemma deal_all:
  "\<not> conn_closed (deal get app gts q) \<Longrightarrow> mset (dealt (deal get app gts q)) = mset (dealt q) + mset gts"
proof (induction gts arbitrary: q)
  case (Cons g gts)
  show ?case
    using Cons.IH [of "q\<lparr>dealt := dealt q @ [g]\<rparr>"] Cons.IH [of "q\<lparr>dealt := dealt q @ [g], sent := sent q @ [b]\<rparr>" for b]
      Cons.prems
    by (auto simp: Let_def split: option.splits)
qed simp

lemma deal_closed: "conn_closed q \<Longrightarrow> conn_closed (deal get app gts q)"
  by (induction gts arbitrary: q) (simp_all add: Let_def split: option.splits)


lemma alone:
  assumes "sq_sched q (add_mset p M)" "in_task p"
  shows "filter_mset in_task M = {#}" and "runNum q \<noteq> 0"
  using assms by (auto simp: sq_sched_def split: if_splits)

lemma filter_mset_none: "filter_mset P M = {#} \<Longrightarrow> p \<in># M \<Longrightarrow> \<not> P p"
  by (induction M) (auto split: if_splits)

lemma bal_rest:
  assumes "filter_mset in_task M = {#}"
  shows "0 \<le> \<Sum>\<^sub># (image_mset bal M)"
proof -
  have nn: "0 \<le> bal p" if "\<not> in_task p" for p :: "'a pc" using that by (cases p) auto
  show ?thesis using assms by (induction M) (auto simp: nn split: if_splits)
qed

lemma sq_core_step:
  assumes st: "sq_step args get app fl c c'" and inv: "sq_core pend (fst c) (snd c)" "sq_sched (fst c) (snd c)"
  shows "\<exists>pend'. sq_core pend' (fst c') (snd c')"
  using st inv
proof cases
  case (append_first s gts q q' M)
  have s: "s < length (getters q)" "gts \<noteq> []" "getters q ! s = []"
    using inv append_first by (auto simp: sq_core_def sq_sched_def append_getters_def)
  have q': "q' = q\<lparr>getters := (getters q)[s := gts], added := added q @ gts\<rparr>"
    using append_first s by (simp add: append_getters_def)
  show ?thesis using inv append_first s
    by (intro exI [of _ pend]) (simp add: sq_core_def q' nonempty_shards_first)
next
  case (append_more s gts q q' M)
  then have s: "s < length (getters q)" "getters q ! s \<noteq> []"
    using inv by (auto simp: sq_core_def sq_sched_def append_getters_def)
  have q': "q' = q\<lparr>getters := (getters q)[s := getters q ! s @ gts], added := added q @ gts\<rparr>"
    using append_more by (simp add: append_getters_def)
  show ?thesis using inv append_more s
    by (intro exI [of _ pend]) (simp add: sq_core_def q' nonempty_shards_more)
next
  case (push q s M)
  have "size (mset pend + {#s#} + \<Sum>\<^sub># (image_mset held M)) \<le> length (getters q)"
    using inv push by (auto simp: sq_core_def nonempty_shards_def intro: order_trans [OF card_mono [of "{..<length (getters q)}"]])
  then have "length pend < unat (sq_size q)" using inv push by (auto simp: sq_core_def)
  with inv push show ?thesis
    by (intro exI [of _ "pend @ [s]"]) (simp add: sq_core_def push_shard_def Let_def ring_push del: One_nat_def)
next
  case (take q s q' tn neg M)
  have "0 < tn + neg" "tn \<le> trigger q" using inv take by (auto simp: sq_sched_def)
  moreover have "0 \<le> \<Sum>\<^sub># (image_mset bal M)"
    using alone(1) [of q "WTake tn neg" M] inv take by (intro bal_rest) simp
  ultimately have "pend \<noteq> []" using inv take by (auto simp: sq_core_def)
  moreover obtain x p where "pend = x # p" using calculation by (cases pend) auto
  ultimately show ?thesis using inv take ring_take [of "unat (sq_size q)" "sq_list q" "sq_r q" "sq_w q" pend]
    by (intro exI [of _ p]) (auto simp: sq_core_def take_shard_def Let_def)
next
  case (swap s q gts q' tn neg M)
  have e: "mset_set (nonempty_shards (getters q)) = add_mset s (mset pend + \<Sum>\<^sub># (image_mset held M))"
    using inv(1) swap by (simp add: sq_core_def)
  have "s \<in># mset_set (nonempty_shards (getters q))" unfolding e by simp
  then have s: "s < length (getters q)" "getters q ! s \<noteq> []" by (auto simp: nonempty_shards_def)
  with inv swap show ?thesis
    by (intro exI [of _ pend]) (auto simp: sq_core_def swap_getters_def nonempty_shards_swap [OF s])
qed (auto simp: sq_core_def deal_unfold intro!: exI [of _ pend])


lemma pc_ok_mono: "pc_ok n t p \<Longrightarrow> t \<le> t' \<Longrightarrow> pc_ok n t' p"
  by (cases p) auto

lemma pc_ok_rest: "pc_ok n t p \<Longrightarrow> \<not> in_task p \<Longrightarrow> pc_ok n t' p"
  by (cases p) auto

lemma next_shard_bound: "next_shard q = Some s \<Longrightarrow> s < length (getters q)"
  by (auto simp: next_shard_def Option.bind_eq_Some_conv split: if_splits)

lemma sq_sched_step:
  assumes args: "\<not> args []" and st: "sq_step args get app fl c c'" and inv: "sq_core pend (fst c) (snd c)" "sq_sched (fst c) (snd c)"
  shows "sq_sched (fst c') (snd c')"
  using st inv
proof cases
  case (add q gts M)
  then have "gts \<noteq> []" using args by auto
  with add inv show ?thesis by (auto simp: sq_sched_def)
next
  case (idx q s gts M)
  then show ?thesis using inv by (auto simp: sq_sched_def sq_core_def dest!: next_shard_bound)
next
  case (count_first q M)
  then show ?thesis using inv by (auto simp: sq_sched_def elim!: pc_ok_mono)
next
  case (count_more q M)
  then show ?thesis using inv by (auto simp: sq_sched_def elim!: pc_ok_mono)
next
  case (deal_last tn neg q' gts q t M)
  have M: "filter_mset in_task M = {#}" "runNum q \<noteq> 0"
    using alone [of q "WDeal tn neg gts" M] inv deal_last by auto
  have "pc_ok (unat (sq_size q)) t p" if "p \<in># M" for p
    using that M inv deal_last by (auto simp: sq_sched_def intro: pc_ok_rest dest: filter_mset_none)
  then show ?thesis using inv deal_last M
    by (auto simp: sq_sched_def deal_unfold)
qed (auto simp: sq_sched_def sq_core_def append_getters_def push_shard_def take_shard_def swap_getters_def
       deal_unfold Let_def split: if_splits)

lemma concat_append:
  "s < length gss \<Longrightarrow> mset (concat (gss[s := gss ! s @ gts])) = mset (concat gss) + mset gts"
  using concat_update [of s gss "gss ! s @ gts"] by simp

lemma concat_swap:
  "s < length gss \<Longrightarrow> mset (concat gss) = mset (concat (gss[s := []])) + mset (gss ! s)"
  using concat_update [of s gss "[]"] by simp

lemma sq_log_append:
  "sq_log q (add_mset (AAppend s gts) M) \<Longrightarrow> append_getters s gts q = (b, q') \<Longrightarrow> s < length (getters q) \<Longrightarrow>
   sq_log q' M"
proof -
  assume a: "sq_log q (add_mset (AAppend s gts) M)" "append_getters s gts q = (b, q')" "s < length (getters q)"
  let ?R = "mset (dealt q) + mset (concat (getters q)) + \<Sum>\<^sub># (image_mset carried M)"
  have "mset (dealt q') + mset (concat (getters q')) + \<Sum>\<^sub># (image_mset carried M) = ?R + mset gts"
    using a concat_append [of s "getters q" gts] by (auto simp: append_getters_def simp del: mset_concat)
  moreover have "mset (added q') = mset (added q) + mset gts" "conn_closed q' = conn_closed q"
    using a by (auto simp: append_getters_def)
  moreover have "?R \<subseteq># mset (added q)" "\<not> conn_closed q \<longrightarrow> ?R = mset (added q)"
    using a(1) by (auto simp: sq_log_def simp del: mset_concat)
  ultimately show ?thesis by (simp add: sq_log_def add.assoc del: mset_concat)
qed

lemma sq_log_deal:
  assumes "sq_log q (add_mset (WDeal tn neg gts) M)"
  shows "sq_log (deal get app gts q) M"
proof -
  let ?R = "mset (concat (getters q)) + \<Sum>\<^sub># (image_mset carried M)"
  have l: "mset (dealt q) + mset gts + ?R \<subseteq># mset (added q)"
    "\<not> conn_closed q \<Longrightarrow> mset (dealt q) + mset gts + ?R = mset (added q)"
    using assms by (simp_all add: sq_log_def ac_simps)
  have "mset (dealt (deal get app gts q)) + ?R \<subseteq># mset (added q)"
    by (rule subset_mset.order_trans [OF _ l(1)]) (simp add: deal_sub)
  then show ?thesis
    using l(2) deal_closed [of q get app gts] deal_all [of get app gts q]
    by (auto simp: sq_log_def deal_unfold add.assoc simp del: mset_concat)
qed

lemma sq_log_cong:
  "sq_log q M \<Longrightarrow> dealt q' = dealt q \<Longrightarrow> getters q' = getters q \<Longrightarrow> added q' = added q \<Longrightarrow>
   conn_closed q \<longrightarrow> conn_closed q' \<Longrightarrow> \<Sum>\<^sub># (image_mset carried M') = \<Sum>\<^sub># (image_mset carried M) \<Longrightarrow> sq_log q' M'"
  by (auto simp: sq_log_def)

lemma sq_log_step:
  assumes st: "sq_step args get app fl c c'" and inv: "sq_core pend (fst c) (snd c)" "sq_sched (fst c) (snd c)"
    "sq_log (fst c) (snd c)"
  shows "sq_log (fst c') (snd c')"
  using st inv
proof cases
  case (append_first s gts q q' M)
  then have "sq_log q' M" using inv by (auto simp: sq_core_def sq_sched_def intro: sq_log_append)
  then show ?thesis unfolding append_first by (auto intro: sq_log_cong)
next
  case (append_more s gts q q' M)
  then show ?thesis using inv by (auto simp: sq_core_def sq_sched_def intro: sq_log_append)
next
  case (swap s q gts q' tn neg M)
  have e: "mset_set (nonempty_shards (getters q)) = add_mset s (mset pend + \<Sum>\<^sub># (image_mset held M))"
    using inv(1) swap by (simp add: sq_core_def)
  have "s \<in># mset_set (nonempty_shards (getters q))" unfolding e by simp
  then have "s < length (getters q)" by (auto simp: nonempty_shards_def)
  then show ?thesis using inv(3) swap
    by (auto simp: sq_log_def swap_getters_def concat_swap [of s "getters q"] ac_simps simp del: mset_concat)
next
  case (deal_more tn neg q gts M)
  then have "sq_log (deal get app gts q) M" using inv by (auto intro: sq_log_deal)
  then show ?thesis unfolding deal_more by (auto intro: sq_log_cong)
next
  case (deal_last tn neg q' gts q t M)
  then have "sq_log q' M" using inv by (auto intro: sq_log_deal)
  then show ?thesis unfolding deal_last by (auto intro: sq_log_cong)
qed (auto simp: push_shard_def take_shard_def Let_def elim!: sq_log_cong split: if_splits)

lemma sq_inv_step: "sq_step args get app fl c c' \<Longrightarrow> \<not> args [] \<Longrightarrow> sq_inv c \<Longrightarrow> sq_inv c'"
  unfolding sq_inv_def by (meson sq_core_step sq_sched_step sq_log_step)

lemma sq_inv_start: "0 < n \<Longrightarrow> n < 2 ^ 31 \<Longrightarrow> sq_inv (NewShardQueue n, {#})"
proof -
  assume n: "0 < n" "n < 2 ^ 31"
  then have "unat (of_nat n :: i32) = n" by (simp add: unat_of_nat)
  moreover have "nonempty_shards (replicate n ([] :: 'a list)) = {}" by (auto simp: nonempty_shards_def)
  moreover have "concat (replicate n []) = ([] :: 'x list)" for n by (induction n) auto
  ultimately show ?thesis using n
    by (auto simp: sq_inv_def sq_core_def sq_sched_def sq_log_def NewShardQueue_def ring_def simp del: mset_concat
             intro!: exI [of _ "[]"])
qed

lemma sq_inv_reach:
  "(sq_step args get app fl)\<^sup>*\<^sup>* (NewShardQueue n, {#}) c \<Longrightarrow> 0 < n \<Longrightarrow> n < 2 ^ 31 \<Longrightarrow> \<not> args [] \<Longrightarrow> sq_inv c"
  by (induction rule: rtranclp_induct) (auto intro: sq_inv_start sq_inv_step)


subsection \<open>Correctness\<close>

lemma sq_quiet:
  assumes "sq_core pend q {#}" "sq_sched q {#}"
  shows "trigger q = 0" and "\<forall>gts \<in> set (getters q). gts = []"
proof -
  show t: "trigger q = 0" using assms(2) by (auto simp: sq_sched_def split: if_splits)
  then have "mset_set (nonempty_shards (getters q)) = {#}" using assms(1) by (auto simp: sq_core_def)
  then have "nonempty_shards (getters q) = {}" by (simp add: mset_set_empty_iff)
  then show "\<forall>gts \<in> set (getters q). gts = []" by (auto simp: nonempty_shards_def in_set_conv_nth)
qed

text \<open>A run on two shards: one getter is added, a task takes it and sends what it returns.\<close>

definition ex_sq :: "i32 \<Rightarrow> nat list \<Rightarrow> int \<Rightarrow> int \<Rightarrow> nat \<Rightarrow> nat \<Rightarrow> nat list \<Rightarrow> nat list \<Rightarrow> nat list \<Rightarrow>
    (nat, nat) ShardQueue" where
  "ex_sq i g t rn w r l ad dl =
     \<lparr>sq_idx = i, sq_size = 2, getters = [[], g], trigger = t, sq_state = 0, runNum = rn,
      sq_w = w, sq_r = r, sq_list = l, sent = dl, conn_closed = False, added = ad, dealt = dl\<rparr>"

abbreviation ex_step where "ex_step \<equiv> sq_step (\<lambda>gts. gts = [7]) Some (\<lambda>_. None) True"

lemmas ex_sq_simps =
  ex_sq_def NewShardQueue_def sq_active_def next_shard_def go_rem_def append_getters_def
  push_shard_def take_shard_def swap_getters_def Let_def

lemma ex_run_add: "ex_step\<^sup>*\<^sup>* (NewShardQueue 2, {#}) (ex_sq 1 [7] 1 1 1 0 [0, 1] [7] [], {#WTake 1 0#})"
proof -
  note [trans] = rtranclp.rtrancl_into_rtrancl
  have "ex_step\<^sup>*\<^sup>* (NewShardQueue 2, {#}) (NewShardQueue 2, {#})" by simp
  also have "ex_step (NewShardQueue 2, {#}) (ex_sq 0 [] 0 0 0 0 [0, 0] [] [], {#AIdx [7]#})"
    using sq_step.add [of "NewShardQueue 2" "\<lambda>gts. gts = [7]" "[7]" Some "\<lambda>_. None" True "{#}"]
    by (simp add: ex_sq_simps numeral_2_eq_2)
  also have "ex_step \<dots> (ex_sq 1 [] 0 0 0 0 [0, 0] [] [], {#AAppend 1 [7]#})"
    using sq_step.idx [of "ex_sq 0 [] 0 0 0 0 [0, 0] [] []" 1 "\<lambda>gts. gts = [7]" Some "\<lambda>_. None" True "[7]" "{#}"]
    by (simp add: ex_sq_simps)
  also have "ex_step \<dots> (ex_sq 1 [7] 0 0 0 0 [0, 0] [7] [], {#APush 1#})"
    using sq_step.append_first [of 1 "[7]" "ex_sq 1 [] 0 0 0 0 [0, 0] [] []"
        "ex_sq 1 [7] 0 0 0 0 [0, 0] [7] []" "\<lambda>gts. gts = [7]" Some "\<lambda>_. None" True "{#}"]
    by (simp add: ex_sq_simps)
  also have "ex_step \<dots> (ex_sq 1 [7] 0 0 1 0 [0, 1] [7] [], {#ACount#})"
    using sq_step.push [of "\<lambda>gts. gts = [7]" Some "\<lambda>_. None" True "ex_sq 1 [7] 0 0 0 0 [0, 0] [7] []" 1 "{#}"]
    by (simp add: ex_sq_simps)
  also have "ex_step \<dots> (ex_sq 1 [7] 1 0 1 0 [0, 1] [7] [], {#Foreach#})"
    using sq_step.count_first [of "ex_sq 1 [7] 0 0 1 0 [0, 1] [7] []" "\<lambda>gts. gts = [7]" Some "\<lambda>_. None" True "{#}"]
    by (simp add: ex_sq_simps)
  also have "ex_step \<dots> (ex_sq 1 [7] 1 1 1 0 [0, 1] [7] [], {#WLoad#})"
    using sq_step.foreach_run [of "ex_sq 1 [7] 1 0 1 0 [0, 1] [7] []" "\<lambda>gts. gts = [7]" Some "\<lambda>_. None" True "{#}"]
    by (simp add: ex_sq_simps)
  also have "ex_step \<dots> (ex_sq 1 [7] 1 1 1 0 [0, 1] [7] [], {#WTake 1 0#})"
    using sq_step.load [of "\<lambda>gts. gts = [7]" Some "\<lambda>_. None" True "ex_sq 1 [7] 1 1 1 0 [0, 1] [7] []" "{#}"]
    by (simp add: ex_sq_simps)
  finally show ?thesis by simp
qed

lemma ex_run_task: "ex_step\<^sup>*\<^sup>* (ex_sq 1 [7] 1 1 1 0 [0, 1] [7] [], {#WTake 1 0#}) (ex_sq 1 [] 0 0 1 1 [0, 1] [7] [7], {#})"
proof -
  note [trans] = rtranclp.rtrancl_into_rtrancl
  have "ex_step\<^sup>*\<^sup>* (ex_sq 1 [7] 1 1 1 0 [0, 1] [7] [], {#WTake 1 0#}) (ex_sq 1 [7] 1 1 1 0 [0, 1] [7] [], {#WTake 1 0#})"
    by simp
  also have "ex_step (ex_sq 1 [7] 1 1 1 0 [0, 1] [7] [], {#WTake 1 0#}) (ex_sq 1 [7] 1 1 1 1 [0, 1] [7] [], {#WSwap 1 0 1#})"
    by (rule sq_step.take) (simp add: ex_sq_simps)
  also have "ex_step \<dots> (ex_sq 1 [] 1 1 1 1 [0, 1] [7] [], {#WDeal 1 0 [7]#})"
    by (rule sq_step.swap) (simp add: ex_sq_simps)
  also have "ex_step \<dots> (ex_sq 1 [] 0 1 1 1 [0, 1] [7] [7], {#WFlush#})"
    using sq_step.deal_last [of 1 0 _ Some "\<lambda>_. None" "[7]" "ex_sq 1 [] 1 1 1 1 [0, 1] [7] []" 0 "\<lambda>gts. gts = [7]" True "{#}"]
    by (simp add: ex_sq_simps)
  also have "ex_step \<dots> (ex_sq 1 [] 0 1 1 1 [0, 1] [7] [7], {#WClear#})"
    using sq_step.flush [of "\<lambda>gts. gts = [7]" Some "\<lambda>_. None" True "ex_sq 1 [] 0 1 1 1 [0, 1] [7] [7]" "{#}"]
    by (simp add: ex_sq_simps)
  also have "ex_step \<dots> (ex_sq 1 [] 0 0 1 1 [0, 1] [7] [7], {#WCheck#})"
    using sq_step.clear [of "\<lambda>gts. gts = [7]" Some "\<lambda>_. None" True "ex_sq 1 [] 0 1 1 1 [0, 1] [7] [7]" "{#}"]
    by (simp add: ex_sq_simps)
  also have "ex_step \<dots> (ex_sq 1 [] 0 0 1 1 [0, 1] [7] [7], {#WClose#})"
    using sq_step.check [of "\<lambda>gts. gts = [7]" Some "\<lambda>_. None" True "ex_sq 1 [] 0 0 1 1 [0, 1] [7] [7]" "{#}"]
    by (simp add: ex_sq_simps)
  also have "ex_step \<dots> (ex_sq 1 [] 0 0 1 1 [0, 1] [7] [7], {#})"
    using sq_step.close_task [of "\<lambda>gts. gts = [7]" Some "\<lambda>_. None" True "ex_sq 1 [] 0 0 1 1 [0, 1] [7] [7]" "{#}"]
    by (simp add: ex_sq_simps sq_closing_def)
  finally show ?thesis by simp
qed





lemma go_rem_pos: "0 < n \<Longrightarrow> go_rem i n = Some (if 0 \<le> i then i mod n else - (- i mod n))"
  by (auto simp: go_rem_def sgn_if)

text \<open>
  C15: the index \<^verbatim>\<open>Add\<close> computes. While the 32-bit counter is not negative it is the counter modulo
  the number of shards. Once the counter has wrapped around, it is negative, and \<^verbatim>\<open>Add\<close> panics
  with an index out of range, for every counter that the number of shards does not divide.
\<close>
theorem Add_index:
  assumes "sint (sq_size q) = int (length (getters q))" "getters q \<noteq> []"
  shows "next_shard q =
    (if 0 \<le> sint (sq_idx q + 1) then Some (nat (sint (sq_idx q + 1)) mod length (getters q))
     else if int (length (getters q)) dvd sint (sq_idx q + 1) then Some 0 else None)"
proof -
  let ?i = "sint (sq_idx q + 1)" and ?n = "int (length (getters q))"
  have n: "0 < ?n" using assms(2) by simp
  show ?thesis
  proof (cases "0 \<le> ?i")
    case True
    moreover have "nat (?i mod ?n) = nat ?i mod length (getters q)" using True by (simp add: nat_mod_distrib)
    ultimately show ?thesis using n assms by (simp add: next_shard_def go_rem_pos)
  next
    case False
    moreover have "- ?i mod ?n = 0 \<longleftrightarrow> ?n dvd ?i" by (simp add: mod_eq_0_iff_dvd)
    moreover have "- ?i mod ?n = 0 \<or> \<not> - ?i mod ?n \<le> 0" using pos_mod_sign [OF n, of "- ?i"] by linarith
    ultimately show ?thesis using n assms
      by (cases "- ?i mod ?n = 0") (simp_all add: next_shard_def go_rem_pos)
  qed
qed

definition ex_wrapped :: "(nat, nat) ShardQueue" where
  "ex_wrapped = (NewShardQueue 2)\<lparr>sq_idx := 0x80000000\<rparr>"

theorem Add_index_witness: "next_shard ex_wrapped = None"
  using Add_index [of ex_wrapped] by (simp add: ex_wrapped_def NewShardQueue_def eval_nat_numeral)

end
