(* ===== verification/Poll.thy ===== *)
theory Poll
  imports Operator SysIO
begin

section \<open>The epoll poller (poll\_default.go, poll\_default\_linux.go, poll\_default\_linux\_norace.go)\<close>

text \<open>
  The poller waits for events and calls the handlers of the operators they belong to. The state
  it works on has the memory and the nodes of the buffers, the kernel (\<open>kern\<close>), the poller itself
  with the operators of its cache (\<open>pl\<close>), and the lists of \<^verbatim>\<open>OnHup\<close> handlers that were given to a
  goroutine of their own (\<open>hup_tasks\<close>); the owners of operators extend it. No node is in an input
  and in an output buffer, and which free node or array an allocation takes is not observable, so
  the model keeps the store of the input buffers (\<open>in_heap\<close>) and that of the output buffers
  (\<open>out_heap\<close>) apart.

  The kernel is a record of system calls. Handlers are values of a type \<open>'h\<close>, and what calling one
  does is a record of functions: the poller is the same for every owner of an operator.
\<close>

subsection \<open>The interface of the kernel and of the handlers\<close>

datatype opptr = WopPtr | OpPtr addr

record epollevent =
  ev_events :: "32 word"
  ev_data :: "opptr option"

record 'k sys =
  sys_readv :: "'k sys_read"
  sys_writev :: "'k sys_send"
  sys_sendmsg :: "'k sys_send"
  sys_fstat :: "int \<Rightarrow> 32 word option"
  sys_read8 :: "int \<Rightarrow> 'k \<Rightarrow> byte list option \<times> 'k"
  sys_write8 :: "int \<Rightarrow> byte list \<Rightarrow> 'k \<Rightarrow> error option \<times> 'k"
  sys_recvmsg :: "int \<Rightarrow> 'k \<Rightarrow> error option \<times> 'k"
  sys_close :: "int \<Rightarrow> 'k \<Rightarrow> error option \<times> 'k"
  sys_eventfd :: "'k \<Rightarrow> (errno + int) \<times> 'k"
  EpollCreate :: "int \<Rightarrow> 'k \<Rightarrow> (error + int) \<times> 'k"
  EpollCtl :: "int \<Rightarrow> int \<Rightarrow> int \<Rightarrow> epollevent \<Rightarrow> 'k \<Rightarrow> error option \<times> 'k"
  EpollWait :: "int \<Rightarrow> int \<Rightarrow> int \<Rightarrow> 'k \<Rightarrow> (errno + epollevent list) \<times> 'k"

record ('h, 's) handlers =
  call :: "'h \<Rightarrow> 's \<Rightarrow> 's option"
  inputs :: "'h \<Rightarrow> nat \<Rightarrow> 's \<Rightarrow> (slice list \<times> 's) option"
  ack :: "'h \<Rightarrow> int \<Rightarrow> 's \<Rightarrow> 's option"
  outputs :: "'h \<Rightarrow> nat \<Rightarrow> 's \<Rightarrow> ((slice list \<times> bool) \<times> 's) option"

subsection \<open>State\<close>

text \<open>A barrier is a pair of arrays that the poller lends to the handlers; their lengths matter.\<close>

record barrier =
  bar_bs :: nat
  bar_ivs :: nat

record 'h defaultPoll =
  poll_id :: nat
  poll_fd :: int
  wop :: "'h FDOperator"
  poll_buf :: "byte list"
  trigger :: "32 word"
  opcache :: "'h operatorCache"
  args_size :: int
  args_caps :: nat
  args_events :: int
  barriers :: "barrier list"
  hups :: "'h option list"

record ('h, 'k) pstate =
  in_heap :: world
  out_heap :: world
  kern :: 'k
  pl :: "'h defaultPoll"
  hup_tasks :: "'h option list list"

text \<open>\<^verbatim>\<open>barrierPool\<close>: what was put back, or a new barrier.\<close>

definition barrierPool_Get :: "barrier list \<Rightarrow> barrier \<times> barrier list" where
  "barrierPool_Get bs = (case bs of [] \<Rightarrow> (\<lparr>bar_bs = barriercap, bar_ivs = barriercap\<rparr>, []) | b # bs \<Rightarrow> (b, bs))"

definition poll_reset :: "int \<Rightarrow> nat \<Rightarrow> 'h defaultPoll \<Rightarrow> 'h defaultPoll" where
  "poll_reset sz caps p =
     p\<lparr>args_size := sz, args_caps := caps, args_events := sz,
       barriers := replicate (nat sz) \<lparr>bar_bs = caps, bar_ivs = caps\<rparr>\<rparr>"

text \<open>\<^verbatim>\<open>getOperator\<close> reads the pointer that \<^verbatim>\<open>setOperator\<close> stored in the event.\<close>

definition getOperator :: "epollevent \<Rightarrow> opptr option" where
  "getOperator ev = ev_data ev"

definition setOperator :: "opptr \<Rightarrow> epollevent \<Rightarrow> epollevent" where
  "setOperator ptr ev = ev\<lparr>ev_data := Some ptr\<rparr>"

definition delOperator :: "opptr \<Rightarrow> 'h defaultPoll \<Rightarrow> 'h defaultPoll" where
  "delOperator ptr p = p"

definition op_at :: "'h defaultPoll \<Rightarrow> opptr \<Rightarrow> 'h FDOperator option" where
  "op_at p ptr = (case ptr of WopPtr \<Rightarrow> Some (wop p) | OpPtr a \<Rightarrow> ops (opcache p) a)"

definition set_op :: "opptr \<Rightarrow> 'h FDOperator \<Rightarrow> 'h defaultPoll \<Rightarrow> 'h defaultPoll" where
  "set_op ptr op p = (case ptr of WopPtr \<Rightarrow> p\<lparr>wop := op\<rparr>
     | OpPtr a \<Rightarrow> p\<lparr>opcache := put_op a op (opcache p)\<rparr>)"

definition upd_op :: "opptr \<Rightarrow> 'h FDOperator \<Rightarrow> ('h, 'k, 'z) pstate_scheme \<Rightarrow> ('h, 'k, 'z) pstate_scheme" where
  "upd_op ptr op s = s\<lparr>pl := set_op ptr op (pl s)\<rparr>"

subsection \<open>Registration\<close>

definition EPOLLIN :: "32 word" where "EPOLLIN = 0x1"
definition EPOLLOUT :: "32 word" where "EPOLLOUT = 0x4"
definition EPOLLERR :: "32 word" where "EPOLLERR = 0x8"
definition EPOLLHUP :: "32 word" where "EPOLLHUP = 0x10"
definition EPOLLRDHUP :: "32 word" where "EPOLLRDHUP = 0x2000"
definition EPOLLET :: "32 word" where "EPOLLET = 0x80000000"
definition EPOLL_CTL_ADD :: int where "EPOLL_CTL_ADD = 1"
definition EPOLL_CTL_DEL :: int where "EPOLL_CTL_DEL = 2"
definition EPOLL_CTL_MOD :: int where "EPOLL_CTL_MOD = 3"

definition control_op :: "PollEvent \<Rightarrow> int \<times> 32 word" where
  "control_op event =
     (case event of
        PollReadable \<Rightarrow> (EPOLL_CTL_ADD, or (or EPOLLIN EPOLLRDHUP) EPOLLERR)
      | PollWritable \<Rightarrow> (EPOLL_CTL_ADD, or (or (or EPOLLET EPOLLOUT) EPOLLRDHUP) EPOLLERR)
      | PollDetach \<Rightarrow> (EPOLL_CTL_DEL, or (or (or EPOLLIN EPOLLOUT) EPOLLRDHUP) EPOLLERR)
      | PollR2RW \<Rightarrow> (EPOLL_CTL_MOD, or (or (or EPOLLIN EPOLLOUT) EPOLLRDHUP) EPOLLERR)
      | PollRW2R \<Rightarrow> (EPOLL_CTL_MOD, or (or EPOLLIN EPOLLRDHUP) EPOLLERR))"

text \<open>
  \<^verbatim>\<open>Control\<close>. \<open>env\<close> is what the other goroutines do to the operator while \<^verbatim>\<open>inuse\<close> spins.
\<close>

definition poll_Control ::
    "'k sys \<Rightarrow> ('h FDOperator \<Rightarrow> 'h FDOperator) list \<Rightarrow> opptr \<Rightarrow> PollEvent \<Rightarrow> ('h, 'k, 'z) pstate_scheme \<Rightarrow>
     (error option \<times> ('h, 'k, 'z) pstate_scheme) option" where
  "poll_Control sys env ptr event s =
     do {
       op \<leftarrow> op_at (pl s) ptr;
       let fd = FD op;
       op' \<leftarrow> (if event = PollReadable \<or> event = PollWritable then op_inuse env op else Some op);
       let s = upd_op ptr op' s;
       let s = (if event = PollDetach then s\<lparr>pl := delOperator ptr (pl s)\<rparr> else s);
       let (ctl, mask) = control_op event;
       let evt = setOperator ptr \<lparr>ev_events = mask, ev_data = None\<rparr>;
       let (err, k) = EpollCtl sys (poll_fd (pl s)) ctl fd evt (kern s);
       Some (err, s\<lparr>kern := k\<rparr>)
     }"

text \<open>\<^verbatim>\<open>operator.Control(event)\<close>, with the guard against a second detach, on the poller of the operator.\<close>

definition operator_Control ::
    "'k sys \<Rightarrow> ('h FDOperator \<Rightarrow> 'h FDOperator) list \<Rightarrow> opptr \<Rightarrow> PollEvent \<Rightarrow> ('h, 'k, 'z) pstate_scheme \<Rightarrow>
     (error option \<times> ('h, 'k, 'z) pstate_scheme) option" where
  "operator_Control sys env ptr event s =
     do {
       op \<leftarrow> op_at (pl s) ptr;
       (err, called, op) \<leftarrow> op_Control (\<lambda>_. None) event op;
       let s = upd_op ptr op s;
       if called then poll_Control sys env ptr event s else Some (err, s)
     }"

definition poll_Alloc :: "nat \<Rightarrow> 'h defaultPoll \<Rightarrow> (addr \<times> 'h defaultPoll) option" where
  "poll_Alloc opSize p =
     do {
       (a, c) \<leftarrow> cache_alloc opSize (opcache p);
       op \<leftarrow> ops c a;
       Some (a, p\<lparr>opcache := put_op a (op\<lparr>op_poll := Some (poll_id p)\<rparr>) c\<rparr>)
     }"

definition poll_Free ::
    "('h FDOperator \<Rightarrow> 'h FDOperator) list \<Rightarrow> addr \<Rightarrow> 'h defaultPoll \<Rightarrow> 'h defaultPoll option" where
  "poll_Free env a p = map_option (\<lambda>c. p\<lparr>opcache := c\<rparr>) (cache_freeable env a (opcache p))"

subsection \<open>Hang-ups\<close>

definition poll_detach ::
    "'k sys \<Rightarrow> opptr \<Rightarrow> ('h, 'k, 'z) pstate_scheme \<Rightarrow> ('h, 'k, 'z) pstate_scheme option" where
  "poll_detach sys ptr s = map_option snd (operator_Control sys [] ptr PollDetach s)"

definition op_release ::
    "opptr \<Rightarrow> ('h, 'k, 'z) pstate_scheme \<Rightarrow> ('h, 'k, 'z) pstate_scheme option" where
  "op_release ptr s = do { op \<leftarrow> op_at (pl s) ptr; Some (upd_op ptr (op_done op) s) }"

definition appendHup ::
    "'k sys \<Rightarrow> opptr \<Rightarrow> ('h, 'k, 'z) pstate_scheme \<Rightarrow> ('h, 'k, 'z) pstate_scheme option" where
  "appendHup sys ptr s =
     do {
       op \<leftarrow> op_at (pl s) ptr;
       let s = s\<lparr>pl := (pl s)\<lparr>hups := hups (pl s) @ [OnHup op]\<rparr>\<rparr>;
       s \<leftarrow> poll_detach sys ptr s;
       op_release ptr s
     }"

definition onhups :: "('h, 'k, 'z) pstate_scheme \<Rightarrow> ('h, 'k, 'z) pstate_scheme" where
  "onhups s =
     (if hups (pl s) = [] then s
      else s\<lparr>pl := (pl s)\<lparr>hups := []\<rparr>, hup_tasks := hup_tasks s @ [hups (pl s)]\<rparr>)"

text \<open>What the goroutine that \<^verbatim>\<open>onhups\<close> starts does with its list.\<close>

fun run_hups :: "('h, 's) handlers \<Rightarrow> 'h option list \<Rightarrow> 's \<Rightarrow> 's option" where
  "run_hups H [] s = Some s"
| "run_hups H (None # hs) s = run_hups H hs s"
| "run_hups H (Some h # hs) s = do { s \<leftarrow> call H h s; run_hups H hs s }"


subsection \<open>Reading what is left\<close>

definition barrier_at :: "nat \<Rightarrow> 'h defaultPoll \<Rightarrow> barrier option" where
  "barrier_at i p = (if i < length (barriers p) then Some (barriers p ! i) else None)"

text \<open>
  One \<^verbatim>\<open>ioread\<close> into the windows \<open>bs\<close> and the acknowledgement. The result is \<open>n\<close>, the error, and the
  vector as the system call leaves it.
\<close>

definition read_ack ::
    "'k sys \<Rightarrow> ('h, ('h, 'k, 'z) pstate_scheme) handlers \<Rightarrow> opptr \<Rightarrow> nat \<Rightarrow> slice list \<Rightarrow>
     ('h, 'k, 'z) pstate_scheme \<Rightarrow>
     ((int \<times> error option) \<times> slice list \<times> ('h, 'k, 'z) pstate_scheme) option" where
  "read_ack sys H ptr ivs bs s =
     do {
       op \<leftarrow> op_at (pl s) ptr;
       ((n, err), bs, k, m) \<leftarrow> ioread (sys_readv sys) (FD op) bs ivs (kern s) (in_heap s);
       h \<leftarrow> InputAck op;
       s \<leftarrow> ack H h n (s\<lparr>kern := k, in_heap := m\<rparr>);
       Some ((n, err), bs, s)
     }"

text \<open>
  The loop of \<^verbatim>\<open>readall\<close>. It is at the label \<^verbatim>\<open>TryRead\<close> when \<open>at_try\<close> holds a vector, and at the head of
  the loop when it does not.
\<close>

partial_function (option) readall_loop ::
    "'k sys \<Rightarrow> ('h, ('h, 'k, 'z) pstate_scheme) handlers \<Rightarrow> opptr \<Rightarrow> barrier \<Rightarrow> slice list option \<Rightarrow> int \<Rightarrow>
     ('h, 'k, 'z) pstate_scheme \<Rightarrow> ((int \<times> error option) \<times> ('h, 'k, 'z) pstate_scheme) option" where
  "readall_loop sys H ptr br at_try tot s =
     (case at_try of
        None \<Rightarrow>
          do {
            op \<leftarrow> op_at (pl s) ptr;
            h \<leftarrow> Inputs op;
            (bs, s) \<leftarrow> inputs H h (bar_bs br) s;
            if bs = [] then Some ((tot, None), s)
            else readall_loop sys H ptr br (Some bs) tot s
          }
      | Some bs \<Rightarrow>
          do {
            ((n, err), bs, s) \<leftarrow> read_ack sys H ptr (bar_ivs br) bs s;
            if err \<noteq> None then Some ((tot + n, err), s)
            else if n = 0 then readall_loop sys H ptr br (Some bs) (tot + n) s
            else readall_loop sys H ptr br None (tot + n) s
          })"

definition readall ::
    "'k sys \<Rightarrow> ('h, ('h, 'k, 'z) pstate_scheme) handlers \<Rightarrow> opptr \<Rightarrow> barrier \<Rightarrow>
     ('h, 'k, 'z) pstate_scheme \<Rightarrow> ((int \<times> error option) \<times> ('h, 'k, 'z) pstate_scheme) option" where
  "readall sys H ptr br s = readall_loop sys H ptr br None 0 s"

subsection \<open>One event\<close>

text \<open>
  The body of the loop of \<^verbatim>\<open>handler\<close>, phase by phase. A phase returns \<open>Inl ()\<close> when the source goes
  on with the next event, the operator released, and \<open>Inr\<close> when it goes on with the next phase.
\<close>

definition read_phase ::
    "'k sys \<Rightarrow> ('h, ('h, 'k, 'z) pstate_scheme) handlers \<Rightarrow> nat \<Rightarrow> opptr \<Rightarrow> ('h, 'k, 'z) pstate_scheme \<Rightarrow>
     ((unit + int) \<times> ('h, 'k, 'z) pstate_scheme) option" where
  "read_phase sys H i ptr s =
     do {
       op \<leftarrow> op_at (pl s) ptr;
       case OnRead op of
         Some h \<Rightarrow> do { s \<leftarrow> call H h s; Some (Inr 0, s) }
       | None \<Rightarrow>
           (case Inputs op of
              Some h \<Rightarrow>
                do {
                  br \<leftarrow> barrier_at i (pl s);
                  (bs, s) \<leftarrow> inputs H h (bar_bs br) s;
                  if bs = [] then Some (Inr 0, s)
                  else do {
                    ((n, err), _, s) \<leftarrow> read_ack sys H ptr (bar_ivs br) bs s;
                    if err \<noteq> None then do { s \<leftarrow> appendHup sys ptr s; Some (Inl (), s) }
                    else Some (Inr n, s)
                  }
                }
            | None \<Rightarrow> Some (Inr 0, s))
     }"

definition hup_phase ::
    "'k sys \<Rightarrow> ('h, ('h, 'k, 'z) pstate_scheme) handlers \<Rightarrow> nat \<Rightarrow> opptr \<Rightarrow> bool \<Rightarrow> int \<Rightarrow>
     ('h, 'k, 'z) pstate_scheme \<Rightarrow> ((unit + unit) \<times> ('h, 'k, 'z) pstate_scheme) option" where
  "hup_phase sys H i ptr triggerRead totalRead s =
     do {
       op \<leftarrow> op_at (pl s) ptr;
       (totalRead, s) \<leftarrow>
         (if triggerRead \<and> Inputs op \<noteq> None
          then do {
            br \<leftarrow> barrier_at i (pl s);
            ((leftRead, err), s) \<leftarrow> readall sys H ptr br s;
            Some (totalRead + leftRead, s)
          }
          else Some (totalRead, s));
       if totalRead = 0 then do { s \<leftarrow> appendHup sys ptr s; Some (Inl (), s) }
       else Some (Inr (), s)
     }"

definition error_phase ::
    "'k sys \<Rightarrow> opptr \<Rightarrow> ('h, 'k, 'z) pstate_scheme \<Rightarrow> ('h, 'k, 'z) pstate_scheme option" where
  "error_phase sys ptr s =
     do {
       op \<leftarrow> op_at (pl s) ptr;
       let (err, k) = sys_recvmsg sys (FD op) (kern s);
       let s = s\<lparr>kern := k\<rparr>;
       if err \<noteq> Some (Errno EAGAIN) then appendHup sys ptr s else op_release ptr s
     }"

definition write_phase ::
    "'k sys \<Rightarrow> ('h, ('h, 'k, 'z) pstate_scheme) handlers \<Rightarrow> nat \<Rightarrow> opptr \<Rightarrow> ('h, 'k, 'z) pstate_scheme \<Rightarrow>
     ((unit + unit) \<times> ('h, 'k, 'z) pstate_scheme) option" where
  "write_phase sys H i ptr s =
     do {
       op \<leftarrow> op_at (pl s) ptr;
       case OnWrite op of
         Some h \<Rightarrow> do { s \<leftarrow> call H h s; Some (Inr (), s) }
       | None \<Rightarrow>
           (case Outputs op of
              Some h \<Rightarrow>
                do {
                  br \<leftarrow> barrier_at i (pl s);
                  ((bs, supportZeroCopy), s) \<leftarrow> outputs H h (bar_bs br) s;
                  if bs = [] then Some (Inr (), s)
                  else do {
                    op \<leftarrow> op_at (pl s) ptr;
                    ((n, err), _, k) \<leftarrow>
                      iosend (sys_fstat sys) (sys_writev sys) (sys_sendmsg sys) (FD op) bs (bar_ivs br)
                        (False \<and> supportZeroCopy) (kern s) (out_heap s);
                    h \<leftarrow> OutputAck op;
                    s \<leftarrow> ack H h n (s\<lparr>kern := k\<rparr>);
                    if err \<noteq> None then do { s \<leftarrow> appendHup sys ptr s; Some (Inl (), s) }
                    else Some (Inr (), s)
                  }
                }
            | None \<Rightarrow> Some (Inr (), s))
     }"

text \<open>The event of the poller's own descriptor: it says whether the poller was closed.\<close>

definition wake_phase ::
    "'k sys \<Rightarrow> opptr \<Rightarrow> ('h, 'k, 'z) pstate_scheme \<Rightarrow> (bool \<times> ('h, 'k, 'z) pstate_scheme) option" where
  "wake_phase sys ptr s =
     do {
       let p = pl s;
       let (got, k) = sys_read8 sys (FD (wop p)) (kern s);
       let p = (case got of None \<Rightarrow> p | Some bs \<Rightarrow> p\<lparr>poll_buf := bs @ drop (length bs) (poll_buf p)\<rparr>);
       let p = p\<lparr>trigger := 0\<rparr>;
       b \<leftarrow> (case poll_buf p of [] \<Rightarrow> None | b # _ \<Rightarrow> Some b);
       let s = s\<lparr>pl := p, kern := k\<rparr>;
       if b > 0
       then do {
         let (_, k) = sys_close sys (FD (wop p)) (kern s);
         let (_, k) = sys_close sys (poll_fd p) k;
         s \<leftarrow> op_release ptr (s\<lparr>kern := k\<rparr>);
         Some (True, s)
       }
       else do { s \<leftarrow> op_release ptr s; Some (False, s) }
     }"

definition handle_ready ::
    "'k sys \<Rightarrow> ('h, ('h, 'k, 'z) pstate_scheme) handlers \<Rightarrow> nat \<Rightarrow> opptr \<Rightarrow> 32 word \<Rightarrow>
     ('h, 'k, 'z) pstate_scheme \<Rightarrow> ('h, 'k, 'z) pstate_scheme option" where
  "handle_ready sys H i ptr evt s =
     do {
       let triggerRead = (and evt EPOLLIN \<noteq> 0);
       let triggerWrite = (and evt EPOLLOUT \<noteq> 0);
       let triggerHup = (and evt (or EPOLLHUP EPOLLRDHUP) \<noteq> 0);
       let triggerError = (and evt EPOLLERR \<noteq> 0);
       (r, s) \<leftarrow> (if triggerRead then read_phase sys H i ptr s else Some (Inr 0, s));
       case r of
         Inl _ \<Rightarrow> Some s
       | Inr totalRead \<Rightarrow>
           do {
             (r, s) \<leftarrow> (if triggerHup then hup_phase sys H i ptr triggerRead totalRead s else Some (Inr (), s));
             case r of
               Inl _ \<Rightarrow> Some s
             | Inr _ \<Rightarrow>
                 if triggerError then error_phase sys ptr s
                 else do {
                   (r, s) \<leftarrow> (if triggerWrite then write_phase sys H i ptr s else Some (Inr (), s));
                   case r of Inl _ \<Rightarrow> Some s | Inr _ \<Rightarrow> op_release ptr s
                 }
           }
     }"

definition handle_event ::
    "'k sys \<Rightarrow> ('h, ('h, 'k, 'z) pstate_scheme) handlers \<Rightarrow> nat \<Rightarrow> epollevent \<Rightarrow>
     ('h, 'k, 'z) pstate_scheme \<Rightarrow> (bool \<times> ('h, 'k, 'z) pstate_scheme) option" where
  "handle_event sys H i ev s =
     (case getOperator ev of
        None \<Rightarrow> Some (False, s)
      | Some ptr \<Rightarrow>
          do {
            op \<leftarrow> op_at (pl s) ptr;
            let (ok, op) = op_do op;
            if \<not> ok then Some (False, s)
            else do {
              let s = upd_op ptr op s;
              if FD op = FD (wop (pl s)) then wake_phase sys ptr s
              else do { s \<leftarrow> handle_ready sys H i ptr (ev_events ev) s; Some (False, s) }
            }
          })"

subsection \<open>The loop\<close>

fun handle_events ::
    "'k sys \<Rightarrow> ('h, ('h, 'k, 'z) pstate_scheme) handlers \<Rightarrow> nat \<Rightarrow> epollevent list \<Rightarrow>
     ('h, 'k, 'z) pstate_scheme \<Rightarrow> (bool \<times> ('h, 'k, 'z) pstate_scheme) option" where
  "handle_events sys H i [] s = Some (False, s)"
| "handle_events sys H i (ev # evs) s =
     do {
       (closed, s) \<leftarrow> handle_event sys H i ev s;
       if closed then Some (True, s) else handle_events sys H (Suc i) evs s
     }"

definition poll_handler ::
    "'k sys \<Rightarrow> ('h, ('h, 'k, 'z) pstate_scheme) handlers \<Rightarrow> epollevent list \<Rightarrow>
     ('h, 'k, 'z) pstate_scheme \<Rightarrow> (bool \<times> ('h, 'k, 'z) pstate_scheme) option" where
  "poll_handler sys H evs s =
     do {
       (closed, s) \<leftarrow> handle_events sys H 0 evs s;
       if closed then Some (True, s) else Some (False, onhups s)
     }"

text \<open>
  One round of \<^verbatim>\<open>Wait\<close>. The locals are \<open>msec\<close> and \<open>n\<close>; \<open>Inl\<close> is the error it returns, \<open>Inr\<close> the locals of
  the next round.
\<close>

definition wait_round ::
    "'k sys \<Rightarrow> ('h, ('h, 'k, 'z) pstate_scheme) handlers \<Rightarrow> int \<times> int \<Rightarrow> ('h, 'k, 'z) pstate_scheme \<Rightarrow>
     ((error option + int \<times> int) \<times> ('h, 'k, 'z) pstate_scheme) option" where
  "wait_round sys H l s =
     do {
       let (msec, n) = l;
       let s = (if n = args_size (pl s) \<and> args_size (pl s) < 128 * 1024
                then s\<lparr>pl := poll_reset (args_size (pl s) * 2) barriercap (pl s)\<rparr> else s);
       let (r, k) = EpollWait sys (poll_fd (pl s)) (args_events (pl s)) msec (kern s);
       let s = s\<lparr>kern := k\<rparr>;
       case r of
         Inl e \<Rightarrow> if e \<noteq> EINTR then Some (Inl (Some (Errno e)), s) else Some (Inr (-1, -1), s)
       | Inr evs \<Rightarrow>
           if evs = [] then Some (Inr (-1, 0), s)
           else do {
             (closed, s) \<leftarrow> poll_handler sys H evs s;
             if closed then Some (Inl None, s)
             else do {
               c \<leftarrow> cache_free (opcache (pl s));
               Some (Inr (0, int (length evs)), s\<lparr>pl := (pl s)\<lparr>opcache := c\<rparr>\<rparr>)
             }
           }
     }"

partial_function (option) wait_loop ::
    "'k sys \<Rightarrow> ('h, ('h, 'k, 'z) pstate_scheme) handlers \<Rightarrow> int \<times> int \<Rightarrow> ('h, 'k, 'z) pstate_scheme \<Rightarrow>
     (error option \<times> ('h, 'k, 'z) pstate_scheme) option" where
  "wait_loop sys H l s =
     do {
       (r, s) \<leftarrow> wait_round sys H l s;
       case r of Inl err \<Rightarrow> Some (err, s) | Inr l \<Rightarrow> wait_loop sys H l s
     }"

definition Wait ::
    "'k sys \<Rightarrow> ('h, ('h, 'k, 'z) pstate_scheme) handlers \<Rightarrow> ('h, 'k, 'z) pstate_scheme \<Rightarrow>
     (error option \<times> ('h, 'k, 'z) pstate_scheme) option" where
  "Wait sys H s = wait_loop sys H (-1, 0) (s\<lparr>pl := poll_reset 128 barriercap (pl s)\<rparr>)"

subsection \<open>Opening, waking and closing\<close>

definition poll_Close :: "'k sys \<Rightarrow> ('h, 'k, 'z) pstate_scheme \<Rightarrow> error option \<times> ('h, 'k, 'z) pstate_scheme" where
  "poll_Close sys s =
     (let (err, k) = sys_write8 sys (FD (wop (pl s))) [1, 0, 0, 0, 0, 0, 0, 0] (kern s)
      in (err, s\<lparr>kern := k\<rparr>))"

definition poll_Trigger :: "'k sys \<Rightarrow> ('h, 'k, 'z) pstate_scheme \<Rightarrow> error option \<times> ('h, 'k, 'z) pstate_scheme" where
  "poll_Trigger sys s =
     (let s = s\<lparr>pl := (pl s)\<lparr>trigger := trigger (pl s) + 1\<rparr>\<rparr>
      in if trigger (pl s) > 1 then (None, s)
         else let (err, k) = sys_write8 sys (FD (wop (pl s))) [0, 0, 0, 0, 0, 0, 0, 1] (kern s)
              in (err, s\<lparr>kern := k\<rparr>))"

definition zero_poll :: "nat \<Rightarrow> 'h defaultPoll" where
  "zero_poll i = \<lparr>poll_id = i, poll_fd = 0, wop = zero_FDOperator, poll_buf = replicate 8 0, trigger = 0,
     opcache = newOperatorCache, args_size = 0, args_caps = 0, args_events = 0, barriers = [], hups = []\<rparr>"

definition openDefaultPoll ::
    "'k sys \<Rightarrow> nat \<Rightarrow> world \<Rightarrow> world \<Rightarrow> 'k \<Rightarrow> (error + ('h, 'k) pstate) option \<times> 'k" where
  "openDefaultPoll sys i wi wo k =
     (case EpollCreate sys 0 k of
        (Inl e, k) \<Rightarrow> (Some (Inl e), k)
      | (Inr fd, k) \<Rightarrow>
          (case sys_eventfd sys k of
             (Inl e, k) \<Rightarrow> (Some (Inl (Errno e)), snd (sys_close sys fd k))
           | (Inr r0, k) \<Rightarrow>
               (let p = (zero_poll i)\<lparr>poll_fd := fd, wop := zero_FDOperator\<lparr>FD := r0\<rparr>\<rparr>
                in case poll_Control sys [] WopPtr PollReadable
                          \<lparr>in_heap = wi, out_heap = wo, kern = k, pl = p, hup_tasks = []\<rparr> of
                     None \<Rightarrow> (None, k)
                   | Some (Some e, s) \<Rightarrow>
                       (Some (Inl e), snd (sys_close sys fd (snd (sys_close sys r0 (kern s)))))
                   | Some (None, s) \<Rightarrow> (Some (Inr s), kern s))))"

end
