(* ===== verification/PollInv.thy ===== *)
theory PollInv
  imports Poll
begin

section \<open>The poller: what it promises and what it asks of the owners of operators\<close>

text \<open>
  \<open>operator_owner\<close> is the contract between the poller and the owners of the operators it serves.
  Inside it, the poller is shown never to panic, to keep the owners' invariant, and to release
  every operator it takes.
\<close>

subsection \<open>Operators that the poller works on\<close>

definition busy :: "('h, 'k, 'z) pstate_scheme \<Rightarrow> opptr \<Rightarrow> bool" where
  "busy s ptr \<longleftrightarrow> (case op_at (pl s) ptr of None \<Rightarrow> False | Some op \<Rightarrow> op_state op = 2)"

text \<open>Everything of an operator but whether it is worked on and the count of its detaches.\<close>

definition plain :: "'h FDOperator \<Rightarrow> 'h FDOperator" where
  "plain op = op\<lparr>op_state := (if op_state op = 0 then 0 else 1), detached := 0\<rparr>"

text \<open>
  \<open>kept s s'\<close>: what a handler may rely on and must leave. The poller's own fields are the same, no
  operator disappears, those that are worked on are the same and still worked on, and no other is.
\<close>

definition own_args :: "'h defaultPoll \<Rightarrow> nat \<times> int \<times> 'h FDOperator \<times> byte list \<times> int \<times> nat \<times> int \<times> barrier list" where
  "own_args p = (poll_id p, poll_fd p, wop p, poll_buf p, args_size p, args_caps p, args_events p, barriers p)"

definition kept :: "('h, 'k, 'z) pstate_scheme \<Rightarrow> ('h, 'k, 'z) pstate_scheme \<Rightarrow> bool" where
  "kept s s' \<longleftrightarrow>
     own_args (pl s') = own_args (pl s) \<and>
     (\<forall>ptr op. op_at (pl s) ptr = Some op \<longrightarrow> op_at (pl s') ptr \<noteq> None) \<and>
     (\<forall>ptr. busy s' ptr \<longleftrightarrow> busy s ptr) \<and>
     (\<forall>ptr op op'. busy s ptr \<longrightarrow> op_at (pl s) ptr = Some op \<longrightarrow> op_at (pl s') ptr = Some op' \<longrightarrow> plain op' = plain op)"

text \<open>What the poller itself changes between two handlers: not more than this.\<close>

definition static :: "('h, 'k, 'z) pstate_scheme \<Rightarrow> ('h, 'k, 'z) pstate_scheme \<Rightarrow> bool" where
  "static s s' \<longleftrightarrow>
     in_heap s' = in_heap s \<and> out_heap s' = out_heap s \<and> pstate.more s' = pstate.more s \<and>
     (\<forall>ptr. map_option plain (op_at (pl s') ptr) = map_option plain (op_at (pl s) ptr)) \<and>
     (opcache (pl s'))\<lparr>ops := \<lambda>_. None\<rparr> = (opcache (pl s))\<lparr>ops := \<lambda>_. None\<rparr>"

subsection \<open>Facts on operators\<close>

lemma op_at_set_op [simp]: "op_at (set_op ptr op p) q = (if q = ptr then Some op else op_at p q)"
  by (auto simp: op_at_def set_op_def split: opptr.splits)

lemma own_args_set_op: "own_args (set_op (OpPtr a) op p) = own_args p"
  by (simp add: own_args_def set_op_def)

lemma set_op_sel [simp]:
  "poll_fd (set_op ptr op p) = poll_fd p" "barriers (set_op ptr op p) = barriers p"
  "hups (set_op ptr op p) = hups p" "trigger (set_op ptr op p) = trigger p"
  "poll_buf (set_op ptr op p) = poll_buf p" "args_size (set_op ptr op p) = args_size p"
  "args_events (set_op ptr op p) = args_events p" "args_caps (set_op ptr op p) = args_caps p"
  "poll_id (set_op ptr op p) = poll_id p"
  "(opcache (set_op ptr op p))\<lparr>ops := f\<rparr> = (opcache p)\<lparr>ops := f\<rparr>"
  by (auto simp: set_op_def put_op_def split: opptr.splits)

lemma upd_op_sel [simp]:
  "pl (upd_op ptr op s) = set_op ptr op (pl s)" "kern (upd_op ptr op s) = kern s"
  "in_heap (upd_op ptr op s) = in_heap s" "out_heap (upd_op ptr op s) = out_heap s"
  "hup_tasks (upd_op ptr op s) = hup_tasks s" "pstate.more (upd_op ptr op s) = pstate.more s"
  by (simp_all add: upd_op_def)

lemma op_at_upd [simp]:
  "op_at (p\<lparr>hups := x\<rparr>) q = op_at p q" "op_at (p\<lparr>trigger := t\<rparr>) q = op_at p q"
  "op_at (p\<lparr>poll_buf := b\<rparr>) q = op_at p q"
  by (simp_all add: op_at_def split: opptr.splits)

lemma plain_sel:
  assumes "plain op' = plain op"
  shows "FD op' = FD op" "OnRead op' = OnRead op" "OnWrite op' = OnWrite op" "OnHup op' = OnHup op"
    "Inputs op' = Inputs op" "InputAck op' = InputAck op" "Outputs op' = Outputs op"
    "OutputAck op' = OutputAck op" "op_poll op' = op_poll op" "op_next op' = op_next op" "op_index op' = op_index op"
    "(op_state op' = 0) = (op_state op = 0)"
  using assms by (cases op; cases op'; simp add: plain_def split: if_splits)+

lemma kept_refl [simp]: "kept s s"
  by (auto simp: kept_def)

lemma kept_trans: "kept s s' \<Longrightarrow> kept s' s'' \<Longrightarrow> kept s s''"
  unfolding kept_def by (elim conjE, intro conjI; metis not_None_eq)

lemma kept_busyE:
  assumes "kept s s'" "busy s ptr" "op_at (pl s) ptr = Some op"
  obtains op' where "op_at (pl s') ptr = Some op'" "plain op' = plain op" "busy s' ptr" "op_state op' = 2"
  using assms unfolding kept_def busy_def by (fastforce split: option.splits)

lemma static_refl [simp]: "static s s"
  by (simp add: static_def)

lemma static_trans: "static s s' \<Longrightarrow> static s' s'' \<Longrightarrow> static s s''"
  by (simp add: static_def)

lemma static_kern [simp]: "static s (s'\<lparr>kern := k\<rparr>) = static s s'"
  by (simp add: static_def)

lemma static_hups [simp]: "static s (s'\<lparr>pl := (pl s')\<lparr>hups := x\<rparr>\<rparr>) = static s s'"
  by (simp add: static_def)

lemma static_upd_op:
  assumes "static s s'" "op_at (pl s) ptr = Some op" "plain op' = plain op"
  shows "static s (upd_op ptr op' s')"
  using assms by (auto simp: static_def)

lemma busy_upd_op [simp]: "busy (upd_op ptr op s) q = (if q = ptr then op_state op = 2 else busy s q)"
  by (simp add: busy_def)

lemma busy_upd [simp]:
  "busy (s\<lparr>kern := k\<rparr>) q = busy s q" "busy (s\<lparr>in_heap := m\<rparr>) q = busy s q"
  "busy (s\<lparr>pl := (pl s)\<lparr>hups := x\<rparr>\<rparr>) q = busy s q"
  by (simp_all add: busy_def)

lemma busyE: assumes "busy s ptr" obtains op where "op_at (pl s) ptr = Some op" "op_state op = 2"
  using assms by (auto simp: busy_def split: option.splits)

lemma kept_upd [simp]:
  "kept s (s'\<lparr>kern := k\<rparr>) = kept s s'" "kept (s\<lparr>kern := k\<rparr>) s' = kept s s'"
  "kept s (s'\<lparr>in_heap := m\<rparr>) = kept s s'" "kept (s\<lparr>in_heap := m\<rparr>) s' = kept s s'"
  by (simp_all add: kept_def)

text \<open>
  What the poller keeps from event to event: \<open>framed\<close>. It then \<open>served\<close> an event when the same
  operators are worked on as before, and \<open>released ptr\<close> says that one less is.
\<close>

definition framed :: "('h, 'k, 'z) pstate_scheme \<Rightarrow> ('h, 'k, 'z) pstate_scheme \<Rightarrow> bool" where
  "framed s s' \<longleftrightarrow>
     (poll_fd (pl s'), args_size (pl s'), args_events (pl s'), args_caps (pl s'), barriers (pl s')) =
     (poll_fd (pl s), args_size (pl s), args_events (pl s), args_caps (pl s), barriers (pl s)) \<and>
     plain (wop (pl s')) = plain (wop (pl s)) \<and> (poll_buf (pl s) \<noteq> [] \<longrightarrow> poll_buf (pl s') \<noteq> []) \<and>
     (\<forall>ptr. op_at (pl s) ptr \<noteq> None \<longrightarrow> op_at (pl s') ptr \<noteq> None)"

definition served :: "('h, 'k, 'z) pstate_scheme \<Rightarrow> ('h, 'k, 'z) pstate_scheme \<Rightarrow> bool" where
  "served s s' \<longleftrightarrow> framed s s' \<and> busy s' = busy s \<and> op_state (wop (pl s')) = op_state (wop (pl s))"

definition released :: "opptr \<Rightarrow> ('h, 'k, 'z) pstate_scheme \<Rightarrow> ('h, 'k, 'z) pstate_scheme \<Rightarrow> bool" where
  "released ptr s s' \<longleftrightarrow> framed s s' \<and> busy s' = (busy s)(ptr := False) \<and>
     op_state (wop (pl s')) = (if ptr = WopPtr then 1 else op_state (wop (pl s)))"

lemma framed_refl [simp]: "framed s s"
  by (simp add: framed_def)

lemma framed_trans: "framed s s' \<Longrightarrow> framed s' s'' \<Longrightarrow> framed s s''"
  unfolding framed_def by (elim conjE, intro conjI) simp_all

lemma served_refl [simp]: "served s s"
  by (simp add: served_def)

lemma served_trans: "served s s' \<Longrightarrow> served s' s'' \<Longrightarrow> served s s''"
  unfolding served_def using framed_trans by auto

lemma kept_framed: "kept s s' \<Longrightarrow> framed s s'"
  by (auto simp: kept_def framed_def own_args_def)

lemma kept_served: "kept s s' \<Longrightarrow> served s s'"
  by (auto simp: served_def kept_framed kept_def own_args_def)

lemma wop_set_op: "wop (set_op ptr op p) = (if ptr = WopPtr then op else wop p)"
  by (simp add: set_op_def split: opptr.splits)

lemma kept_released: "kept s s' \<Longrightarrow> released ptr s' s'' \<Longrightarrow> released ptr s s''"
  using kept_served [of s s'] framed_trans by (fastforce simp: released_def served_def)

lemma framed_upd [simp]:
  "framed s (s'\<lparr>kern := k\<rparr>) = framed s s'" "framed s (s'\<lparr>pl := (pl s')\<lparr>hups := x\<rparr>\<rparr>) = framed s s'"
  by (simp_all add: framed_def)

lemma framed_upd_op:
  assumes "framed s s'" "op_at (pl s') ptr = Some op" "plain op' = plain op"
  shows "framed s (upd_op ptr op' s')"
proof (cases ptr)
  case WopPtr
  then have "wop (set_op ptr op' (pl s')) = op'" "op = wop (pl s')"
    using assms(2) by (simp_all add: set_op_def op_at_def)
  then show ?thesis using assms by (simp add: framed_def)
next
  case (OpPtr a)
  then have "wop (set_op ptr op' (pl s')) = wop (pl s')" by (simp add: set_op_def)
  then show ?thesis using assms by (simp add: framed_def)
qed

definition bars_ok :: "'h defaultPoll \<Rightarrow> bool" where
  "bars_ok p \<longleftrightarrow> (\<forall>b\<in>set (barriers p). 0 < bar_bs b \<and> bar_bs b \<le> bar_ivs b)"

lemma barrier_atE:
  assumes "i < length (barriers p)" "bars_ok p"
  obtains br where "barrier_at i p = Some br" "0 < bar_bs br" "bar_bs br \<le> bar_ivs br"
  using assms by (auto simp: barrier_at_def bars_ok_def)

lemma framed_bars: "framed s s' \<Longrightarrow> bars_ok (pl s') = bars_ok (pl s) \<and> length (barriers (pl s')) = length (barriers (pl s))"
  by (simp add: framed_def bars_ok_def)

subsection \<open>Freeing moves operators and changes nothing else of them\<close>

lemma free_loop_ops:
  assumes "free_loop is c = Some c'"
  shows "map_option (\<lambda>op. op\<lparr>op_next := None\<rparr>) (ops c' a) = map_option (\<lambda>op. op\<lparr>op_next := None\<rparr>) (ops c a)"
    and "\<forall>i\<in>set is. cache_at c i \<noteq> Some a \<Longrightarrow> ops c' a = ops c a"
proof -
  have "map_option (\<lambda>op. op\<lparr>op_next := None\<rparr>) (ops c' a) = map_option (\<lambda>op. op\<lparr>op_next := None\<rparr>) (ops c a) \<and>
      ((\<forall>i\<in>set is. cache_at c i \<noteq> Some a) \<longrightarrow> ops c' a = ops c a)"
    using assms
  proof (induction "is" arbitrary: c)
    case (Cons i js)
    obtain b nd where b: "cache_at c i = Some b" "ops c b = Some nd"
      "free_loop js ((put_op b (nd\<lparr>op_next := first c\<rparr>) c)\<lparr>first := Some b\<rparr>) = Some c'"
      using Cons.prems by (auto simp: bind_eq_Some_conv Let_def)
    let ?c = "(put_op b (nd\<lparr>op_next := first c\<rparr>) c)\<lparr>first := Some b\<rparr>"
    have "cache_at ?c j = cache_at c j" for j by (rule cache_at_frame) simp
    then show ?case using Cons.IH [OF b(3)] b(1,2) by auto
  qed auto
  then show "map_option (\<lambda>op. op\<lparr>op_next := None\<rparr>) (ops c' a) = map_option (\<lambda>op. op\<lparr>op_next := None\<rparr>) (ops c a)"
    "\<forall>i\<in>set is. cache_at c i \<noteq> Some a \<Longrightarrow> ops c' a = ops c a" by auto
qed

lemma cache_free_ops:
  assumes "cache_free c = Some c'"
  shows "map_option op_state (ops c' a) = map_option op_state (ops c a)"
    and "a \<notin> frees c \<Longrightarrow> ops c' a = ops c a"
proof -
  have "map_option op_state (ops c' a) = map_option op_state (ops c a) \<and> (a \<notin> frees c \<longrightarrow> ops c' a = ops c a)"
  proof (cases "freelist c = []")
    case True
    then show ?thesis using assms by (auto simp: cache_free_def bind_eq_Some_conv Let_def)
  next
    case False
    obtain l1 l2 d where d: "free_loop (freelist c) (c\<lparr>freelocked := l1, locked := l2\<rparr>) = Some d" "ops c' = ops d"
      using assms False by (auto simp: cache_free_def bind_eq_Some_conv Let_def)
    have at: "cache_at (c\<lparr>freelocked := l1, locked := l2\<rparr>) i = cache_at c i" for i by (rule cache_at_frame) simp
    have "map_option op_state (map_option (\<lambda>op. op\<lparr>op_next := None\<rparr>) (ops d a)) =
        map_option op_state (map_option (\<lambda>op. op\<lparr>op_next := None\<rparr>) (ops c a))"
      using free_loop_ops(1) [OF d(1), of a] by simp
    then have "map_option op_state (ops d a) = map_option op_state (ops c a)"
      by (cases "ops d a"; cases "ops c a") simp_all
    then show ?thesis using d(2) free_loop_ops(2) [OF d(1), of a] at by (auto simp: frees_def)
  qed
  then show "map_option op_state (ops c' a) = map_option op_state (ops c a)"
    "a \<notin> frees c \<Longrightarrow> ops c' a = ops c a" by auto
qed

lemma cache_free_busy:
  assumes "cache_free (opcache (pl s)) = Some c"
  shows "busy (s\<lparr>pl := (pl s)\<lparr>opcache := c\<rparr>\<rparr>) = busy s" "framed s (s\<lparr>pl := (pl s)\<lparr>opcache := c\<rparr>\<rparr>)"
proof -
  have e: "map_option op_state (op_at ((pl s)\<lparr>opcache := c\<rparr>) q) = map_option op_state (op_at (pl s) q)" for q
    using cache_free_ops(1) [OF assms] by (simp add: op_at_def split: opptr.splits)
  have "(op_at ((pl s)\<lparr>opcache := c\<rparr>) q = None) = (op_at (pl s) q = None)" for q
    using e [of q] by (metis map_option_is_None)
  then show "framed s (s\<lparr>pl := (pl s)\<lparr>opcache := c\<rparr>\<rparr>)" by (simp add: framed_def)
  have "busy (s\<lparr>pl := (pl s)\<lparr>opcache := c\<rparr>\<rparr>) q = busy s q" for q
    using e [of q] by (auto simp: busy_def split: option.splits)
  then show "busy (s\<lparr>pl := (pl s)\<lparr>opcache := c\<rparr>\<rparr>) = busy s" by (simp add: fun_eq_iff)
qed

subsection \<open>The size of the event list\<close>

text \<open>
  The list of events and the barriers have the same length, which starts at 128, doubles, and
  stops at 128K.
\<close>

definition args_ok :: "'h defaultPoll \<Rightarrow> bool" where
  "args_ok p \<longleftrightarrow> (\<exists>j\<le>10. args_size p = 128 * 2 ^ j) \<and> args_events p = args_size p \<and>
     barriers p = replicate (nat (args_size p)) \<lparr>bar_bs = barriercap, bar_ivs = barriercap\<rparr>"

definition grow_args :: "int \<Rightarrow> 'h defaultPoll \<Rightarrow> 'h defaultPoll" where
  "grow_args n p = (if n = args_size p \<and> args_size p < 128 * 1024 then poll_reset (args_size p * 2) barriercap p else p)"

lemma args_ok_reset: "args_ok (poll_reset 128 barriercap p)"
  by (auto simp: args_ok_def poll_reset_def intro: exI [of _ 0])

lemma args_ok_grow:
  assumes "args_ok p"
  shows "args_ok (grow_args n p)"
proof (cases "n = args_size p \<and> args_size p < 128 * 1024")
  case True
  obtain j where j: "j \<le> 10" "args_size p = 128 * 2 ^ j" using assms by (auto simp: args_ok_def)
  have "j < 10"
  proof (rule ccontr)
    assume "\<not> j < 10"
    then have "j = 10" using j(1) by simp
    then show False using True j(2) by simp
  qed
  then show ?thesis using True j by (auto simp: args_ok_def poll_reset_def grow_args_def intro!: exI [of _ "Suc j"])
next
  case False
  then have "grow_args n p = p" by (auto simp: grow_args_def)
  then show ?thesis using assms by simp
qed

lemma args_ok_bars: "args_ok p \<Longrightarrow> bars_ok p \<and> int (length (barriers p)) = args_events p"
  by (auto simp: args_ok_def bars_ok_def barriercap_def)

lemma framed_args: "framed s s' \<Longrightarrow> args_ok (pl s') = args_ok (pl s)"
  by (simp add: framed_def args_ok_def)

text \<open>What \<^verbatim>\<open>epoll_wait\<close> promises: as many events as asked for at most, each with a pointer of \<open>R\<close>.\<close>

definition epoll_ok :: "'k sys \<Rightarrow> opptr set \<Rightarrow> bool" where
  "epoll_ok sys R \<longleftrightarrow> (\<forall>fd n msec k evs k'. EpollWait sys fd n msec k = (Inr evs, k') \<longrightarrow>
     int (length evs) \<le> n \<and> (\<forall>ev\<in>set evs. \<forall>ptr. ev_data ev = Some ptr \<longrightarrow> ptr \<in> R))"

subsection \<open>Reads and sends end\<close>

lemma ioread_total:
  assumes "readv_ok rv" "\<forall>c\<in>set bs. 0 \<le> s_len c" "length bs \<le> ivs"
  obtains n err bs' k' m' where "ioread rv fd bs ivs k m = Some ((n, err), bs', k', m')"
    "err = None \<longrightarrow> n = 0 \<and> bs' = resetIovecs bs \<or> 0 < n \<and> (\<exists>j d ds. rv fd j k = (Inr (d # ds), k'))"
proof -
  obtain v where v: "iovecs bs ivs = Some v"
    using iovecs_loop_ok [of 0 bs ivs m] assms(2,3) by (auto simp: iovecs_def MaxInt32_def)
  obtain r k' where r: "rv fd (iov_len v) k = (r, k')" by (cases "rv fd (iov_len v) k")
  have "(v = [] \<longrightarrow> ioread rv fd bs ivs k m = Some ((0, Some (Exc ErrEOF [])), bs, k, m)) \<and>
      (v \<noteq> [] \<longrightarrow> ioread rv fd bs ivs k m = Some (case r of
         Inl e \<Rightarrow> (if e = EINTR \<or> e = EAGAIN then (0, None) else (-1, Some (Errno e)), resetIovecs bs, k', m)
       | Inr [] \<Rightarrow> ((0, Some (Exc ErrEOF [])), resetIovecs bs, k', scatter v [] m)
       | Inr (d # ds) \<Rightarrow> ((int (length (d # ds)), None), resetIovecs bs, k', scatter v (d # ds) m)))"
    using v r by (auto simp: ioread_def readv_def split: sum.splits list.splits)
  then show thesis
    by (cases "v = []"; cases r) (use r in \<open>auto intro!: that split: if_splits list.splits simp del: length_Cons\<close>)
qed

subsection \<open>The contract\<close>

text \<open>
  What the poller relies on of the kernel; \<open>left\<close> bounds how often data can be read before the socket
  is empty.
\<close>

definition kernel_ok :: "'k sys \<Rightarrow> ('k \<Rightarrow> nat) \<Rightarrow> bool" where
  "kernel_ok sys left \<longleftrightarrow>
     readv_ok (sys_readv sys) \<and> send_ok (sys_writev sys) \<and> send_ok (sys_sendmsg sys) \<and>
     (\<forall>fd j k d ds k'. sys_readv sys fd j k = (Inr (d # ds), k') \<longrightarrow> left k' < left k)"

lemma kernel_okD:
  assumes "kernel_ok sys left"
  shows "readv_ok (sys_readv sys)" "send_ok (sys_writev sys)" "send_ok (sys_sendmsg sys)"
    "sys_readv sys fd j k = (Inr (d # ds), k') \<Longrightarrow> left k' < left k"
  using assms unfolding kernel_ok_def by blast+

locale operator_owner =
  fixes sys :: "'k sys" and H :: "('h, ('h, 'k, 'z) pstate_scheme) handlers"
    and I :: "('h, 'k, 'z) pstate_scheme \<Rightarrow> bool"
    and lent :: "slice list \<Rightarrow> ('h, 'k, 'z) pstate_scheme \<Rightarrow> bool"
    and shown :: "slice list \<Rightarrow> ('h, 'k, 'z) pstate_scheme \<Rightarrow> bool"
    and left :: "'k \<Rightarrow> nat"
  assumes kernel: "lent bs s \<or> shown bs s \<Longrightarrow> kernel_ok sys left"
    and I_static: "I s \<Longrightarrow> static s s' \<Longrightarrow> I s'"
    and I_free: "I s \<Longrightarrow> \<exists>c. cache_free (opcache (pl s)) = Some c \<and> I (s\<lparr>pl := (pl s)\<lparr>opcache := c\<rparr>\<rparr>)"
    and acks_set: "I s \<Longrightarrow> op_at (pl s) (OpPtr a) = Some op \<Longrightarrow> op_state op = 2 \<Longrightarrow>
      op_poll op \<noteq> None \<and> (Inputs op \<noteq> None \<longrightarrow> InputAck op \<noteq> None) \<and> (Outputs op \<noteq> None \<longrightarrow> OutputAck op \<noteq> None)"
    and call_ok: "I s \<Longrightarrow> op_at (pl s) (OpPtr a) = Some op \<Longrightarrow> op_state op = 2 \<Longrightarrow>
      OnRead op = Some h \<or> OnWrite op = Some h \<Longrightarrow> \<exists>s'. call H h s = Some s' \<and> kept s s' \<and> I s'"
    and inputs_ok: "I s \<Longrightarrow> op_at (pl s) (OpPtr a) = Some op \<Longrightarrow> op_state op = 2 \<Longrightarrow>
      Inputs op = Some h \<Longrightarrow> 0 < caps \<Longrightarrow>
      \<exists>bs s'. inputs H h caps s = Some (bs, s') \<and> kept s s' \<and> length bs \<le> caps \<and> (\<forall>c\<in>set bs. 0 \<le> s_len c) \<and>
        left (kern s') \<le> left (kern s) \<and> (if bs = [] then I s' else lent bs s')"
    and inputAck_ok: "lent bs s \<Longrightarrow> op_at (pl s) (OpPtr a) = Some op \<Longrightarrow> op_state op = 2 \<Longrightarrow>
      InputAck op = Some h \<Longrightarrow>
      ioread (sys_readv sys) (FD op) bs ivs (kern s) (in_heap s) = Some ((n, err), bs', k, m) \<Longrightarrow>
      \<exists>s'. ack H h n (s\<lparr>kern := k, in_heap := m\<rparr>) = Some s' \<and> kept s s' \<and> left (kern s') \<le> left k \<and> I s'"
    and inputAck_0: "I s \<Longrightarrow> op_at (pl s) (OpPtr a) = Some op \<Longrightarrow> op_state op = 2 \<Longrightarrow>
      InputAck op = Some h \<Longrightarrow> \<exists>s'. ack H h 0 s = Some s' \<and> kept s s' \<and> I s'"
    and outputs_ok: "I s \<Longrightarrow> op_at (pl s) (OpPtr a) = Some op \<Longrightarrow> op_state op = 2 \<Longrightarrow>
      Outputs op = Some h \<Longrightarrow> 0 < caps \<Longrightarrow>
      \<exists>bs z s'. outputs H h caps s = Some ((bs, z), s') \<and> kept s s' \<and> length bs \<le> caps \<and> (\<forall>c\<in>set bs. 0 \<le> s_len c) \<and>
        (if bs = [] then I s' else shown bs s')"
    and outputAck_ok: "shown bs s \<Longrightarrow> op_at (pl s) (OpPtr a) = Some op \<Longrightarrow> op_state op = 2 \<Longrightarrow>
      OutputAck op = Some h \<Longrightarrow>
      iosend (sys_fstat sys) (sys_writev sys) (sys_sendmsg sys) (FD op) bs ivs z (kern s) (out_heap s) =
        Some ((n, err), bs', k) \<Longrightarrow>
      \<exists>s'. ack H h n (s\<lparr>kern := k\<rparr>) = Some s' \<and> kept s s' \<and> I s'"
begin

lemma kept_acks:
  assumes "I s" "kept s s'" "op_at (pl s) (OpPtr a) = Some op" "op_state op = 2"
  obtains op' where "op_at (pl s') (OpPtr a) = Some op'" "op_state op' = 2" "plain op' = plain op"
  using assms kept_busyE [of s s' "OpPtr a" op] by (auto simp: busy_def)

lemma read_ack_ok:
  assumes "lent bs s" "op_at (pl s) (OpPtr a) = Some op" "op_state op = 2" "InputAck op \<noteq> None"
    "\<forall>c\<in>set bs. 0 \<le> s_len c" "length bs \<le> ivs"
  obtains n err bs' s' where "read_ack sys H (OpPtr a) ivs bs s = Some ((n, err), bs', s')" "kept s s'" "I s'"
    "err = None \<longrightarrow> n = 0 \<and> bs' = resetIovecs bs \<or> 0 < n \<and> left (kern s') < left (kern s)"
proof -
  obtain h where h: "InputAck op = Some h" using assms(4) by auto
  have K: "kernel_ok sys left" using kernel assms(1) by blast
  obtain n err bs' k m where io: "ioread (sys_readv sys) (FD op) bs ivs (kern s) (in_heap s) = Some ((n, err), bs', k, m)"
    and n: "err = None \<longrightarrow> n = 0 \<and> bs' = resetIovecs bs \<or>
      0 < n \<and> (\<exists>j d ds. sys_readv sys (FD op) j (kern s) = (Inr (d # ds), k))"
    by (rule ioread_total [OF kernel_okD(1) [OF K] assms(5,6), of "FD op" "kern s" "in_heap s"]) blast
  obtain s' where s': "ack H h n (s\<lparr>kern := k, in_heap := m\<rparr>) = Some s'" "kept s s'" "left (kern s') \<le> left k" "I s'"
    using inputAck_ok [OF assms(1-3) h io] by blast
  have "read_ack sys H (OpPtr a) ivs bs s = Some ((n, err), bs', s')"
    using assms(2) h io s'(1) by (simp add: read_ack_def)
  then show thesis
  proof (rule that [OF _ s'(2,4)])
    show "err = None \<longrightarrow> n = 0 \<and> bs' = resetIovecs bs \<or> 0 < n \<and> left (kern s') < left (kern s)"
      using n kernel_okD(4) [OF K, of "FD op" _ "kern s" _ _ k] le_less_trans [OF s'(3)] by blast
  qed
qed

lemma read_ack_retry:
  assumes "I s" "op_at (pl s) (OpPtr a) = Some op" "op_state op = 2" "InputAck op \<noteq> None"
  obtains s' where "read_ack sys H (OpPtr a) ivs (resetIovecs bs) s =
      Some ((0, Some (Exc ErrEOF [])), resetIovecs bs, s')" "kept s s'" "I s'"
proof -
  obtain h where h: "InputAck op = Some h" using assms(4) by auto
  obtain s' where "ack H h 0 s = Some s'" "kept s s'" "I s'" using inputAck_0 [OF assms(1-3) h] by blast
  then show thesis using assms(2) h by (intro that) (simp_all add: read_ack_def ioread_reset)
qed

lemma readall_loop_ok:
  assumes "I s" "op_at (pl s) (OpPtr a) = Some op" "op_state op = 2" "Inputs op \<noteq> None"
    "0 < bar_bs br" "bar_bs br \<le> bar_ivs br"
  shows "\<exists>r s'. readall_loop sys H (OpPtr a) br None tot s = Some (r, s') \<and> kept s s' \<and> I s'"
  using assms(1-4)
proof (induction "left (kern s)" arbitrary: s tot op rule: less_induct)
  case less
  obtain h where h: "Inputs op = Some h" using less.prems(4) by auto
  have acks: "InputAck op \<noteq> None" using acks_set [OF less.prems(1-3)] less.prems(4) by blast
  obtain bs s1 where 1: "inputs H h (bar_bs br) s = Some (bs, s1)" "kept s s1" "length bs \<le> bar_bs br"
    "\<forall>c\<in>set bs. 0 \<le> s_len c" "left (kern s1) \<le> left (kern s)" "if bs = [] then I s1 else lent bs s1"
    using inputs_ok [OF less.prems(1-3) h assms(5)] by blast
  show ?case
  proof (cases "bs = []")
    case True
    then show ?thesis using 1 less.prems(2) h by (subst readall_loop.simps) simp
  next
    case False
    obtain op1 where op1: "op_at (pl s1) (OpPtr a) = Some op1" "op_state op1 = 2" "plain op1 = plain op"
      using kept_acks [OF less.prems(1) 1(2) less.prems(2,3)] .
    have a1: "InputAck op1 \<noteq> None" using acks plain_sel(6) [OF op1(3)] by simp
    have l1: "lent bs s1" "length bs \<le> bar_ivs br" using False 1(3,6) assms(6) by auto
    obtain n err bs' s2 where 2: "read_ack sys H (OpPtr a) (bar_ivs br) bs s1 = Some ((n, err), bs', s2)"
      "kept s1 s2" "I s2" and n: "err = None \<longrightarrow> n = 0 \<and> bs' = resetIovecs bs \<or> 0 < n \<and> left (kern s2) < left (kern s1)"
      by (rule read_ack_ok [OF l1(1) op1(1,2) a1 1(4) l1(2)]) blast
    have k2: "kept s s2" using 1(2) 2(2) by (rule kept_trans)
    obtain op2 where op2: "op_at (pl s2) (OpPtr a) = Some op2" "op_state op2 = 2" "plain op2 = plain op"
      using kept_acks [OF less.prems(1) k2 less.prems(2,3)] .
    have a2: "InputAck op2 \<noteq> None" "Inputs op2 \<noteq> None"
      using acks less.prems(4) plain_sel(5,6) [OF op2(3)] by simp_all
    have step: "readall_loop sys H (OpPtr a) br None tot s =
        (if err \<noteq> None then Some ((tot + n, err), s2)
         else if n = 0 then readall_loop sys H (OpPtr a) br (Some bs') (tot + n) s2
         else readall_loop sys H (OpPtr a) br None (tot + n) s2)"
      using less.prems(2) h 1(1) False 2(1)
      by (simp add: readall_loop.simps [of _ _ _ _ None tot s] readall_loop.simps [of _ _ _ _ "Some bs" tot s1])
    consider "err \<noteq> None" | "err = None" "n = 0" "bs' = resetIovecs bs"
      | "err = None" "0 < n" "left (kern s2) < left (kern s)"
      using n 1(5) by fastforce
    then show ?thesis
    proof cases
      case 1
      then show ?thesis using step k2 2(3) by simp
    next
      case 2
      obtain s3 where "read_ack sys H (OpPtr a) (bar_ivs br) bs' s2 = Some ((0, Some (Exc ErrEOF [])), bs', s3)"
        "kept s2 s3" "I s3"
        using read_ack_retry [OF \<open>I s2\<close> op2(1,2) a2(1)] 2(3) by metis
      then show ?thesis using step 2 kept_trans [OF k2]
        by (simp add: readall_loop.simps [of _ _ _ _ "Some (resetIovecs bs)" tot s2])
    next
      case 3
      obtain r s3 where "readall_loop sys H (OpPtr a) br None (tot + n) s2 = Some (r, s3)" "kept s2 s3" "I s3"
        using less.hyps [OF 3(3) 2(3) op2(1,2) a2(2)] by blast
      then show ?thesis using step 3 kept_trans [OF k2] by simp
    qed
  qed
qed

lemma op_release_ok:
  assumes "I s" "op_at (pl s) ptr = Some op" "op_state op \<noteq> 0"
  obtains s' where "op_release ptr s = Some s'" "released ptr s s'" "I s'"
proof -
  let ?s = "upd_op ptr (op_done op) s"
  have p: "plain (op_done op) = plain op" using assms(3) by (simp add: plain_def op_done_def)
  have "op_release ptr s = Some ?s" using assms(2) by (simp add: op_release_def)
  moreover have "released ptr s ?s"
    using framed_upd_op [OF framed_refl assms(2) p] by (auto simp: released_def op_done_def fun_eq_iff wop_set_op)
  moreover have "I ?s" using I_static [OF assms(1)] static_upd_op [OF static_refl assms(2) p] by blast
  ultimately show thesis by (rule that)
qed

lemma poll_detach_ok:
  assumes "I s" "op_at (pl s) ptr = Some op" "op_poll op \<noteq> None"
  obtains s' op' where "poll_detach sys ptr s = Some s'" "framed s s'" "busy s' = busy s" "I s'"
    "op_at (pl s') ptr = Some op'" "plain op' = plain op" "ptr \<noteq> WopPtr \<Longrightarrow> wop (pl s') = wop (pl s)"
proof -
  obtain err called op1 where c: "op_Control (\<lambda>_. None) PollDetach op = Some (err, called, op1)"
    "op1 = op\<lparr>detached := detached op + 1\<rparr>"
    using assms(3) by (cases "1 < sint (detached op + 1)") (auto simp: op_Control_def Let_def)
  have p: "plain op1 = plain op" "op_state op1 = op_state op" using c(2) by (simp_all add: plain_def)
  obtain err' k where e: "EpollCtl sys (poll_fd (pl s)) (fst (control_op PollDetach)) (FD op1)
      (setOperator ptr \<lparr>ev_events = snd (control_op PollDetach), ev_data = None\<rparr>) (kern s) = (err', k)"
    by (cases "EpollCtl sys (poll_fd (pl s)) (fst (control_op PollDetach)) (FD op1)
      (setOperator ptr \<lparr>ev_events = snd (control_op PollDetach), ev_data = None\<rparr>) (kern s)")
  define s' where "s' = (if called then (upd_op ptr op1 (upd_op ptr op1 s))\<lparr>kern := k\<rparr> else upd_op ptr op1 s)"
  have "poll_detach sys ptr s = Some s'"
    using assms(2) c(1) e by (auto simp: poll_detach_def operator_Control_def poll_Control_def s'_def
        delOperator_def Let_def case_prod_beta)
  moreover have "framed s s'"
    unfolding s'_def using framed_upd_op [OF framed_refl assms(2) p(1)] framed_upd_op [of s "upd_op ptr op1 s" ptr op1 op1]
    by simp
  moreover have "busy s' = busy s" using assms(2) p(2) by (auto simp: s'_def busy_def fun_eq_iff)
  moreover have "static s s'"
    unfolding s'_def using static_upd_op [OF static_refl assms(2) p(1)]
      static_upd_op [OF _ assms(2) p(1), of "upd_op ptr op1 s"] by simp
  then have "I s'" by (rule I_static [OF assms(1)])
  moreover have "op_at (pl s') ptr = Some op1" by (simp add: s'_def)
  moreover have "ptr \<noteq> WopPtr \<Longrightarrow> wop (pl s') = wop (pl s)" by (simp add: s'_def wop_set_op)
  ultimately show thesis using p(1) by (intro that)
qed

lemma appendHup_ok:
  assumes "I s" "op_at (pl s) ptr = Some op" "op_poll op \<noteq> None" "op_state op \<noteq> 0"
  obtains s' where "appendHup sys ptr s = Some s'" "released ptr s s'" "I s'"
proof -
  let ?s = "s\<lparr>pl := (pl s)\<lparr>hups := hups (pl s) @ [OnHup op]\<rparr>\<rparr>"
  have "I ?s" using I_static [OF assms(1)] by simp
  moreover have "op_at (pl ?s) ptr = Some op" using assms(2) by simp
  ultimately obtain s1 op1 where 1: "poll_detach sys ptr ?s = Some s1" "framed ?s s1" "busy s1 = busy ?s" "I s1"
    "op_at (pl s1) ptr = Some op1" "ptr \<noteq> WopPtr \<longrightarrow> wop (pl s1) = wop (pl ?s)" "plain op1 = plain op"
    using poll_detach_ok [of ?s ptr op] assms(3) by metis
  have "op_state op1 \<noteq> 0" using plain_sel(12) [OF 1(7)] assms(4) by simp
  then obtain s' where 2: "op_release ptr s1 = Some s'" "released ptr s1 s'" "I s'" using op_release_ok [OF 1(4,5)] by blast
  have f: "framed s ?s" by simp
  have b: "busy ?s = busy s" by (auto simp: fun_eq_iff)
  show thesis
  proof (rule that [OF _ _ 2(3)])
    show "appendHup sys ptr s = Some s'" using assms(2) 1(1) 2(1) by (simp add: appendHup_def)
    show "released ptr s s'" using framed_trans [OF f framed_trans [OF 1(2)]] 2(2) 1(3,6) b by (auto simp: released_def)
  qed
qed

text \<open>How a phase leaves the state.\<close>

definition phase_ok ::
    "addr \<Rightarrow> ('h, 'k, 'z) pstate_scheme \<Rightarrow> ((unit + 'b) \<times> ('h, 'k, 'z) pstate_scheme) option \<Rightarrow> bool" where
  "phase_ok a s x \<longleftrightarrow> (\<exists>r s'. x = Some (r, s') \<and> I s' \<and>
     (case r of Inl _ \<Rightarrow> released (OpPtr a) s s' | Inr _ \<Rightarrow> kept s s'))"

lemma phase_hup:
  assumes "I s'" "kept s s'" "op_at (pl s) (OpPtr a) = Some op" "op_state op = 2" "op_poll op \<noteq> None"
  shows "phase_ok a s (do { s \<leftarrow> appendHup sys (OpPtr a) s'; Some (Inl (), s) })"
proof -
  have b: "busy s (OpPtr a)" using assms(3,4) by (simp add: busy_def)
  obtain op' where op': "op_at (pl s') (OpPtr a) = Some op'" "plain op' = plain op" "op_state op' = 2"
    by (rule kept_busyE [OF assms(2) b assms(3)])
  have "op_poll op' \<noteq> None" "op_state op' \<noteq> 0" using plain_sel(9) [OF op'(2)] assms(5) op'(3) by simp_all
  then obtain s'' where "appendHup sys (OpPtr a) s' = Some s''" "released (OpPtr a) s' s''" "I s''"
    using appendHup_ok [OF assms(1) op'(1)] by blast
  then show ?thesis using kept_released [OF assms(2)] by (simp add: phase_ok_def)
qed

lemma phase_next: "I s' \<Longrightarrow> kept s s' \<Longrightarrow> phase_ok a s (Some (Inr x, s'))"
  by (simp add: phase_ok_def)

lemma read_phase_ok:
  assumes "I s" "op_at (pl s) (OpPtr a) = Some op" "op_state op = 2" "i < length (barriers (pl s))" "bars_ok (pl s)"
  shows "phase_ok a s (read_phase sys H i (OpPtr a) s)"
proof (cases "OnRead op")
  case (Some h)
  then obtain s' where "call H h s = Some s'" "kept s s'" "I s'" using call_ok [OF assms(1-3)] by blast
  then show ?thesis using Some assms(2) phase_next [of s' s a 0] by (simp add: read_phase_def)
next
  case nil: None
  show ?thesis
  proof (cases "Inputs op")
    case None
    then show ?thesis using nil assms(1,2) phase_next [of s s a 0] by (simp add: read_phase_def)
  next
    case (Some h)
    obtain br where br: "barrier_at i (pl s) = Some br" "0 < bar_bs br" "bar_bs br \<le> bar_ivs br"
      using barrier_atE [OF assms(4,5)] .
    obtain bs s1 where 1: "inputs H h (bar_bs br) s = Some (bs, s1)" "kept s s1" "length bs \<le> bar_bs br"
      "\<forall>c\<in>set bs. 0 \<le> s_len c" "if bs = [] then I s1 else lent bs s1"
      using inputs_ok [OF assms(1-3) Some br(2)] by blast
    show ?thesis
    proof (cases "bs = []")
      case True
      then show ?thesis using nil Some assms(2) br(1) 1 phase_next [of s1 s a 0] by (simp add: read_phase_def)
    next
      case False
      obtain op1 where op1: "op_at (pl s1) (OpPtr a) = Some op1" "op_state op1 = 2" "plain op1 = plain op"
        using kept_acks [OF assms(1) 1(2) assms(2,3)] .
      have a1: "InputAck op1 \<noteq> None" "op_poll op \<noteq> None"
        using acks_set [OF assms(1-3)] plain_sel(6) [OF op1(3)] Some by simp_all
      have l1: "lent bs s1" "length bs \<le> bar_ivs br" using False 1(3,5) br(3) by auto
      obtain n err bs' s2 where 2: "read_ack sys H (OpPtr a) (bar_ivs br) bs s1 = Some ((n, err), bs', s2)"
        "kept s1 s2" "I s2"
        by (rule read_ack_ok [OF l1(1) op1(1,2) a1(1) 1(4) l1(2)]) blast
      have k2: "kept s s2" using 1(2) 2(2) by (rule kept_trans)
      have eq: "read_phase sys H i (OpPtr a) s =
          (if err \<noteq> None then do { s \<leftarrow> appendHup sys (OpPtr a) s2; Some (Inl (), s) } else Some (Inr n, s2))"
        using nil Some assms(2) br(1) 1(1) False 2(1) by (simp add: read_phase_def)
      show ?thesis
        unfolding eq by (simp add: phase_hup [OF 2(3) k2 assms(2,3) a1(2)] phase_next [OF 2(3) k2])
    qed
  qed
qed

lemma hup_phase_ok:
  assumes "I s" "op_at (pl s) (OpPtr a) = Some op" "op_state op = 2" "i < length (barriers (pl s))" "bars_ok (pl s)"
  shows "phase_ok a s (hup_phase sys H i (OpPtr a) rd tot s)"
proof -
  let ?x = "if rd \<and> Inputs op \<noteq> None
          then do {
            br \<leftarrow> barrier_at i (pl s);
            ((leftRead, err), s) \<leftarrow> readall sys H (OpPtr a) br s;
            Some (tot + leftRead, s)
          }
          else Some (tot, s)"
  have p: "op_poll op \<noteq> None" using acks_set [OF assms(1-3)] by blast
  have "\<exists>t s'. ?x = Some (t, s') \<and> kept s s' \<and> I s'"
  proof (cases "rd \<and> Inputs op \<noteq> None")
    case True
    obtain br where br: "barrier_at i (pl s) = Some br" "0 < bar_bs br" "bar_bs br \<le> bar_ivs br"
      using barrier_atE [OF assms(4,5)] .
    obtain r s' where "readall sys H (OpPtr a) br s = Some (r, s')" "kept s s'" "I s'"
      using readall_loop_ok [OF assms(1-3) _ br(2,3)] True unfolding readall_def by blast
    then show ?thesis using True br(1) by (cases r) simp
  next
    case False
    then have "?x = Some (tot, s)" by (rule if_not_P)
    then show ?thesis using assms(1) kept_refl by blast
  qed
  then obtain t s' where x: "?x = Some (t, s')" "kept s s'" "I s'" by blast
  have eq: "hup_phase sys H i (OpPtr a) rd tot s =
      (if t = 0 then do { s \<leftarrow> appendHup sys (OpPtr a) s'; Some (Inl (), s) } else Some (Inr (), s'))"
    using x(1) assms(2) by (simp add: hup_phase_def)
  show ?thesis
    unfolding eq by (simp add: phase_hup [OF x(3,2) assms(2,3) p] phase_next [OF x(3,2)])
qed

lemma error_phase_ok:
  assumes "I s" "op_at (pl s) (OpPtr a) = Some op" "op_state op = 2"
  obtains s' where "error_phase sys (OpPtr a) s = Some s'" "released (OpPtr a) s s'" "I s'"
proof -
  obtain err k where r: "sys_recvmsg sys (FD op) (kern s) = (err, k)" by (cases "sys_recvmsg sys (FD op) (kern s)")
  let ?s = "s\<lparr>kern := k\<rparr>"
  have i: "I ?s" using I_static [OF assms(1)] by simp
  have o: "op_at (pl ?s) (OpPtr a) = Some op" "op_poll op \<noteq> None" "op_state op \<noteq> 0"
    using assms(2,3) acks_set [OF assms] by simp_all
  have eq: "error_phase sys (OpPtr a) s =
      (if err \<noteq> Some (Errno EAGAIN) then appendHup sys (OpPtr a) ?s else op_release (OpPtr a) ?s)"
    using assms(2) r by (simp add: error_phase_def)
  have "\<exists>s'. error_phase sys (OpPtr a) s = Some s' \<and> released (OpPtr a) ?s s' \<and> I s'"
    unfolding eq by (cases "err \<noteq> Some (Errno EAGAIN)") (metis appendHup_ok [OF i o] op_release_ok [OF i o(1,3)])+
  then obtain s' where s': "error_phase sys (OpPtr a) s = Some s'" "released (OpPtr a) ?s s'" "I s'" by blast
  have "kept s ?s" by simp
  then show thesis using s' kept_released that by blast
qed

lemma write_phase_ok:
  assumes "I s" "op_at (pl s) (OpPtr a) = Some op" "op_state op = 2" "i < length (barriers (pl s))" "bars_ok (pl s)"
  shows "phase_ok a s (write_phase sys H i (OpPtr a) s)"
proof (cases "OnWrite op")
  case (Some h)
  then obtain s' where "call H h s = Some s'" "kept s s'" "I s'" using call_ok [OF assms(1-3)] by blast
  then show ?thesis using Some assms(2) phase_next [of s' s a "()"] by (simp add: write_phase_def)
next
  case nil: None
  show ?thesis
  proof (cases "Outputs op")
    case None
    then show ?thesis using nil assms(1,2) phase_next [of s s a "()"] by (simp add: write_phase_def)
  next
    case (Some h)
    obtain br where br: "barrier_at i (pl s) = Some br" "0 < bar_bs br" "bar_bs br \<le> bar_ivs br"
      using barrier_atE [OF assms(4,5)] .
    obtain bs z s1 where 1: "outputs H h (bar_bs br) s = Some ((bs, z), s1)" "kept s s1" "length bs \<le> bar_bs br"
      "\<forall>c\<in>set bs. 0 \<le> s_len c" "if bs = [] then I s1 else shown bs s1"
      using outputs_ok [OF assms(1-3) Some br(2)] by blast
    show ?thesis
    proof (cases "bs = []")
      case True
      then show ?thesis using nil Some assms(2) br(1) 1 phase_next [of s1 s a "()"] by (simp add: write_phase_def)
    next
      case False
      obtain op1 where op1: "op_at (pl s1) (OpPtr a) = Some op1" "op_state op1 = 2" "plain op1 = plain op"
        using kept_acks [OF assms(1) 1(2) assms(2,3)] .
      obtain g where g: "OutputAck op1 = Some g" and p: "op_poll op \<noteq> None"
        using acks_set [OF assms(1-3)] plain_sel(8) [OF op1(3)] Some by auto
      have l1: "shown bs s1" "length bs \<le> bar_ivs br" using False 1(3,5) br(3) by auto
      have K: "kernel_ok sys left" using kernel l1(1) by blast
      obtain n err bs' k where io: "iosend (sys_fstat sys) (sys_writev sys) (sys_sendmsg sys) (FD op1) bs (bar_ivs br)
          (False \<and> z) (kern s1) (out_heap s1) = Some ((n, err), bs', k)"
        by (rule iosend_outcome [OF kernel_okD(2,3) [OF K] 1(4) l1(2), of "sys_fstat sys" "FD op1" "False \<and> z" "kern s1" "out_heap s1"])
      obtain s2 where 2: "ack H g n (s1\<lparr>kern := k\<rparr>) = Some s2" "kept s1 s2" "I s2"
        using outputAck_ok [OF l1(1) op1(1,2) g io] by blast
      have k2: "kept s s2" using 1(2) 2(2) by (rule kept_trans)
      have eq: "write_phase sys H i (OpPtr a) s =
          (if err \<noteq> None then do { s \<leftarrow> appendHup sys (OpPtr a) s2; Some (Inl (), s) } else Some (Inr (), s2))"
        using nil Some assms(2) br(1) 1(1) False io g op1(1) 2(1) by (simp add: write_phase_def)
      show ?thesis
        unfolding eq by (simp add: phase_hup [OF 2(3) k2 assms(2,3) p] phase_next [OF 2(3) k2])
    qed
  qed
qed

lemma phase_okE:
  assumes "phase_ok a s x"
  obtains (hup) s' where "x = Some (Inl (), s')" "released (OpPtr a) s s'" "I s'"
  | (proceed) r s' where "x = Some (Inr r, s')" "kept s s'" "I s'"
proof -
  obtain r s' where "x = Some (r, s')" "I s'" "case r of Inl _ \<Rightarrow> released (OpPtr a) s s' | Inr _ \<Rightarrow> kept s s'"
    using assms by (auto simp: phase_ok_def)
  then show thesis using that by (cases r) simp_all
qed

lemma handle_ready_ok:
  assumes "I s" "op_at (pl s) (OpPtr a) = Some op" "op_state op = 2" "i < length (barriers (pl s))" "bars_ok (pl s)"
  obtains s' where "handle_ready sys H i (OpPtr a) evt s = Some s'" "released (OpPtr a) s s'" "I s'"
proof -
  let ?rd = "and evt EPOLLIN \<noteq> 0" and ?hp = "and evt (or EPOLLHUP EPOLLRDHUP) \<noteq> 0"
    and ?er = "and evt EPOLLERR \<noteq> 0" and ?wr = "and evt EPOLLOUT \<noteq> 0"
  have keep: "\<exists>op'. op_at (pl s') (OpPtr a) = Some op' \<and> op_state op' = 2 \<and> i < length (barriers (pl s')) \<and> bars_ok (pl s')"
    if "kept s s'" for s'
    using kept_acks [OF assms(1) that assms(2,3)] framed_bars [OF kept_framed [OF that]] assms(4,5) by metis
  have "phase_ok a s (if ?rd then read_phase sys H i (OpPtr a) s else Some (Inr 0, s))"
    by (simp add: read_phase_ok [OF assms] phase_next [OF assms(1) kept_refl])
  then show thesis
  proof (cases rule: phase_okE)
    case (hup s')
    then show thesis by (intro that [of s']) (simp_all add: handle_ready_def)
  next
    case r: (proceed tot s1)
    obtain op1 where op1: "op_at (pl s1) (OpPtr a) = Some op1" "op_state op1 = 2" "i < length (barriers (pl s1))"
      "bars_ok (pl s1)" using keep [OF r(2)] by blast
    have "phase_ok a s1 (if ?hp then hup_phase sys H i (OpPtr a) ?rd tot s1 else Some (Inr (), s1))"
      by (simp add: hup_phase_ok [OF r(3) op1] phase_next [OF r(3) kept_refl])
    then show thesis
    proof (cases rule: phase_okE)
      case (hup s')
      then show thesis using r kept_released [OF r(2)] by (intro that [of s']) (simp_all add: handle_ready_def)
    next
      case h: (proceed u s2)
      have k2: "kept s s2" using r(2) h(2) by (rule kept_trans)
      obtain op2 where op2: "op_at (pl s2) (OpPtr a) = Some op2" "op_state op2 = 2" "i < length (barriers (pl s2))"
        "bars_ok (pl s2)" using keep [OF k2] by blast
      show thesis
      proof (cases ?er)
        case True
        obtain s' where "error_phase sys (OpPtr a) s2 = Some s'" "released (OpPtr a) s2 s'" "I s'"
          using error_phase_ok [OF h(3) op2(1,2)] .
        then show thesis using r(1) h(1) True kept_released [OF k2] by (intro that [of s']) (simp_all add: handle_ready_def)
      next
        case False
        have "phase_ok a s2 (if ?wr then write_phase sys H i (OpPtr a) s2 else Some (Inr (), s2))"
          by (simp add: write_phase_ok [OF h(3) op2] phase_next [OF h(3) kept_refl])
        then show thesis
        proof (cases rule: phase_okE)
          case (hup s')
          then show thesis using r(1) h(1) False kept_released [OF k2] by (intro that [of s']) (simp_all add: handle_ready_def)
        next
          case w: (proceed v s3)
          have k3: "kept s s3" using k2 w(2) by (rule kept_trans)
          obtain op3 where "op_at (pl s3) (OpPtr a) = Some op3" "op_state op3 = 2" using keep [OF k3] by blast
          then have "op_at (pl s3) (OpPtr a) = Some op3" "op_state op3 \<noteq> 0" by simp_all
          then obtain s' where "op_release (OpPtr a) s3 = Some s'" "released (OpPtr a) s3 s'" "I s'"
            using op_release_ok [OF w(3)] by blast
          then show thesis using r(1) h(1) w(1) False kept_released [OF k3]
            by (intro that [of s']) (simp_all add: handle_ready_def)
        qed
      qed
    qed
  qed
qed

lemma wake_phase_ok:
  assumes "I s" "op_at (pl s) ptr = Some op" "poll_buf (pl s) \<noteq> []" "op_state op \<noteq> 0"
  obtains c s' where "wake_phase sys ptr s = Some (c, s')" "released ptr s s'" "I s'"
    "c = (0 < hd (case fst (sys_read8 sys (FD (wop (pl s))) (kern s)) of
       None \<Rightarrow> poll_buf (pl s) | Some bs \<Rightarrow> bs @ drop (length bs) (poll_buf (pl s))))"
proof -
  obtain got k where g: "sys_read8 sys (FD (wop (pl s))) (kern s) = (got, k)"
    by (cases "sys_read8 sys (FD (wop (pl s))) (kern s)")
  define b where "b = (case got of None \<Rightarrow> poll_buf (pl s) | Some bs \<Rightarrow> bs @ drop (length bs) (poll_buf (pl s)))"
  have b: "b \<noteq> []" using assms(3) by (cases got) (auto simp: b_def)
  define p where "p = (pl s)\<lparr>poll_buf := b, trigger := 0\<rparr>"
  have pe: "(case got of None \<Rightarrow> pl s | Some bs \<Rightarrow> (pl s)\<lparr>poll_buf := bs @ drop (length bs) (poll_buf (pl s))\<rparr>)\<lparr>trigger := 0\<rparr> = p"
    by (cases got) (simp_all add: p_def b_def)
  have any: "\<exists>s'. op_release ptr (s\<lparr>pl := p, kern := k'\<rparr>) = Some s' \<and> released ptr s s' \<and> I s'" for k'
  proof -
    let ?s = "s\<lparr>pl := p, kern := k'\<rparr>"
    have "static s ?s" by (simp add: static_def p_def)
    then have i: "I ?s" by (rule I_static [OF assms(1)])
    have "op_at (pl ?s) ptr = Some op" using assms(2) by (simp add: p_def)
    from op_release_ok [OF i this assms(4)] obtain s' where s': "op_release ptr ?s = Some s'" "released ptr ?s s'" "I s'" .
    have f: "framed s ?s" using b by (simp add: framed_def p_def)
    have "busy ?s = busy s" by (simp add: busy_def fun_eq_iff p_def)
    then show ?thesis using s' framed_trans [OF f, of s'] by (simp add: released_def p_def)
  qed
  obtain b0 bs where bb: "b = b0 # bs" using b by (cases b) auto
  have pb: "poll_buf p = b0 # bs" using bb by (simp add: p_def)
  let ?k = "snd (sys_close sys (poll_fd p) (snd (sys_close sys (FD (wop p)) k)))"
  have "wake_phase sys ptr s = (if 0 < b0 then do { s \<leftarrow> op_release ptr (s\<lparr>pl := p, kern := ?k\<rparr>); Some (True, s) }
      else do { s \<leftarrow> op_release ptr (s\<lparr>pl := p, kern := k\<rparr>); Some (False, s) })"
    unfolding wake_phase_def Let_def g case_prod_beta by (simp add: pe pb)
  moreover obtain s1 where "op_release ptr (s\<lparr>pl := p, kern := ?k\<rparr>) = Some s1" "released ptr s s1" "I s1" using any by blast
  moreover obtain s2 where "op_release ptr (s\<lparr>pl := p, kern := k\<rparr>) = Some s2" "released ptr s s2" "I s2" using any by blast
  moreover have "(case fst (got, k) of None \<Rightarrow> poll_buf (pl s) | Some bs \<Rightarrow> bs @ drop (length bs) (poll_buf (pl s))) = b"
    by (simp add: b_def)
  ultimately show thesis using g bb by (intro that [of "0 < b0" "if 0 < b0 then s1 else s2"]) (auto simp: g)
qed

lemma handle_event_ok:
  assumes "I s" "\<And>ptr. ev_data ev = Some ptr \<Longrightarrow> op_at (pl s) ptr \<noteq> None"
    "i < length (barriers (pl s))" "bars_ok (pl s)" "poll_buf (pl s) \<noteq> []"
  obtains c s' where "handle_event sys H i ev s = Some (c, s')" "served s s'" "I s'"
proof (cases "ev_data ev")
  case None
  then show thesis using assms(1) by (intro that [of False s]) (simp_all add: handle_event_def getOperator_def)
next
  case (Some ptr)
  then obtain op where op: "op_at (pl s) ptr = Some op" using assms(2) by auto
  show thesis
  proof (cases "op_state op = 1")
    case False
    then show thesis using assms(1) Some op
      by (intro that [of False s]) (simp_all add: handle_event_def getOperator_def op_do_def)
  next
    case True
    let ?op = "op\<lparr>op_state := 2\<rparr>" and ?s = "upd_op ptr (op\<lparr>op_state := 2\<rparr>) s"
    have p: "plain ?op = plain op" using True by (simp add: plain_def)
    have f: "framed s ?s" by (rule framed_upd_op [OF framed_refl op p])
    have i: "I ?s" using I_static [OF assms(1)] static_upd_op [OF static_refl op p] by blast
    have b: "\<not> busy s ptr" using op True by (simp add: busy_def)
    have rel: "served s s'" if "released ptr ?s s'" for s'
      using that b framed_trans [OF f] op True by (auto simp: released_def served_def fun_eq_iff wop_set_op op_at_def split: if_splits)
    have at: "op_at (pl ?s) ptr = Some ?op" by simp
    have eq: "handle_event sys H i ev s =
        (if FD ?op = FD (wop (pl ?s)) then wake_phase sys ptr ?s
         else do { s \<leftarrow> handle_ready sys H i ptr (ev_events ev) ?s; Some (False, s) })"
      using Some op True by (simp add: handle_event_def getOperator_def op_do_def)
    show thesis
    proof (cases "FD ?op = FD (wop (pl ?s))")
      case wake: True
      have "poll_buf (pl ?s) \<noteq> []" "op_state ?op \<noteq> 0" using assms(5) by simp_all
      from wake_phase_ok [OF i at this] obtain c s' where "wake_phase sys ptr ?s = Some (c, s')" "released ptr ?s s'" "I s'" .
      then show thesis using eq wake rel by (intro that [of c s']) simp_all
    next
      case False
      then obtain a where a: "ptr = OpPtr a" by (cases ptr) (auto simp: set_op_def)
      have l: "i < length (barriers (pl ?s))" "bars_ok (pl ?s)" using assms(3,4) by (simp_all add: bars_ok_def)
      obtain s' where "handle_ready sys H i ptr (ev_events ev) ?s = Some s'" "released ptr ?s s'" "I s'"
        using handle_ready_ok [of ?s a ?op i "ev_events ev"] i at l a by auto
      then show thesis using eq False rel by (intro that [of False s']) simp_all
    qed
  qed
qed

lemma handle_events_ok:
  assumes "I s" "\<forall>ev\<in>set evs. \<forall>ptr. ev_data ev = Some ptr \<longrightarrow> op_at (pl s) ptr \<noteq> None"
    "i + length evs \<le> length (barriers (pl s))" "bars_ok (pl s)" "poll_buf (pl s) \<noteq> []"
  shows "\<exists>c s'. handle_events sys H i evs s = Some (c, s') \<and> served s s' \<and> I s'"
  using assms
proof (induction evs arbitrary: i s)
  case (Cons ev evs)
  obtain c s1 where 1: "handle_event sys H i ev s = Some (c, s1)" "served s s1" "I s1"
    using handle_event_ok [OF Cons.prems(1) _ _ Cons.prems(4,5), of ev i] Cons.prems(2,3) by auto
  show ?case
  proof (cases c)
    case True
    then show ?thesis using 1 by (intro exI [of _ True] exI [of _ s1]) simp
  next
    case False
    have f: "framed s s1" using 1(2) by (simp add: served_def)
    have e: "\<forall>ev\<in>set evs. \<forall>ptr. ev_data ev = Some ptr \<longrightarrow> op_at (pl s1) ptr \<noteq> None"
      using Cons.prems(2) f by (simp add: framed_def)
    have "Suc i + length evs \<le> length (barriers (pl s1))" "bars_ok (pl s1)" "poll_buf (pl s1) \<noteq> []"
      using Cons.prems(3-5) f framed_bars [OF f] by (simp_all add: framed_def)
    then obtain c' s' where "handle_events sys H (Suc i) evs s1 = Some (c', s')" "served s1 s'" "I s'"
      using Cons.IH [OF 1(3) e] by blast
    then show ?thesis using 1 False served_trans [OF 1(2)] by simp
  qed
qed auto

lemma onhups_ok: "I s \<Longrightarrow> I (onhups s)" "framed s' (onhups s) = framed s' s" "busy (onhups s) = busy s" "opcache (pl (onhups s)) = opcache (pl s)"
proof -
  have "static s (onhups s)" by (simp add: onhups_def static_def)
  then show "I s \<Longrightarrow> I (onhups s)" by (metis I_static)
qed (simp_all add: onhups_def framed_def busy_def fun_eq_iff)

lemma poll_handler_ok:
  assumes "I s" "\<forall>ev\<in>set evs. \<forall>ptr. ev_data ev = Some ptr \<longrightarrow> op_at (pl s) ptr \<noteq> None"
    "length evs \<le> length (barriers (pl s))" "bars_ok (pl s)" "poll_buf (pl s) \<noteq> []"
  shows "\<exists>c s'. poll_handler sys H evs s = Some (c, s') \<and> I s' \<and> framed s s' \<and> busy s' = busy s"
proof -
  obtain c s1 where "handle_events sys H 0 evs s = Some (c, s1)" "served s s1" "I s1"
    using handle_events_ok [OF assms(1,2) _ assms(4,5), of 0] assms(3) by auto
  then show ?thesis
    by (cases c) (auto simp: poll_handler_def served_def onhups_ok)
qed

text \<open>One round of \<^verbatim>\<open>Wait\<close>.\<close>

definition round_ok :: "opptr set \<Rightarrow> ('h, 'k, 'z) pstate_scheme \<Rightarrow> bool" where
  "round_ok R s \<longleftrightarrow> I s \<and> args_ok (pl s) \<and> poll_buf (pl s) \<noteq> [] \<and> (\<forall>ptr\<in>R. op_at (pl s) ptr \<noteq> None)"

lemma round_framed: "round_ok R s \<Longrightarrow> framed s s' \<Longrightarrow> I s' \<Longrightarrow> round_ok R s'"
  using framed_args [of s s'] by (auto simp: round_ok_def framed_def)

lemma wait_round_ok:
  assumes "round_ok R s" "epoll_ok sys R"
  shows "\<exists>r s'. wait_round sys H l s = Some (r, s') \<and> round_ok R s' \<and> busy s' = busy s"
proof -
  obtain msec n where l: "l = (msec, n)" by (cases l)
  let ?s = "s\<lparr>pl := grow_args n (pl s)\<rparr>"
  have pl: "(if n = args_size (pl s) \<and> args_size (pl s) < 128 * 1024
      then s\<lparr>pl := poll_reset (args_size (pl s) * 2) barriercap (pl s)\<rparr> else s) = ?s"
    by (simp add: grow_args_def)
  have ops: "op_at (grow_args n p) q = op_at p q" "opcache (grow_args n p) = opcache p" "poll_buf (grow_args n p) = poll_buf p" for q p
    by (simp_all add: grow_args_def poll_reset_def op_at_def split: opptr.splits)
  obtain r k where w: "EpollWait sys (poll_fd (pl ?s)) (args_events (pl ?s)) msec (kern s) = (r, k)"
    by (cases "EpollWait sys (poll_fd (pl ?s)) (args_events (pl ?s)) msec (kern s)")
  let ?t = "?s\<lparr>kern := k\<rparr>"
  have st: "static s ?t" by (simp add: static_def ops)
  have t: "round_ok R ?t"
    using assms(1) I_static [OF _ st] args_ok_grow [of "pl s" n] by (simp add: round_ok_def ops)
  have b: "busy ?t = busy s" by (simp add: busy_def fun_eq_iff ops)
  have eq: "wait_round sys H l s = (case r of
         Inl e \<Rightarrow> if e \<noteq> EINTR then Some (Inl (Some (Errno e)), ?t) else Some (Inr (-1, -1), ?t)
       | Inr evs \<Rightarrow>
           if evs = [] then Some (Inr (-1, 0), ?t)
           else do {
             (closed, s) \<leftarrow> poll_handler sys H evs ?t;
             if closed then Some (Inl None, s)
             else do {
               c \<leftarrow> cache_free (opcache (pl s));
               Some (Inr (0, int (length evs)), s\<lparr>pl := (pl s)\<lparr>opcache := c\<rparr>\<rparr>)
             }
           })"
    unfolding wait_round_def l Let_def case_prod_conv pl using w by simp
  show ?thesis
  proof (cases r)
    case (Inl e)
    then show ?thesis unfolding eq using t b by (cases "e = EINTR") auto
  next
    case (Inr evs)
    have ep: "int (length evs) \<le> args_events (pl ?t)" "\<forall>ev\<in>set evs. \<forall>ptr. ev_data ev = Some ptr \<longrightarrow> ptr \<in> R"
      using assms(2) w Inr unfolding epoll_ok_def by fastforce+
    have e: "\<forall>ev\<in>set evs. \<forall>ptr. ev_data ev = Some ptr \<longrightarrow> op_at (pl ?t) ptr \<noteq> None"
      "length evs \<le> length (barriers (pl ?t))" "bars_ok (pl ?t)" "poll_buf (pl ?t) \<noteq> []" "I ?t"
      using ep t args_ok_bars [of "pl ?t"] by (auto simp: round_ok_def)
    obtain c s1 where h: "poll_handler sys H evs ?t = Some (c, s1)" "I s1" "framed ?t s1" "busy s1 = busy ?t"
      using poll_handler_ok [OF e(5) e(1-4)] by blast
    have 1: "round_ok R s1" by (rule round_framed [OF t h(3,2)])
    obtain d where d: "cache_free (opcache (pl s1)) = Some d" "I (s1\<lparr>pl := (pl s1)\<lparr>opcache := d\<rparr>\<rparr>)"
      using I_free [OF h(2)] by blast
    have 2: "round_ok R (s1\<lparr>pl := (pl s1)\<lparr>opcache := d\<rparr>\<rparr>)" by (rule round_framed [OF 1 cache_free_busy(2) [OF d(1)] d(2)])
    have 3: "busy (s1\<lparr>pl := (pl s1)\<lparr>opcache := d\<rparr>\<rparr>) = busy s" using cache_free_busy(1) [OF d(1)] h(4) b by simp
    show ?thesis
      unfolding eq Inr using h(1,4) d(1) t b 1 2 3 by (cases "evs = []"; cases c) auto
  qed
qed

text \<open>
  When the message of \<^verbatim>\<open>Close\<close> is in the event descriptor and its event is reported, the poller stops.
\<close>

lemma handle_event_closes:
  assumes "I s" "ev_data ev = Some WopPtr" "op_state (wop (pl s)) = 1" "poll_buf (pl s) \<noteq> []"
    "\<forall>k. \<exists>b bs. fst (sys_read8 sys (FD (wop (pl s))) k) = Some (b # bs) \<and> 0 < b"
  obtains s' where "handle_event sys H i ev s = Some (True, s')"
proof -
  let ?op = "(wop (pl s))\<lparr>op_state := 2\<rparr>" and ?s = "upd_op WopPtr ((wop (pl s))\<lparr>op_state := 2\<rparr>) s"
  have at: "op_at (pl s) WopPtr = Some (wop (pl s))" by (simp add: op_at_def)
  have "plain ?op = plain (wop (pl s))" using assms(3) by (simp add: plain_def)
  then have i: "I ?s" using I_static [OF assms(1)] static_upd_op [OF static_refl at] by blast
  have fd: "wop (pl ?s) = ?op" by (simp add: wop_set_op)
  have pb: "poll_buf (pl ?s) \<noteq> []" and oa: "op_at (pl ?s) WopPtr = Some ?op" using assms(4) by simp_all
  obtain c s' where w: "wake_phase sys WopPtr ?s = Some (c, s')"
    "c = (0 < hd (case fst (sys_read8 sys (FD (wop (pl ?s))) (kern ?s)) of
       None \<Rightarrow> poll_buf (pl ?s) | Some bs \<Rightarrow> bs @ drop (length bs) (poll_buf (pl ?s))))"
    by (rule wake_phase_ok [OF i oa pb]) (simp, blast)
  obtain b bs where "fst (sys_read8 sys (FD (wop (pl s))) (kern s)) = Some (b # bs)" "0 < b" using assms(5) by blast
  then have "c" using w(2) by (simp add: wop_set_op)
  moreover have "handle_event sys H i ev s = wake_phase sys WopPtr ?s"
    using assms(2,3) at fd by (simp add: handle_event_def getOperator_def op_do_def)
  ultimately show thesis using w(1) that by simp
qed

lemma handle_events_close:
  assumes "I s" "\<forall>ev\<in>set evs. \<forall>ptr. ev_data ev = Some ptr \<longrightarrow> op_at (pl s) ptr \<noteq> None"
    "i + length evs \<le> length (barriers (pl s))" "bars_ok (pl s)" "poll_buf (pl s) \<noteq> []"
    "\<exists>ev\<in>set evs. ev_data ev = Some WopPtr" "op_state (wop (pl s)) = 1"
    "\<forall>k. \<exists>b bs. fst (sys_read8 sys (FD (wop (pl s))) k) = Some (b # bs) \<and> 0 < b"
  shows "\<exists>s'. handle_events sys H i evs s = Some (True, s')"
  using assms
proof (induction evs arbitrary: i s)
  case (Cons ev evs)
  show ?case
  proof (cases "ev_data ev = Some WopPtr")
    case True
    obtain s1 where "handle_event sys H i ev s = Some (True, s1)"
      by (rule handle_event_closes [OF Cons.prems(1) True Cons.prems(7,5,8)])
    then show ?thesis by simp
  next
    case False
    obtain c s1 where 1: "handle_event sys H i ev s = Some (c, s1)" "served s s1" "I s1"
      using handle_event_ok [OF Cons.prems(1) _ _ Cons.prems(4,5), of ev i] Cons.prems(2,3) by auto
    have f: "framed s s1" "op_state (wop (pl s1)) = 1" using 1(2) Cons.prems(7) by (simp_all add: served_def)
    have fd: "FD (wop (pl s1)) = FD (wop (pl s))" using f(1) plain_sel(1) by (auto simp: framed_def)
    have "\<exists>s'. handle_events sys H (Suc i) evs s1 = Some (True, s')"
    proof (rule Cons.IH [OF 1(3)])
      show "\<forall>ev\<in>set evs. \<forall>ptr. ev_data ev = Some ptr \<longrightarrow> op_at (pl s1) ptr \<noteq> None"
        using Cons.prems(2) f(1) by (simp add: framed_def)
      show "Suc i + length evs \<le> length (barriers (pl s1))" "bars_ok (pl s1)" "poll_buf (pl s1) \<noteq> []"
        using Cons.prems(3-5) f(1) framed_bars [OF f(1)] by (simp_all add: framed_def)
      show "\<exists>ev\<in>set evs. ev_data ev = Some WopPtr" using Cons.prems(6) False by auto
      show "op_state (wop (pl s1)) = 1" by (rule f(2))
      show "\<forall>k. \<exists>b bs. fst (sys_read8 sys (FD (wop (pl s1))) k) = Some (b # bs) \<and> 0 < b"
        using Cons.prems(8) fd by simp
    qed
    then show ?thesis using 1(1) by (cases c) simp_all
  qed
qed simp

lemma wait_round_stops:
  assumes "round_ok R s" "epoll_ok sys R" "op_state (wop (pl s)) = 1" "l = (msec, n)"
    "\<forall>k. \<exists>b bs. fst (sys_read8 sys (FD (wop (pl s))) k) = Some (b # bs) \<and> 0 < b"
    "EpollWait sys (poll_fd (pl s)) (args_events (grow_args n (pl s))) msec (kern s) = (Inr evs, k)"
    "\<exists>ev\<in>set evs. ev_data ev = Some WopPtr"
  shows "\<exists>s'. wait_round sys H l s = Some (Inl None, s')"
proof -
  let ?t = "s\<lparr>pl := grow_args n (pl s), kern := k\<rparr>"
  have pl: "(if n = args_size (pl s) \<and> args_size (pl s) < 128 * 1024
      then s\<lparr>pl := poll_reset (args_size (pl s) * 2) barriercap (pl s)\<rparr> else s) = s\<lparr>pl := grow_args n (pl s)\<rparr>"
    by (simp add: grow_args_def)
  have ops: "op_at (grow_args n p) q = op_at p q" "opcache (grow_args n p) = opcache p" "poll_buf (grow_args n p) = poll_buf p"
    "wop (grow_args n p) = wop p" "poll_fd (grow_args n p) = poll_fd p" for q p
    by (simp_all add: grow_args_def poll_reset_def op_at_def split: opptr.splits)
  have st: "static s ?t" by (simp add: static_def ops)
  have t: "round_ok R ?t"
    using assms(1) I_static [OF _ st] args_ok_grow [of "pl s" n] by (simp add: round_ok_def ops)
  have ep: "int (length evs) \<le> args_events (pl ?t)" "\<forall>ev\<in>set evs. \<forall>ptr. ev_data ev = Some ptr \<longrightarrow> ptr \<in> R"
    using assms(2,6) unfolding epoll_ok_def by fastforce+
  have e: "\<forall>ev\<in>set evs. \<forall>ptr. ev_data ev = Some ptr \<longrightarrow> op_at (pl ?t) ptr \<noteq> None"
    "0 + length evs \<le> length (barriers (pl ?t))" "bars_ok (pl ?t)" "poll_buf (pl ?t) \<noteq> []" "I ?t"
    using ep t args_ok_bars [of "pl ?t"] by (auto simp: round_ok_def)
  obtain s' where "handle_events sys H 0 evs ?t = Some (True, s')"
    using handle_events_close [OF e(5) e(1-4) assms(7)] assms(3,5) by (auto simp: ops)
  moreover have "evs \<noteq> []" using assms(7) by auto
  moreover have "wait_round sys H l s = (if evs = [] then Some (Inr (-1, 0), ?t)
           else do {
             (closed, s) \<leftarrow> poll_handler sys H evs ?t;
             if closed then Some (Inl None, s)
             else do {
               c \<leftarrow> cache_free (opcache (pl s));
               Some (Inr (0, int (length evs)), s\<lparr>pl := (pl s)\<lparr>opcache := c\<rparr>\<rparr>)
             }
           })"
    unfolding wait_round_def assms(4) Let_def case_prod_conv pl using assms(6) by (simp add: ops)
  ultimately show ?thesis by (simp add: poll_handler_def)
qed

end

subsection \<open>Wake-ups\<close>

fun triggers :: "'k sys \<Rightarrow> nat \<Rightarrow> ('h, 'k, 'z) pstate_scheme \<Rightarrow> ('h, 'k, 'z) pstate_scheme" where
  "triggers sys 0 s = s"
| "triggers sys (Suc n) s = triggers sys n (snd (poll_Trigger sys s))"

lemma triggers_quiet:
  assumes "0 < unat (trigger (pl s))" "unat (trigger (pl s)) + n < 2 ^ 32"
  shows "triggers sys n s = s\<lparr>pl := (pl s)\<lparr>trigger := trigger (pl s) + of_nat n\<rparr>\<rparr>"
  using assms
proof (induction n arbitrary: s)
  case (Suc n)
  let ?t = "trigger (pl s)"
  have u: "unat (?t + 1) = unat ?t + 1"
    using Suc.prems(2) by (simp add: unat_word_ariths)
  then have g: "1 < ?t + 1" using Suc.prems(1) by (simp add: word_less_nat_alt)
  then have "snd (poll_Trigger sys s) = s\<lparr>pl := (pl s)\<lparr>trigger := ?t + 1\<rparr>\<rparr>"
    by (simp add: poll_Trigger_def Let_def)
  then show ?case using Suc.IH [of "s\<lparr>pl := (pl s)\<lparr>trigger := ?t + 1\<rparr>\<rparr>"] Suc.prems u by (simp add: algebra_simps)
qed simp

text \<open>
  C25: \<^verbatim>\<open>Trigger\<close>. Between two wake-ups of the poller, whatever the number of calls below 2 to the power
  of 32, the event descriptor is written once.
\<close>
theorem Trigger_writes_once:
  assumes "trigger (pl s) = 0" "0 < n" "n < 2 ^ 32"
  shows "kern (triggers sys n s) = snd (sys_write8 sys (FD (wop (pl s))) [0, 0, 0, 0, 0, 0, 0, 1] (kern s))"
proof -
  obtain j where j: "n = Suc j" using assms(2) by (cases n) auto
  let ?k = "snd (sys_write8 sys (FD (wop (pl s))) [0, 0, 0, 0, 0, 0, 0, 1] (kern s))"
  let ?s = "s\<lparr>pl := (pl s)\<lparr>trigger := 1\<rparr>, kern := ?k\<rparr>"
  have "snd (poll_Trigger sys s) = ?s" using assms(1) by (simp add: poll_Trigger_def Let_def case_prod_beta)
  moreover have "triggers sys j ?s = ?s\<lparr>pl := (pl ?s)\<lparr>trigger := trigger (pl ?s) + of_nat j\<rparr>\<rparr>"
    using assms(3) j by (intro triggers_quiet) simp_all
  ultimately show ?thesis using j by simp
qed

end
