(* ===== verification/Connection.thy ===== *)
theory Connection
  imports Poll
begin

section \<open>Connections (connection\_impl.go, connection\_reactor.go)\<close>

text \<open>
  A connection reads from its input buffer, which the poller fills, and writes to its output
  buffer, which it sends itself and, when the socket is full, the poller. The state is that of the
  poller, extended by the connection.

  Blocking operations take the moves of the other goroutines as a script: \<open>Other f\<close> is what another
  goroutine does while this one is blocked, \<open>Fire\<close> the timer of this operation. An operation is
  \<open>None\<close> when it panics or is still blocked at the end of its script; it returns the rest of the
  script.

  Callbacks of the user are values of a type \<open>'f\<close>. The handlers of the connection's operator are its
  methods.
\<close>

subsection \<open>State\<close>

datatype conn_handler = COnHup | CInputs | CInputAck | COutputs | COutputAck

text \<open>Close callbacks: the finalizer, the one of the server that forgets the descriptor, and those of the user.\<close>

datatype 'f callback = Finalizer | DeleteConn int | UserCallback 'f

definition connStateNone :: i32 where "connStateNone = 0"
definition connStateConnected :: i32 where "connStateConnected = 1"
definition connStateDisconnected :: i32 where "connStateDisconnected = 2"

record 'f connection = locker +
  c_fd :: int
  c_network :: string
  c_remote :: string
  c_closed :: "32 word"
  detaching :: bool
  ctx_set :: bool
  onConnectCallback :: "'f option"
  onDisconnectCallback :: "'f option"
  onRequestCallback :: "'f option"
  closeCallbacks :: "'f callback list"
  c_operator :: addr
  readTimeout :: int
  readTrigger :: "error option list"
  waitReadSize :: int
  writeTimeout :: int
  writeTrigger :: "error option list"
  inputBuffer :: LinkBuffer
  outputBuffer :: LinkBuffer
  outputBarrier :: barrier
  supportZeroCopy :: bool
  maxSize :: int
  bookSize :: int
  c_state :: i32

text \<open>A task that was given to \<^verbatim>\<open>runner.RunTask\<close>: the callbacks it is to run.\<close>

record 'f task =
  t_onConnect :: "'f option"
  t_onRequest :: "'f option"

record ('f, 'k) cstate = "(conn_handler, 'k) pstate" +
  conn :: "'f connection"
  tasks :: "'f task list"
  barrierPool :: "barrier list"
  connections :: "int \<rightharpoonup> nat"

text \<open>\<open>connections\<close> is the map of the server from descriptors to connections, which \<^verbatim>\<open>DeleteConn\<close> changes.\<close>

definition upd_conn :: "('f connection \<Rightarrow> 'f connection) \<Rightarrow> ('f, 'k) cstate \<Rightarrow> ('f, 'k) cstate" where
  "upd_conn f s = s\<lparr>conn := f (conn s)\<rparr>"

definition set_input :: "LinkBuffer \<Rightarrow> world \<Rightarrow> ('f, 'k) cstate \<Rightarrow> ('f, 'k) cstate" where
  "set_input b w s = s\<lparr>in_heap := w, conn := (conn s)\<lparr>inputBuffer := b\<rparr>\<rparr>"

definition set_output :: "LinkBuffer \<Rightarrow> world \<Rightarrow> ('f, 'k) cstate \<Rightarrow> ('f, 'k) cstate" where
  "set_output b w s = s\<lparr>out_heap := w, conn := (conn s)\<lparr>outputBuffer := b\<rparr>\<rparr>"

datatype 's move = Other "'s \<Rightarrow> 's" | Fire

subsection \<open>Small operations\<close>

definition IsActive :: "'f connection \<Rightarrow> bool" where
  "IsActive c = isCloseBy none c"

definition SetReadTimeout :: "int \<Rightarrow> 'f connection \<Rightarrow> 'f connection" where
  "SetReadTimeout t c = (if t \<ge> 0 then c\<lparr>readTimeout := t\<rparr> else c)"

definition SetWriteTimeout :: "int \<Rightarrow> 'f connection \<Rightarrow> 'f connection" where
  "SetWriteTimeout t c = (if t \<ge> 0 then c\<lparr>writeTimeout := t\<rparr> else c)"

definition getState :: "'f connection \<Rightarrow> i32" where
  "getState c = c_state c"

definition setState :: "i32 \<Rightarrow> 'f connection \<Rightarrow> 'f connection" where
  "setState v c = c\<lparr>c_state := v\<rparr>"

definition changeState :: "i32 \<Rightarrow> i32 \<Rightarrow> 'f connection \<Rightarrow> bool \<times> 'f connection" where
  "changeState old new c = (if c_state c = old then (True, c\<lparr>c_state := new\<rparr>) else (False, c))"

text \<open>The triggers are channels with room for one value; a value that finds no room is dropped.\<close>

definition triggerRead :: "error option \<Rightarrow> 'f connection \<Rightarrow> 'f connection" where
  "triggerRead err c = (if length (readTrigger c) < 1 then c\<lparr>readTrigger := readTrigger c @ [err]\<rparr> else c)"

definition triggerWrite :: "error option \<Rightarrow> 'f connection \<Rightarrow> 'f connection" where
  "triggerWrite err c = (if length (writeTrigger c) < 1 then c\<lparr>writeTrigger := writeTrigger c @ [err]\<rparr> else c)"

subsection \<open>Waiting for input\<close>

text \<open>\<^verbatim>\<open><-c.readTrigger\<close>.\<close>

fun recv_read ::
    "('f, 'k) cstate move list \<Rightarrow> ('f, 'k) cstate \<Rightarrow>
     (error option \<times> ('f, 'k) cstate move list \<times> ('f, 'k) cstate) option" where
  "recv_read env s =
     (case readTrigger (conn s) of
        e # es \<Rightarrow> Some (e, env, upd_conn (\<lambda>c. c\<lparr>readTrigger := es\<rparr>) s)
      | [] \<Rightarrow> (case env of
                [] \<Rightarrow> None
              | Fire # ms \<Rightarrow> recv_read ms s
              | Other f # ms \<Rightarrow> recv_read ms (f s)))"

text \<open>
  The \<^verbatim>\<open>select\<close> on the timer and the trigger: \<open>None\<close> in the result is the timer. When both are ready
  either may be taken, so a \<open>Fire\<close> that is next in the script wins over a value in the trigger.
\<close>

fun select_read ::
    "('f, 'k) cstate move list \<Rightarrow> ('f, 'k) cstate \<Rightarrow>
     (error option option \<times> ('f, 'k) cstate move list \<times> ('f, 'k) cstate) option" where
  "select_read (Fire # ms) s = Some (None, ms, s)"
| "select_read env s =
     (case readTrigger (conn s) of
        e # es \<Rightarrow> Some (Some e, env, upd_conn (\<lambda>c. c\<lparr>readTrigger := es\<rparr>) s)
      | [] \<Rightarrow> (case env of
                [] \<Rightarrow> None
              | Other f # ms \<Rightarrow> select_read ms (f s)
              | Fire # ms \<Rightarrow> None))"

definition wait_measure :: "('f, 'k) cstate move list \<Rightarrow> ('f, 'k) cstate \<Rightarrow> nat \<times> nat" where
  "wait_measure env s = (length env, length (readTrigger (conn s)))"

lemma recv_read_measure:
  "recv_read env s = Some (e, env', s') \<Longrightarrow> (wait_measure env' s', wait_measure env s) \<in> less_than <*lex*> less_than"
proof (induction env s arbitrary: e env' s' rule: recv_read.induct)
  case (1 env s)
  show ?case
  proof (cases "readTrigger (conn s)")
    case (Cons e es)
    then show ?thesis using "1.prems" by (auto simp: wait_measure_def upd_conn_def)
  next
    case Nil
    then show ?thesis
    proof (cases env)
      case (Cons m ms)
      then show ?thesis using Nil "1.prems" "1.IH" by (cases m) (fastforce simp: wait_measure_def)+
    qed (use "1.prems" Nil in simp)
  qed
qed

lemma select_read_measure:
  "select_read env s = Some (Some e, env', s') \<Longrightarrow>
     (wait_measure env' s', wait_measure env s) \<in> less_than <*lex*> less_than"
proof (induction env arbitrary: s e env' s')
  case Nil
  then show ?case by (cases "readTrigger (conn s)") (auto simp: wait_measure_def upd_conn_def)
next
  case (Cons m ms)
  show ?case
  proof (cases m)
    case (Other f)
    then show ?thesis
      using Cons.prems Cons.IH [of "f s" e env' s']
      by (cases "readTrigger (conn s)") (auto simp: wait_measure_def upd_conn_def)
  qed (use Cons.prems in simp)
qed

declare recv_read.simps [simp del] select_read.simps [simp del]

definition closed_error :: "who \<Rightarrow> error option" where
  "closed_error w =
     (if w = poller then Some (Exc ErrEOF ''wait read'')
      else if w = user then Some (Exc ErrConnClosed ''wait read'') else None)"

function waitRead_loop ::
    "('f, 'k) cstate move list \<Rightarrow> int \<Rightarrow> ('f, 'k) cstate \<Rightarrow>
     (error option \<times> ('f, 'k) cstate move list \<times> ('f, 'k) cstate) option" where
  "waitRead_loop env n s =
     (if lb_Len (inputBuffer (conn s)) < n
      then (case closed_error (status closing (conn s)) of
              Some e \<Rightarrow> Some (Some e, env, s)
            | None \<Rightarrow>
                (case recv_read env s of
                   None \<Rightarrow> None
                 | Some (err, env, s) \<Rightarrow>
                     if err \<noteq> None then Some (err, env, s) else waitRead_loop env n s))
      else Some (None, env, s))"
  by pat_completeness auto
termination
  by (relation "inv_image (less_than <*lex*> less_than) (\<lambda>(env, n, s). wait_measure env s)")
    (auto dest: recv_read_measure)

function waitRead_timeout_loop ::
    "('f, 'k) cstate move list \<Rightarrow> int \<Rightarrow> ('f, 'k) cstate \<Rightarrow>
     (error option \<times> ('f, 'k) cstate move list \<times> ('f, 'k) cstate) option" where
  "waitRead_timeout_loop env n s =
     (if lb_Len (inputBuffer (conn s)) < n
      then (case closed_error (status closing (conn s)) of
              Some e \<Rightarrow> Some (Some e, env, s)
            | None \<Rightarrow>
                (case select_read env s of
                   None \<Rightarrow> None
                 | Some (None, env, s) \<Rightarrow>
                     if lb_Len (inputBuffer (conn s)) \<ge> n then Some (None, env, s)
                     else Some (Some (Exc ErrReadTimeout (c_remote (conn s))), env, s)
                 | Some (Some err, env, s) \<Rightarrow>
                     if err \<noteq> None then Some (err, env, s) else waitRead_timeout_loop env n s))
      else Some (None, env, s))"
  by pat_completeness auto
termination
  by (relation "inv_image (less_than <*lex*> less_than) (\<lambda>(env, n, s). wait_measure env s)")
    (auto dest: select_read_measure)

definition waitReadWithTimeout ::
    "('f, 'k) cstate move list \<Rightarrow> int \<Rightarrow> ('f, 'k) cstate \<Rightarrow>
     (error option \<times> ('f, 'k) cstate move list \<times> ('f, 'k) cstate) option" where
  "waitReadWithTimeout env n s = waitRead_timeout_loop env n s"

definition waitRead ::
    "('f, 'k) cstate move list \<Rightarrow> int \<Rightarrow> ('f, 'k) cstate \<Rightarrow>
     (error option \<times> ('f, 'k) cstate move list \<times> ('f, 'k) cstate) option" where
  "waitRead env n s =
     (if n \<le> lb_Len (inputBuffer (conn s)) then Some (None, env, s)
      else do {
        let s = upd_conn (\<lambda>c. c\<lparr>waitReadSize := n\<rparr>) s;
        (err, env, s) \<leftarrow>
          (if readTimeout (conn s) > 0 then waitReadWithTimeout env n s else waitRead_loop env n s);
        Some (err, env, upd_conn (\<lambda>c. c\<lparr>waitReadSize := 0\<rparr>) s)
      })"

declare waitRead_loop.simps [simp del] waitRead_timeout_loop.simps [simp del]

subsection \<open>The reader\<close>

text \<open>What the reading operations share: wait for \<open>n\<close> bytes, then work on the input buffer.\<close>

definition conn_read ::
    "('f, 'k) cstate move list \<Rightarrow> int \<Rightarrow> (LinkBuffer \<Rightarrow> world \<Rightarrow> (error + 'a) lb_result) \<Rightarrow> ('f, 'k) cstate \<Rightarrow>
     ((error + 'a) \<times> ('f, 'k) cstate move list \<times> ('f, 'k) cstate) option" where
  "conn_read env n f s =
     do {
       (err, env, s) \<leftarrow> waitRead env n s;
       case err of
         Some e \<Rightarrow> Some (Inl e, env, s)
       | None \<Rightarrow> do { (r, b, w) \<leftarrow> f (inputBuffer (conn s)) (in_heap s); Some (r, env, set_input b w s) }
     }"

definition conn_Next where "conn_Next g env n s = conn_read env n (lb_Next g n) s"

definition conn_Peek where "conn_Peek g env n s = conn_read env n (lb_Peek g n) s"

definition conn_Skip where
  "conn_Skip env n s =
     conn_read env n (\<lambda>b w. do {
       (err, b, w) \<leftarrow> lb_Skip n b w;
       Some (case err of Some e \<Rightarrow> Inl e | None \<Rightarrow> Inr (), b, w) }) s"

definition conn_Slice where "conn_Slice g env n s = conn_read env n (lb_Slice g n) s"

definition conn_ReadString where "conn_ReadString g env n s = conn_read env n (lb_ReadString g n) s"

definition conn_ReadBinary where "conn_ReadBinary g env n s = conn_read env n (lb_ReadBinary g n) s"

definition conn_ReadByte where "conn_ReadByte env s = conn_read env 1 lb_ReadByte s"

definition conn_Len :: "('f, 'k) cstate \<Rightarrow> int" where
  "conn_Len s = lb_Len (inputBuffer (conn s))"

text \<open>
  \<^verbatim>\<open>Until\<close>: \<open>fuel\<close> bounds the rounds of its loop; each round after the first waits for more input.
\<close>

fun conn_Until ::
    "nat \<Rightarrow> globals \<Rightarrow> ('f, 'k) cstate move list \<Rightarrow> byte \<Rightarrow> int \<Rightarrow> ('f, 'k) cstate \<Rightarrow>
     ((slice \<times> error option) \<times> ('f, 'k) cstate move list \<times> ('f, 'k) cstate) option" where
  "conn_Until 0 g env delim n s = None"
| "conn_Until (Suc fuel) g env delim n s =
     do {
       (err, env, s) \<leftarrow> waitRead env (n + 1) s;
       case err of
         Some e \<Rightarrow>
           do {
             (r, b, w) \<leftarrow> lb_Next g (lb_Len (inputBuffer (conn s))) (inputBuffer (conn s)) (in_heap s);
             Some ((case r of Inl _ \<Rightarrow> nil_slice | Inr line \<Rightarrow> line, Some e), env, set_input b w s)
           }
       | None \<Rightarrow>
           do {
             let l = lb_Len (inputBuffer (conn s));
             i \<leftarrow> lb_indexByte delim n (inputBuffer (conn s)) (in_heap s);
             if i < 0 then conn_Until fuel g env delim l s
             else do {
               (r, env, s) \<leftarrow> conn_Next g env (i + 1) s;
               Some ((case r of Inl e \<Rightarrow> (nil_slice, Some e) | Inr line \<Rightarrow> (line, None)), env, s)
             }
           }
     }"

text \<open>\<^verbatim>\<open>Release\<close> also resizes the tail of an empty input buffer, when the poller is not at work on it.\<close>

definition resize_input ::
    "globals \<Rightarrow> ('f, 'k) cstate \<Rightarrow> ('f, 'k) cstate option" where
  "resize_input g s =
     do {
       size0 \<leftarrow> lb_calcMaxSize (inputBuffer (conn s)) (in_heap s);
       let size1 = (if size0 > mallocMax then mallocMax else size0);
       let s = (if size1 > maxSize (conn s) then upd_conn (\<lambda>c. c\<lparr>maxSize := size1\<rparr>) s else s);
       if lb_Len (inputBuffer (conn s)) = 0
       then do {
         (b, w) \<leftarrow> lb_resetTail g (maxSize (conn s)) (inputBuffer (conn s)) (in_heap s);
         Some (set_input b w s)
       }
       else Some s
     }"

definition conn_Release :: "globals \<Rightarrow> ('f, 'k) cstate \<Rightarrow> ('f, 'k) cstate option" where
  "conn_Release g s =
     do {
       s \<leftarrow> (if lb_Len (inputBuffer (conn s)) = 0
             then do {
               op \<leftarrow> op_at (pl s) (OpPtr (c_operator (conn s)));
               let (ok, op') = op_do op;
               if ok
               then do {
                 s \<leftarrow> resize_input g (upd_op (OpPtr (c_operator (conn s))) op' s);
                 op_release (OpPtr (c_operator (conn s))) s
               }
               else Some s
             }
             else Some s);
       (b, w) \<leftarrow> lb_Release (inputBuffer (conn s)) (in_heap s);
       Some (set_input b w s)
     }"

text \<open>\<^verbatim>\<open>Read(p)\<close>: the result is what was copied to the front of \<open>p\<close>.\<close>

definition conn_Read ::
    "globals \<Rightarrow> ('f, 'k) cstate move list \<Rightarrow> nat \<Rightarrow> ('f, 'k) cstate \<Rightarrow>
     ((byte list \<times> error option) \<times> ('f, 'k) cstate move list \<times> ('f, 'k) cstate) option" where
  "conn_Read g env l s =
     (if l = 0 then Some (([], None), env, s)
      else do {
        (err, env, s) \<leftarrow> waitRead env 1 s;
        case err of
          Some e \<Rightarrow> Some (([], Some e), env, s)
        | None \<Rightarrow>
            do {
              let has = lb_Len (inputBuffer (conn s));
              let l' = (if has < int l then has else int l);
              (r, b, w) \<leftarrow> lb_Next g l' (inputBuffer (conn s)) (in_heap s);
              let s = set_input b w s;
              case r of
                Inl e \<Rightarrow> Some (([], Some e), env, s)
              | Inr src \<Rightarrow>
                  do {
                    let bs = take l (slice_bytes w src);
                    (b, w) \<leftarrow> lb_Release b w;
                    Some ((bs, None), env, set_input b w s)
                  }
            }
      })"

subsection \<open>The writer\<close>

definition conn_write ::
    "(LinkBuffer \<Rightarrow> world \<Rightarrow> 'a lb_result) \<Rightarrow> ('f, 'k) cstate \<Rightarrow> ('a \<times> ('f, 'k) cstate) option" where
  "conn_write f s = do { (r, b, w) \<leftarrow> f (outputBuffer (conn s)) (out_heap s); Some (r, set_output b w s) }"

definition conn_Malloc where "conn_Malloc g n s = conn_write (lb_Malloc g n) s"

definition conn_MallocLen :: "('f, 'k) cstate \<Rightarrow> int" where
  "conn_MallocLen s = lb_MallocLen (outputBuffer (conn s))"

definition conn_MallocAck where "conn_MallocAck n s = conn_write (lb_MallocAck n) s"

definition conn_Append where "conn_Append x s = conn_write (lb_Append x) s"

definition conn_WriteString where "conn_WriteString g p s = conn_write (lb_WriteString g p) s"

definition conn_WriteBinary where "conn_WriteBinary g p s = conn_write (lb_WriteBinary g p) s"

definition conn_WriteDirect where
  "conn_WriteDirect g p remainCap s =
     conn_write (\<lambda>b w. map_option (\<lambda>r. ((), r)) (lb_WriteDirect g p remainCap b w)) s"

definition conn_WriteByte where
  "conn_WriteByte g x s = conn_write (\<lambda>b w. map_option (\<lambda>r. ((), r)) (lb_WriteByte g x b w)) s"

subsection \<open>Sending\<close>

fun recv_write ::
    "('f, 'k) cstate move list \<Rightarrow> ('f, 'k) cstate \<Rightarrow>
     (error option \<times> ('f, 'k) cstate move list \<times> ('f, 'k) cstate) option" where
  "recv_write env s =
     (case writeTrigger (conn s) of
        e # es \<Rightarrow> Some (e, env, upd_conn (\<lambda>c. c\<lparr>writeTrigger := es\<rparr>) s)
      | [] \<Rightarrow> (case env of
                [] \<Rightarrow> None
              | Fire # ms \<Rightarrow> recv_write ms s
              | Other f # ms \<Rightarrow> recv_write ms (f s)))"

fun select_write ::
    "('f, 'k) cstate move list \<Rightarrow> ('f, 'k) cstate \<Rightarrow>
     (error option option \<times> ('f, 'k) cstate move list \<times> ('f, 'k) cstate) option" where
  "select_write (Fire # ms) s = Some (None, ms, s)"
| "select_write env s =
     (case writeTrigger (conn s) of
        e # es \<Rightarrow> Some (Some e, env, upd_conn (\<lambda>c. c\<lparr>writeTrigger := es\<rparr>) s)
      | [] \<Rightarrow> (case env of
                [] \<Rightarrow> None
              | Other f # ms \<Rightarrow> select_write ms (f s)
              | Fire # ms \<Rightarrow> None))"

definition waitFlush ::
    "'k sys \<Rightarrow> ('f, 'k) cstate move list \<Rightarrow> ('f, 'k) cstate \<Rightarrow>
     (error option \<times> ('f, 'k) cstate move list \<times> ('f, 'k) cstate) option" where
  "waitFlush sys env s =
     (if writeTimeout (conn s) = 0 then recv_write env s
      else do {
        (r, env, s) \<leftarrow> select_write env s;
        case r of
          Some err \<Rightarrow> Some (err, env, s)
        | None \<Rightarrow>
            (case writeTrigger (conn s) of
               e # es \<Rightarrow> Some (e, env, upd_conn (\<lambda>c. c\<lparr>writeTrigger := es\<rparr>) s)
             | [] \<Rightarrow>
                 do {
                   (_, s) \<leftarrow> operator_Control sys [] (OpPtr (c_operator (conn s))) PollRW2R s;
                   Some (Some (Exc ErrWriteTimeout (c_remote (conn s))), env, s)
                 })
      })"

text \<open>
  \<^verbatim>\<open>flush\<close>: \<open>txt\<close> is the text of an error that is not an errno. \<open>send_once\<close> is its part up to the test whether
  everything was sent.
\<close>

definition send_once ::
    "'k sys \<Rightarrow> (error \<Rightarrow> string) \<Rightarrow> ('f, 'k) cstate \<Rightarrow> (error option \<times> ('f, 'k) cstate) option" where
  "send_once sys txt s =
     do {
       bs \<leftarrow> lb_GetBytes (bar_bs (outputBarrier (conn s))) (outputBuffer (conn s)) (out_heap s);
       ((n, err), _, k) \<leftarrow>
         sendmsg (sys_sendmsg sys) (c_fd (conn s)) bs (bar_ivs (outputBarrier (conn s)))
           (False \<and> supportZeroCopy (conn s)) (kern s) (out_heap s);
       let s = s\<lparr>kern := k\<rparr>;
       if err \<noteq> None \<and> err \<noteq> Some (Errno EAGAIN)
       then Some (Some (Exception txt (the err) ''when flush''), s)
       else if n > 0
       then do {
         (err, b, w) \<leftarrow> lb_Skip n (outputBuffer (conn s)) (out_heap s);
         (b, w) \<leftarrow> lb_Release b w;
         Some (map_option (\<lambda>e. Exception txt e ''when flush'') err, set_output b w s)
       }
       else Some (None, s)
     }"

definition conn_flush ::
    "'k sys \<Rightarrow> (error \<Rightarrow> string) \<Rightarrow> ('f, 'k) cstate move list \<Rightarrow> ('f, 'k) cstate \<Rightarrow>
     (error option \<times> ('f, 'k) cstate move list \<times> ('f, 'k) cstate) option" where
  "conn_flush sys txt env s =
     (if lb_IsEmpty (outputBuffer (conn s)) then Some (None, env, s)
      else do {
        (err, s) \<leftarrow> send_once sys txt s;
        if err \<noteq> None then Some (err, env, s)
        else if lb_IsEmpty (outputBuffer (conn s)) then Some (None, env, s)
        else do {
          (err, s) \<leftarrow> operator_Control sys [] (OpPtr (c_operator (conn s))) PollR2RW s;
          case err of
            Some e \<Rightarrow> Some (Some (Exception txt e ''when flush''), env, s)
          | None \<Rightarrow> waitFlush sys env s
        }
      })"

definition conn_Flush ::
    "globals \<Rightarrow> 'k sys \<Rightarrow> (error \<Rightarrow> string) \<Rightarrow> ('f, 'k) cstate move list \<Rightarrow> ('f, 'k) cstate \<Rightarrow>
     (error option \<times> ('f, 'k) cstate move list \<times> ('f, 'k) cstate) option" where
  "conn_Flush g sys txt env s =
     (if \<not> IsActive (conn s) then Some (Some (Exc ErrConnClosed ''when flush''), env, s)
      else let (ok, c) = lock flushing (conn s)
           in if \<not> ok then Some (Some (Exc ErrConcurrentAccess ''when flush''), env, s)
              else do {
                let s = s\<lparr>conn := c\<rparr>;
                (b, w) \<leftarrow> lb_Flush g (outputBuffer (conn s)) (out_heap s);
                (err, env, s) \<leftarrow> conn_flush sys txt env (set_output b w s);
                Some (err, env, upd_conn (unlock flushing) s)
              })"

definition conn_Write ::
    "globals \<Rightarrow> 'k sys \<Rightarrow> (error \<Rightarrow> string) \<Rightarrow> ('f, 'k) cstate move list \<Rightarrow> byte list \<Rightarrow> ('f, 'k) cstate \<Rightarrow>
     ((int \<times> error option) \<times> ('f, 'k) cstate move list \<times> ('f, 'k) cstate) option" where
  "conn_Write g sys txt env p s =
     (if \<not> IsActive (conn s) then Some ((0, Some (Exc ErrConnClosed ''when write'')), env, s)
      else let (ok, c) = lock flushing (conn s)
           in if \<not> ok then Some ((0, Some (Exc ErrConcurrentAccess ''when write'')), env, s)
              else do {
                let s = s\<lparr>conn := c\<rparr>;
                (dst, b, w) \<leftarrow> lb_Malloc g (int (length p)) (outputBuffer (conn s)) (out_heap s);
                let (n, w) = go_copy dst p w;
                (b, w) \<leftarrow> lb_Flush g b w;
                (err, env, s) \<leftarrow> conn_flush sys txt env (set_output b w s);
                Some ((n, err), env, upd_conn (unlock flushing) s)
              })"

subsection \<open>Handlers of the operator\<close>

definition conn_inputs :: "globals \<Rightarrow> nat \<Rightarrow> ('f, 'k) cstate \<Rightarrow> (slice list \<times> ('f, 'k) cstate) option" where
  "conn_inputs g caps s =
     (if caps = 0 then None
      else do {
        (p, b, w) \<leftarrow> lb_book g (bookSize (conn s)) (maxSize (conn s)) (inputBuffer (conn s)) (in_heap s);
        Some ([p], set_input b w s)
      })"

text \<open>
  \<^verbatim>\<open>onProcess\<close> up to \<^verbatim>\<open>runner.RunTask\<close>: it takes the lock and hands over a task. The steps of the task are in
  theory \<open>Lifecycle\<close>.
\<close>

definition onProcess :: "'f option \<Rightarrow> 'f option \<Rightarrow> ('f, 'k) cstate \<Rightarrow> bool \<times> ('f, 'k) cstate" where
  "onProcess onConnect onRequest s =
     (let (ok, c) = lock processing (conn s)
      in if \<not> ok then (False, s)
         else (True, s\<lparr>conn := c, tasks := tasks s @ [\<lparr>t_onConnect = onConnect, t_onRequest = onRequest\<rparr>]\<rparr>))"

definition onRequest :: "('f, 'k) cstate \<Rightarrow> bool \<times> ('f, 'k) cstate" where
  "onRequest s =
     (case onRequestCallback (conn s) of
        None \<Rightarrow> (True, s)
      | Some f \<Rightarrow>
          if getState (conn s) = connStateNone \<and> onConnectCallback (conn s) \<noteq> None then (False, s)
          else let (processed, s) = onProcess None (Some f) s in (\<not> processed, s))"

definition auto_size :: "int \<Rightarrow> 'f connection \<Rightarrow> 'f connection" where
  "auto_size n c = (if n = bookSize c \<and> bookSize c < mallocMax then c\<lparr>bookSize := bookSize c * 2\<rparr> else c)"

definition cap_maxSize :: "int \<Rightarrow> 'f connection \<Rightarrow> 'f connection" where
  "cap_maxSize len c =
     (let c = (if maxSize c < len then c\<lparr>maxSize := len\<rparr> else c)
      in if maxSize c > mallocMax then c\<lparr>maxSize := mallocMax\<rparr> else c)"

definition conn_inputAck :: "int \<Rightarrow> ('f, 'k) cstate \<Rightarrow> ('f, 'k) cstate option" where
  "conn_inputAck n s =
     (if n \<le> 0
      then do { (_, b, w) \<leftarrow> lb_bookAck 0 (inputBuffer (conn s)) (in_heap s); Some (set_input b w s) }
      else do {
        let s = upd_conn (auto_size n) s;
        (len, b, w) \<leftarrow> lb_bookAck n (inputBuffer (conn s)) (in_heap s);
        let s = upd_conn (cap_maxSize len) (set_input b w s);
        let (needTrigger, s) = (if len = n then onRequest s else (True, s));
        Some (if needTrigger \<and> len \<ge> waitReadSize (conn s) then upd_conn (triggerRead None) s else s)
      })"

definition rw2r :: "'k sys \<Rightarrow> ('f, 'k) cstate \<Rightarrow> ('f, 'k) cstate option" where
  "rw2r sys s =
     do {
       (_, s) \<leftarrow> operator_Control sys [] (OpPtr (c_operator (conn s))) PollRW2R s;
       Some (upd_conn (triggerWrite None) s)
     }"

definition conn_outputs ::
    "'k sys \<Rightarrow> nat \<Rightarrow> ('f, 'k) cstate \<Rightarrow> ((slice list \<times> bool) \<times> ('f, 'k) cstate) option" where
  "conn_outputs sys caps s =
     (if lb_IsEmpty (outputBuffer (conn s))
      then do { s \<leftarrow> rw2r sys s; Some (([], supportZeroCopy (conn s)), s) }
      else do {
        rs \<leftarrow> lb_GetBytes caps (outputBuffer (conn s)) (out_heap s);
        Some ((rs, supportZeroCopy (conn s)), s)
      })"

definition conn_outputAck :: "'k sys \<Rightarrow> int \<Rightarrow> ('f, 'k) cstate \<Rightarrow> ('f, 'k) cstate option" where
  "conn_outputAck sys n s =
     do {
       s \<leftarrow> (if n > 0
             then do {
               (_, b, w) \<leftarrow> lb_Skip n (outputBuffer (conn s)) (out_heap s);
               (b, w) \<leftarrow> lb_Release b w;
               Some (set_output b w s)
             }
             else Some s);
       if lb_IsEmpty (outputBuffer (conn s)) then rw2r sys s else Some s
     }"

subsection \<open>Closing\<close>

definition netFD_Close :: "'k sys \<Rightarrow> ('f, 'k) cstate \<Rightarrow> error option \<times> ('f, 'k) cstate" where
  "netFD_Close sys s =
     (let s = upd_conn (\<lambda>c. c\<lparr>c_closed := c_closed c + 1\<rparr>) s
      in if c_closed (conn s) \<noteq> 1 then (None, s)
         else if \<not> detaching (conn s) \<and> c_fd (conn s) > 2
         then (let (err, k) = sys_close sys (c_fd (conn s)) (kern s) in (err, s\<lparr>kern := k\<rparr>))
         else (None, s))"

definition closeBuffer :: "('f, 'k) cstate \<Rightarrow> ('f, 'k) cstate option" where
  "closeBuffer s =
     do {
       let served = (onConnectCallback (conn s) \<noteq> None \<or> onRequestCallback (conn s) \<noteq> None);
       s \<leftarrow> (if lb_Len (inputBuffer (conn s)) = 0 \<or> served
             then do { (b, w) \<leftarrow> lb_Close (inputBuffer (conn s)) (in_heap s); Some (set_input b w s) }
             else Some s);
       if lb_Len (outputBuffer (conn s)) = 0 \<or> served
       then do {
         (b, w) \<leftarrow> lb_Close (outputBuffer (conn s)) (out_heap s);
         let s = set_output b w s;
         Some (s\<lparr>barrierPool := outputBarrier (conn s) # barrierPool s\<rparr>)
       }
       else Some s
     }"

text \<open>
  The callback that \<^verbatim>\<open>initFinalizer\<close> installs. \<open>fenv\<close> and \<open>oenv\<close> are what the other goroutines do while
  it spins on the flushing lock and on the operator.
\<close>

definition finalizer ::
    "'k sys \<Rightarrow> ('f connection \<Rightarrow> 'f connection) list \<Rightarrow> (conn_handler FDOperator \<Rightarrow> conn_handler FDOperator) list \<Rightarrow>
     ('f, 'k) cstate \<Rightarrow> ('f, 'k) cstate option" where
  "finalizer sys fenv oenv s =
     do {
       c \<leftarrow> stop flushing fenv (conn s);
       let s = s\<lparr>conn := c\<rparr>;
       p \<leftarrow> poll_Free oenv (c_operator (conn s)) (pl s);
       let (_, s) = netFD_Close sys (s\<lparr>pl := p\<rparr>);
       closeBuffer s
     }"

text \<open>\<open>U\<close> is what the callbacks of the user do.\<close>

fun run_callbacks ::
    "'k sys \<Rightarrow> ('f \<Rightarrow> ('f, 'k) cstate \<Rightarrow> ('f, 'k) cstate option) \<Rightarrow> ('f connection \<Rightarrow> 'f connection) list \<Rightarrow>
     (conn_handler FDOperator \<Rightarrow> conn_handler FDOperator) list \<Rightarrow>
     'f callback list \<Rightarrow> ('f, 'k) cstate \<Rightarrow> ('f, 'k) cstate option" where
  "run_callbacks sys U fenv oenv [] s = Some s"
| "run_callbacks sys U fenv oenv (Finalizer # cs) s =
     do { s \<leftarrow> finalizer sys fenv oenv s; run_callbacks sys U fenv oenv cs s }"
| "run_callbacks sys U fenv oenv (DeleteConn fd # cs) s =
     run_callbacks sys U fenv oenv cs (s\<lparr>connections := (connections s)(fd := None)\<rparr>)"
| "run_callbacks sys U fenv oenv (UserCallback f # cs) s =
     do { s \<leftarrow> U f s; run_callbacks sys U fenv oenv cs s }"

definition closeCallback ::
    "'k sys \<Rightarrow> ('f \<Rightarrow> ('f, 'k) cstate \<Rightarrow> ('f, 'k) cstate option) \<Rightarrow> ('f connection \<Rightarrow> 'f connection) list \<Rightarrow>
     (conn_handler FDOperator \<Rightarrow> conn_handler FDOperator) list \<Rightarrow>
     bool \<Rightarrow> bool \<Rightarrow> ('f, 'k) cstate \<Rightarrow> ('f, 'k) cstate option" where
  "closeCallback sys U fenv oenv needLock needDetach s =
     (let (ok, c) = (if needLock then lock processing (conn s) else (True, conn s))
      in if \<not> ok then Some s
         else do {
           let s = s\<lparr>conn := c\<rparr>;
           s \<leftarrow> (if needDetach
                 then do {
                   op \<leftarrow> op_at (pl s) (OpPtr (c_operator (conn s)));
                   if op_poll op \<noteq> None
                   then map_option snd (operator_Control sys [] (OpPtr (c_operator (conn s))) PollDetach s)
                   else Some s
                 }
                 else Some s);
           run_callbacks sys U fenv oenv (closeCallbacks (conn s)) s
         })"

definition onDisconnect ::
    "('f \<Rightarrow> ('f, 'k) cstate \<Rightarrow> ('f, 'k) cstate option) \<Rightarrow> ('f, 'k) cstate \<Rightarrow> ('f, 'k) cstate option" where
  "onDisconnect U s =
     (case onDisconnectCallback (conn s) of
        None \<Rightarrow> Some s
      | Some f \<Rightarrow>
          if onConnectCallback (conn s) = None then U f (upd_conn (setState connStateDisconnected) s)
          else if getState (conn s) \<noteq> connStateNone
          then (let (ok, c) = lock connecting (conn s)
                in if ok
                   then do {
                     let (changed, c) = changeState connStateConnected connStateDisconnected c;
                     s \<leftarrow> (if changed then U f (s\<lparr>conn := c\<rparr>) else Some (s\<lparr>conn := c\<rparr>));
                     Some (upd_conn (unlock connecting) s)
                   }
                   else Some s)
          else Some s)"

definition onHup ::
    "'k sys \<Rightarrow> ('f \<Rightarrow> ('f, 'k) cstate \<Rightarrow> ('f, 'k) cstate option) \<Rightarrow> ('f connection \<Rightarrow> 'f connection) list \<Rightarrow>
     (conn_handler FDOperator \<Rightarrow> conn_handler FDOperator) list \<Rightarrow> ('f, 'k) cstate \<Rightarrow> ('f, 'k) cstate option" where
  "onHup sys U fenv oenv s =
     (let (ok, c) = closeBy poller (conn s)
      in if \<not> ok then Some s
         else do {
           let s = s\<lparr>conn := c\<rparr>;
           let s = upd_conn (triggerRead (Some (Exc ErrEOF ''peer close''))) s;
           let s = upd_conn (triggerWrite (Some (Exc ErrConnClosed ''peer close''))) s;
           s \<leftarrow> onDisconnect U s;
           let needCloseByUser = (onConnectCallback (conn s) = None \<and> onRequestCallback (conn s) = None);
           if \<not> needCloseByUser then closeCallback sys U fenv oenv True False s else Some s
         })"

definition onClose ::
    "'k sys \<Rightarrow> ('f \<Rightarrow> ('f, 'k) cstate \<Rightarrow> ('f, 'k) cstate option) \<Rightarrow> ('f connection \<Rightarrow> 'f connection) list \<Rightarrow>
     (conn_handler FDOperator \<Rightarrow> conn_handler FDOperator) list \<Rightarrow> ('f, 'k) cstate \<Rightarrow> ('f, 'k) cstate option" where
  "onClose sys U fenv oenv s =
     (let (ok, c) = closeBy user (conn s)
      in if ok
         then do {
           let s = s\<lparr>conn := c\<rparr>;
           let s = upd_conn (triggerRead (Some (Exc ErrConnClosed ''self close''))) s;
           let s = upd_conn (triggerWrite (Some (Exc ErrConnClosed ''self close''))) s;
           closeCallback sys U fenv oenv True True s
         }
         else closeCallback sys U fenv oenv True False (upd_conn (force closing user) s))"

definition conn_Close where "conn_Close sys U fenv oenv s = onClose sys U fenv oenv s"

definition conn_Detach where
  "conn_Detach sys U fenv oenv s = onClose sys U fenv oenv (upd_conn (\<lambda>c. c\<lparr>detaching := True\<rparr>) s)"

definition isIdle :: "('f, 'k) cstate \<Rightarrow> bool" where
  "isIdle s \<longleftrightarrow> isUnlock processing (conn s) \<and> lb_IsEmpty (inputBuffer (conn s)) \<and> lb_IsEmpty (outputBuffer (conn s))"

text \<open>The handlers of the operator of a connection, as the poller calls them.\<close>

definition conn_handlers ::
    "globals \<Rightarrow> 'k sys \<Rightarrow> ('f \<Rightarrow> ('f, 'k) cstate \<Rightarrow> ('f, 'k) cstate option) \<Rightarrow>
     ('f connection \<Rightarrow> 'f connection) list \<Rightarrow> (conn_handler FDOperator \<Rightarrow> conn_handler FDOperator) list \<Rightarrow>
     (conn_handler, ('f, 'k) cstate) handlers" where
  "conn_handlers g sys U fenv oenv =
     \<lparr>call = (\<lambda>h s. if h = COnHup then onHup sys U fenv oenv s else None),
      inputs = (\<lambda>h n s. if h = CInputs then conn_inputs g n s else None),
      ack = (\<lambda>h n s. if h = CInputAck then conn_inputAck n s
                     else if h = COutputAck then conn_outputAck sys n s else None),
      outputs = (\<lambda>h n s. if h = COutputs then conn_outputs sys n s else None)\<rparr>"

end
