(* ===== verification/ConnInv.thy ===== *)
theory ConnInv
  imports PollInv Connection
begin

section \<open>Connections: invariant and contract with the poller\<close>

text \<open>
  The invariant of a connection that is registered with a poller, and the proof that its handlers
  keep the contract of theory \<open>PollInv\<close>.
\<close>

subsection \<open>An acknowledgement of nothing\<close>

lemma lb_bookAck_0:
  assumes inv: "lb_inv w own b" "submitted w b" "bookable w b" "lb_MallocLen b = 0"
  shows "\<exists>b'. lb_bookAck 0 b w = Some (lb_Len b, b', w) \<and> received w own b [] w own b'"
proof -
  have wn: "write_n b \<noteq> None" using inv(3) by (auto simp: bookable_def split: option.splits)
  obtain hs rs ws wr ts where rd: "ready w own b hs rs ws (wr # ts)" by (rule ready_writeE [OF inv(1,2) wn])
  note i = readyD [OF rd] and R = lb_repD [OF readyD(1) [OF rd]]
  have wr: "write_n b = Some wr" using R(4) by simp
  have "nodes w wr = Some (nd_at w wr)" by (rule lb_rep_nodes [OF i(1)]) simp
  then obtain nd where nd: "nodes w wr = Some nd" "nd_at w wr = nd" by blast
  have ok: "node_ok nd" using R(6) [of wr] nd by simp
  have m0: "mallocSize b = 0" using inv(4) by (simp add: lb_MallocLen_def)
  have p: "pends w (ws @ wr # ts) = 0" using R(12) m0 by simp
  have len: "malloc_n nd = s_len (buf nd)"
    using pends_0D [OF p, of wr] ok inv(3) nd by (auto simp: bookable_def wr pend_len_def node_ok_def)
  let ?b = "b\<lparr>flush := write_n b\<rparr>"
  have same: "set_node wr nd w = w" using nd(1) by (simp add: set_node_def fun_upd_idem)
  have run: "lb_bookAck 0 b w = Some (lb_Len b, ?b, w)"
    using ok len nd same by (cases nd, cases "buf nd")
      (simp add: lb_bookAck_def wr reslice_def node_ok_def recalLen_def Let_def lb_Len_def)
  have z: "flushed (nd_at w a) = nd_at w a" if "a \<in> set (ws @ [wr])" for a
    by (intro flushed_id pends_0D [OF p]) (use that in auto)
  have nn: "nodes w = (\<lambda>a. if a \<in> set (ws @ [wr]) then Some (flushed (nd_at w a)) else nodes w a)"
  proof
    fix a
    show "nodes w a = (if a \<in> set (ws @ [wr]) then Some (flushed (nd_at w a)) else nodes w a)"
    proof (cases "a \<in> set (ws @ [wr])")
      case True
      then have "a \<in> set (hs @ rs @ ws @ wr # ts)" by auto
      then show ?thesis unfolding if_P [OF True] z [OF True] by (rule lb_rep_nodes [OF i(1)])
    qed (rule if_not_P [symmetric])
  qed
  have pw: "pends w (ws @ [wr]) = 0"
    using p pends_nonneg [of w ws] pends_nonneg [of w ts] by (simp add: pend_len_def)
  have beq: "?b = b\<lparr>mallocSize := 0, flush := write_n b, length_b := length_b b + pends w (ws @ [wr])\<rparr>"
    unfolding pw using m0 by (cases b) simp
  note F = ready_flush [OF rd nn refl refl refl refl refl, folded beq]
  have "lb_inv w own ?b" "submitted w ?b" using F(1) ready_iff [of w own ?b] by blast+
  moreover have "bookable w ?b" using inv(3) by (simp add: bookable_def)
  moreover have "stream w ?b = stream w b" by (simp add: stream_def)
  ultimately have "received w own b [] w own ?b" using m0 by (simp add: received_def lb_MallocLen_def lb_Len_def)
  with run show ?thesis by blast
qed

subsection \<open>Invariant\<close>

definition in_inv :: "world \<Rightarrow> LinkBuffer \<Rightarrow> bool" where
  "in_inv w b \<longleftrightarrow> (\<exists>own. lb_inv w own b \<and> submitted w b \<and> bookable w b \<and> lb_MallocLen b = 0)"

definition out_inv :: "world \<Rightarrow> LinkBuffer \<Rightarrow> bool" where
  "out_inv w b \<longleftrightarrow> (\<exists>own. lb_inv w own b \<and> submitted w b \<and> write_n b \<noteq> None)"

text \<open>The operator of a connection, as \<^verbatim>\<open>initFDOperator\<close> sets it up.\<close>

definition conn_op :: "'f connection \<Rightarrow> conn_handler FDOperator \<Rightarrow> bool" where
  "conn_op c op \<longleftrightarrow> FD op = c_fd c \<and> OnRead op = None \<and> OnWrite op = None \<and> OnHup op = Some COnHup \<and>
     Inputs op = Some CInputs \<and> InputAck op = Some CInputAck \<and> Outputs op = Some COutputs \<and>
     OutputAck op = Some COutputAck \<and> op_poll op \<noteq> None"

definition conn_ok :: "globals \<Rightarrow> 'k sys \<Rightarrow> ('k \<Rightarrow> nat) \<Rightarrow> ('f, 'k) cstate \<Rightarrow> bool" where
  "conn_ok g sys left s \<longleftrightarrow>
     mcache_ok g \<and> kernel_ok sys left \<and>
     in_inv (in_heap s) (inputBuffer (conn s)) \<and> out_inv (out_heap s) (outputBuffer (conn s)) \<and>
     0 < bookSize (conn s) \<and> bookSize (conn s) < MaxInt32 \<and> 0 < maxSize (conn s) \<and>
     (\<exists>fs used. cache_inv (opcache (pl s)) fs used \<and> c_operator (conn s) \<in> used) \<and>
     (\<forall>a op. ops (opcache (pl s)) a = Some op \<longrightarrow> op_state op \<noteq> 0 \<longrightarrow> a = c_operator (conn s) \<and> conn_op (conn s) op)"

text \<open>Between \<^verbatim>\<open>inputs\<close> and \<^verbatim>\<open>inputAck\<close>, and between \<^verbatim>\<open>outputs\<close> and \<^verbatim>\<open>outputAck\<close>.\<close>

definition conn_lent :: "globals \<Rightarrow> 'k sys \<Rightarrow> ('k \<Rightarrow> nat) \<Rightarrow> slice list \<Rightarrow> ('f, 'k) cstate \<Rightarrow> bool" where
  "conn_lent g sys left bs s \<longleftrightarrow>
     (\<exists>s0 p b w. conn_ok g sys left s0 \<and> bs = [p] \<and> s = set_input b w s0 \<and>
        lb_book g (bookSize (conn s0)) (maxSize (conn s0)) (inputBuffer (conn s0)) (in_heap s0) = Some (p, b, w))"

definition conn_shown :: "globals \<Rightarrow> 'k sys \<Rightarrow> ('k \<Rightarrow> nat) \<Rightarrow> slice list \<Rightarrow> ('f, 'k) cstate \<Rightarrow> bool" where
  "conn_shown g sys left bs s \<longleftrightarrow> conn_ok g sys left s \<and> (\<forall>c\<in>set bs. 0 \<le> s_len c) \<and>
     prefix (vec_bytes (out_heap s) bs) (take (nat (lb_Len (outputBuffer (conn s)))) (stream (out_heap s) (outputBuffer (conn s))))"

subsection \<open>Selectors\<close>

lemma set_input_sel [simp]:
  "in_heap (set_input b w s) = w" "out_heap (set_input b w s) = out_heap s" "kern (set_input b w s) = kern s"
  "pl (set_input b w s) = pl s" "conn (set_input b w s) = (conn s)\<lparr>inputBuffer := b\<rparr>"
  "tasks (set_input b w s) = tasks s"
  by (simp_all add: set_input_def)

lemma set_output_sel [simp]:
  "out_heap (set_output b w s) = w" "in_heap (set_output b w s) = in_heap s" "kern (set_output b w s) = kern s"
  "pl (set_output b w s) = pl s" "conn (set_output b w s) = (conn s)\<lparr>outputBuffer := b\<rparr>"
  "tasks (set_output b w s) = tasks s"
  by (simp_all add: set_output_def)

lemma upd_conn_sel [simp]:
  "in_heap (upd_conn f s) = in_heap s" "out_heap (upd_conn f s) = out_heap s" "kern (upd_conn f s) = kern s"
  "pl (upd_conn f s) = pl s" "conn (upd_conn f s) = f (conn s)" "tasks (upd_conn f s) = tasks s"
  by (simp_all add: upd_conn_def)

text \<open>The parts of a connection that the invariant reads.\<close>

definition core :: "'f connection \<Rightarrow> int \<times> addr \<times> LinkBuffer \<times> LinkBuffer" where
  "core c = (c_fd c, c_operator c, inputBuffer c, outputBuffer c)"

lemma conn_op_core: "c_fd c' = c_fd c \<Longrightarrow> conn_op c' op = conn_op c op"
  by (simp add: conn_op_def)

lemma conn_okD:
  assumes "conn_ok g sys left s"
  shows "mcache_ok g" "kernel_ok sys left" "in_inv (in_heap s) (inputBuffer (conn s))"
    "out_inv (out_heap s) (outputBuffer (conn s))" "0 < bookSize (conn s)" "bookSize (conn s) < MaxInt32"
    "0 < maxSize (conn s)" "\<exists>fs used. cache_inv (opcache (pl s)) fs used \<and> c_operator (conn s) \<in> used"
    "ops (opcache (pl s)) a = Some op \<Longrightarrow> op_state op \<noteq> 0 \<Longrightarrow> a = c_operator (conn s) \<and> conn_op (conn s) op"
  using assms unfolding conn_ok_def by blast+

lemma conn_ok_cong:
  assumes "conn_ok g sys left s" "in_heap s' = in_heap s" "out_heap s' = out_heap s" "core (conn s') = core (conn s)"
    "0 < bookSize (conn s')" "bookSize (conn s') < MaxInt32" "0 < maxSize (conn s')" "opcache (pl s') = opcache (pl s)"
  shows "conn_ok g sys left s'"
proof -
  have e: "inputBuffer (conn s') = inputBuffer (conn s)" "outputBuffer (conn s') = outputBuffer (conn s)"
    "c_operator (conn s') = c_operator (conn s)" "conn_op (conn s') = conn_op (conn s)"
    using assms(4) by (auto simp: core_def conn_op_def fun_eq_iff)
  show ?thesis using assms(1,5-7) unfolding conn_ok_def assms(2,3,8) e by blast
qed

subsection \<open>What the poller does keeps the invariant\<close>

lemma static_ops:
  assumes "static s s'"
  shows "map_option plain (ops (opcache (pl s')) a) = map_option plain (ops (opcache (pl s)) a)"
    "next_op (opcache (pl s')) = next_op (opcache (pl s))" "first (opcache (pl s')) = first (opcache (pl s))"
    "op_cache (opcache (pl s')) = op_cache (opcache (pl s))" "locked (opcache (pl s')) = locked (opcache (pl s))"
    "freelocked (opcache (pl s')) = freelocked (opcache (pl s))" "freelist (opcache (pl s')) = freelist (opcache (pl s))"
proof -
  have c: "(opcache (pl s'))\<lparr>ops := \<lambda>_. None\<rparr> = (opcache (pl s))\<lparr>ops := \<lambda>_. None\<rparr>"
    and p: "\<forall>ptr. map_option plain (op_at (pl s') ptr) = map_option plain (op_at (pl s) ptr)"
    using assms by (simp_all add: static_def)
  from p have "map_option plain (op_at (pl s') (OpPtr a)) = map_option plain (op_at (pl s) (OpPtr a))" by blast
  then show "map_option plain (ops (opcache (pl s')) a) = map_option plain (ops (opcache (pl s)) a)"
    by (simp add: op_at_def)
  show "next_op (opcache (pl s')) = next_op (opcache (pl s))" "first (opcache (pl s')) = first (opcache (pl s))"
    "op_cache (opcache (pl s')) = op_cache (opcache (pl s))" "locked (opcache (pl s')) = locked (opcache (pl s))"
    "freelocked (opcache (pl s')) = freelocked (opcache (pl s))" "freelist (opcache (pl s')) = freelist (opcache (pl s))"
    using c by (cases "opcache (pl s)"; cases "opcache (pl s')"; simp)+
qed

lemma plain_cache_inv:
  assumes "\<And>a. map_option plain (ops c' a) = map_option plain (ops c a)"
    "next_op c' = next_op c" "first c' = first c" "op_cache c' = op_cache c" "locked c' = locked c"
    "freelocked c' = freelocked c" "freelist c' = freelist c" "cache_inv c fs used"
  shows "cache_inv c' fs used"
proof -
  have nx: "map_option op_next (ops c' a) = map_option op_next (ops c a)" for a
    using assms(1) [of a] plain_sel(10) by (cases "ops c a"; cases "ops c' a") auto
  have ix: "\<exists>op. ops c' (op_cache c ! i) = Some op \<and> op_index op = of_nat i"
    if h: "\<exists>op. ops c (op_cache c ! i) = Some op \<and> op_index op = of_nat i" for i
  proof -
    obtain op where op: "ops c (op_cache c ! i) = Some op" "op_index op = of_nat i" using h by blast
    obtain op' where op': "ops c' (op_cache c ! i) = Some op'" "plain op' = plain op"
      using assms(1) [of "op_cache c ! i"] op(1) by (cases "ops c' (op_cache c ! i)") auto
    then show ?thesis using op(2) plain_sel(11) [OF op'(2)] by auto
  qed
  have ch: "op_chain (ops c') p as = op_chain (ops c) p as" for p as by (rule op_chain_cong) (rule nx)
  have fr: "frees c' = frees c" by (rule frees_cong [OF assms(4,7)])
  have at: "cache_at c' = cache_at c" by (simp add: fun_eq_iff cache_at_frame [OF assms(4)])
  show ?thesis
    using assms(8) ix unfolding cache_inv_def cache_core_def assms(2-7) ch fr at by blast
qed

lemma conn_ok_static:
  assumes "conn_ok g sys left s" "static s s'"
  shows "conn_ok g sys left s'"
proof -
  have m: "pstate.more s' = pstate.more s" "in_heap s' = in_heap s" "out_heap s' = out_heap s"
    using assms(2) by (simp_all add: static_def)
  have "conn s' = conn s" using m(1) by (cases s; cases s') simp
  moreover obtain fs used where u: "cache_inv (opcache (pl s)) fs used" "c_operator (conn s) \<in> used"
    using conn_okD(8) [OF assms(1)] by blast
  have "cache_inv (opcache (pl s')) fs used" by (rule plain_cache_inv [OF static_ops [OF assms(2)] u(1)])
  moreover have "a = c_operator (conn s) \<and> conn_op (conn s) op"
    if h: "ops (opcache (pl s')) a = Some op" "op_state op \<noteq> 0" for a op
  proof -
    obtain op0 where op0: "ops (opcache (pl s)) a = Some op0" "plain op = plain op0"
      using static_ops(1) [OF assms(2), of a] h(1) by (cases "ops (opcache (pl s)) a") auto
    then have "op_state op0 \<noteq> 0" using plain_sel(12) [OF op0(2)] h(2) by simp
    from conn_okD(9) [OF assms(1) op0(1) this] show ?thesis
      using plain_sel(1-9) [OF op0(2)] by (simp add: conn_op_def)
  qed
  ultimately show ?thesis using assms(1) u(2) unfolding conn_ok_def m(2,3) by metis
qed

lemma conn_ok_free:
  assumes "conn_ok g sys left s"
  shows "\<exists>c. cache_free (opcache (pl s)) = Some c \<and> conn_ok g sys left (s\<lparr>pl := (pl s)\<lparr>opcache := c\<rparr>\<rparr>)"
proof -
  obtain fs used where u: "cache_inv (opcache (pl s)) fs used" "c_operator (conn s) \<in> used"
    using conn_okD(8) [OF assms] by blast
  obtain c fs' where c: "cache_free (opcache (pl s)) = Some c" "cache_inv c fs' used"
    using cache_free_ok [OF u(1)] by blast
  have nf: "c_operator (conn s) \<notin> frees (opcache (pl s))"
    using u by (auto simp: cache_inv_def cache_core_def)
  have "a = c_operator (conn s) \<and> conn_op (conn s) op" if h: "ops c a = Some op" "op_state op \<noteq> 0" for a op
  proof -
    obtain op0 where op0: "ops (opcache (pl s)) a = Some op0" "op_state op0 = op_state op"
      using cache_free_ops(1) [OF c(1), of a] h(1) by (cases "ops (opcache (pl s)) a") auto
    then have "a = c_operator (conn s) \<and> conn_op (conn s) op0" using conn_okD(9) [OF assms] h(2) by metis
    then show ?thesis using cache_free_ops(2) [OF c(1), of a] nf op0(1) h(1) by auto
  qed
  then have "conn_ok g sys left (s\<lparr>pl := (pl s)\<lparr>opcache := c\<rparr>\<rparr>)"
    using assms c(2) u(2) unfolding conn_ok_def by auto
  with c(1) show ?thesis by blast
qed

subsection \<open>Input\<close>

lemma kept_pl: "pl s' = pl s \<Longrightarrow> kept s s'"
  by (auto simp: kept_def busy_def split: option.splits)

lemma in_invE:
  assumes "in_inv w b"
  obtains own where "lb_inv w own b" "submitted w b" "bookable w b" "lb_MallocLen b = 0"
  using assms by (auto simp: in_inv_def)

lemma received_in_inv: "received w own b bs w' own' b' \<Longrightarrow> in_inv w' b'"
  by (auto simp: received_def in_inv_def)

lemma onRequest_frame:
  "in_heap (snd (onRequest s)) = in_heap s" "out_heap (snd (onRequest s)) = out_heap s"
  "pl (snd (onRequest s)) = pl s" "kern (snd (onRequest s)) = kern s"
  "core (conn (snd (onRequest s))) = core (conn s)" "bookSize (conn (snd (onRequest s))) = bookSize (conn s)"
  "maxSize (conn (snd (onRequest s))) = maxSize (conn s)" "readTrigger (conn (snd (onRequest s))) = readTrigger (conn s)"
  "waitReadSize (conn (snd (onRequest s))) = waitReadSize (conn s)"
  by (auto simp: onRequest_def onProcess_def lock_def CompareAndSwap_def core_def Let_def split: option.splits)

text \<open>What \<open>recv bs s0 s'\<close> says: the input buffer of \<open>s0\<close> got the bytes \<open>bs\<close>, and nothing else of the
  buffers, the poller or the kernel changed.\<close>

definition recv :: "byte list \<Rightarrow> ('f, 'k) cstate \<Rightarrow> ('f, 'k) cstate \<Rightarrow> bool" where
  "recv bs s0 s' \<longleftrightarrow>
     stream (in_heap s') (inputBuffer (conn s')) = stream (in_heap s0) (inputBuffer (conn s0)) @ bs \<and>
     lb_Len (inputBuffer (conn s')) = lb_Len (inputBuffer (conn s0)) + int (length bs) \<and>
     out_heap s' = out_heap s0 \<and> outputBuffer (conn s') = outputBuffer (conn s0) \<and> pl s' = pl s0 \<and>
     c_fd (conn s') = c_fd (conn s0) \<and> c_operator (conn s') = c_operator (conn s0)"

lemma in_inv_stream:
  assumes "in_inv w b"
  shows "lb_Len b = int (length (stream w b))"
proof -
  obtain own where o: "lb_inv w own b" "submitted w b" "lb_MallocLen b = 0" using assms by (auto simp: in_inv_def)
  obtain hs rs ws ts where rd: "ready w own b hs rs ws ts" by (rule readyE [OF o(1,2)])
  note i = readyD [OF rd] and R = lb_repD [OF readyD(1) [OF rd]]
  have "int (length (pendings w (ws @ ts))) = 0" using R(12) o(3) unfolding length_pendings by (simp add: lb_MallocLen_def del: seq_simps)
  then have "pendings w (ws @ ts) = []" by (simp del: seq_simps)
  then show ?thesis unfolding i(7) using i(8) by (simp del: seq_simps)
qed

lemma mallocMax_pos: "0 < mallocMax"
  by (simp add: mallocMax_def block8k_def block1k_def)

lemma auto_size_ok: "0 < bookSize c \<Longrightarrow> bookSize c < MaxInt32 \<Longrightarrow> 0 < bookSize (auto_size n c) \<and> bookSize (auto_size n c) < MaxInt32"
  by (simp add: auto_size_def mallocMax_def block8k_def block1k_def MaxInt32_def)

lemma auto_size_sel [simp]:
  "maxSize (auto_size n c) = maxSize c" "core (auto_size n c) = core c" "inputBuffer (auto_size n c) = inputBuffer c"
  "waitReadSize (auto_size n c) = waitReadSize c" "readTrigger (auto_size n c) = readTrigger c"
  "outputBuffer (auto_size n c) = outputBuffer c"
  by (simp_all add: auto_size_def core_def)

lemma cap_maxSize_ok: "0 < maxSize c \<Longrightarrow> 0 < maxSize (cap_maxSize len c) \<and> maxSize (cap_maxSize len c) \<le> max (maxSize c) mallocMax"
  by (auto simp: cap_maxSize_def Let_def mallocMax_def block8k_def block1k_def)

lemma cap_maxSize_sel [simp]:
  "bookSize (cap_maxSize n c) = bookSize c" "core (cap_maxSize n c) = core c" "inputBuffer (cap_maxSize n c) = inputBuffer c"
  "waitReadSize (cap_maxSize n c) = waitReadSize c" "readTrigger (cap_maxSize n c) = readTrigger c"
  "outputBuffer (cap_maxSize n c) = outputBuffer c"
  by (simp_all add: cap_maxSize_def core_def Let_def)

lemma triggerRead_sel [simp]:
  "bookSize (triggerRead e c) = bookSize c" "maxSize (triggerRead e c) = maxSize c" "core (triggerRead e c) = core c"
  "inputBuffer (triggerRead e c) = inputBuffer c" "outputBuffer (triggerRead e c) = outputBuffer c"
  by (simp_all add: triggerRead_def core_def)

lemma core_eq:
  assumes "core c' = core c"
  shows "c_fd c' = c_fd c" "c_operator c' = c_operator c" "inputBuffer c' = inputBuffer c" "outputBuffer c' = outputBuffer c"
  using assms by (simp_all add: core_def)

definition wake_reader :: "int \<Rightarrow> bool \<times> ('f, 'k) cstate \<Rightarrow> ('f, 'k) cstate" where
  "wake_reader len x =
     (if fst x \<and> len \<ge> waitReadSize (conn (snd x)) then upd_conn (triggerRead None) (snd x) else snd x)"

definition notify :: "int \<Rightarrow> int \<Rightarrow> ('f, 'k) cstate \<Rightarrow> bool \<times> ('f, 'k) cstate" where
  "notify len n s = (if len = n then onRequest s else (True, s))"

lemma conn_inputAck_pos:
  assumes "0 < n" "lb_bookAck n (inputBuffer (conn s)) (in_heap s) = Some (len, b, w)"
  shows "conn_inputAck n s =
    Some (wake_reader len (notify len n (upd_conn (cap_maxSize len) (set_input b w (upd_conn (auto_size n) s)))))"
proof -
  have "conn_inputAck n s = Some (case notify len n (upd_conn (cap_maxSize len) (set_input b w (upd_conn (auto_size n) s))) of
      (needTrigger, s) \<Rightarrow> if needTrigger \<and> len \<ge> waitReadSize (conn s) then upd_conn (triggerRead None) s else s)"
    unfolding conn_inputAck_def notify_def Let_def using assms
    by (simp del: split_paired_All split: prod.split)
  then show ?thesis by (simp add: wake_reader_def case_prod_beta)
qed

lemma notify_frame:
  "in_heap (snd (notify len n s)) = in_heap s" "out_heap (snd (notify len n s)) = out_heap s"
  "pl (snd (notify len n s)) = pl s" "kern (snd (notify len n s)) = kern s"
  "core (conn (snd (notify len n s))) = core (conn s)" "bookSize (conn (snd (notify len n s))) = bookSize (conn s)"
  "maxSize (conn (snd (notify len n s))) = maxSize (conn s)" "readTrigger (conn (snd (notify len n s))) = readTrigger (conn s)"
  "waitReadSize (conn (snd (notify len n s))) = waitReadSize (conn s)"
  by (simp_all add: notify_def onRequest_frame)

lemma wake_reader_frame:
  "in_heap (wake_reader len x) = in_heap (snd x)" "out_heap (wake_reader len x) = out_heap (snd x)"
  "pl (wake_reader len x) = pl (snd x)" "kern (wake_reader len x) = kern (snd x)"
  "core (conn (wake_reader len x)) = core (conn (snd x))" "bookSize (conn (wake_reader len x)) = bookSize (conn (snd x))"
  "maxSize (conn (wake_reader len x)) = maxSize (conn (snd x))"
  by (simp_all add: wake_reader_def)

text \<open>The bytes that \<^verbatim>\<open>readv\<close> stored into the booked window, acknowledged.\<close>

lemma inputAck_receives:
  assumes ok: "conn_ok g sys left s0"
    and book: "lb_book g (bookSize (conn s0)) (maxSize (conn s0)) (inputBuffer (conn s0)) (in_heap s0) = Some (p, b, w)"
    and bs: "int (length bs) \<le> s_len p"
  shows "\<exists>s'. conn_inputAck (int (length bs)) ((set_input b w s0)\<lparr>kern := k, in_heap := store_bytes p bs w\<rparr>) = Some s' \<and>
    conn_ok g sys left s' \<and> recv bs s0 s' \<and> kern s' = k"
proof -
  let ?s = "(set_input b w s0)\<lparr>kern := k, in_heap := store_bytes p bs w\<rparr>" and ?n = "int (length bs)"
  obtain own where own: "lb_inv (in_heap s0) own (inputBuffer (conn s0))" "submitted (in_heap s0) (inputBuffer (conn s0))"
    "bookable (in_heap s0) (inputBuffer (conn s0))" "lb_MallocLen (inputBuffer (conn s0)) = 0"
    using in_invE [OF conn_okD(3) [OF ok]] .
  obtain b2 w2 own2 where a: "lb_bookAck ?n b (store_bytes p bs w) = Some (lb_Len b2, b2, w2)"
    and r: "received (in_heap s0) own (inputBuffer (conn s0)) bs w2 own2 b2"
    using lb_book_receives [OF own conn_okD(1,5,7) [OF ok]] book bs by auto
  have upd: "conn_ok g sys left s' \<and> recv bs s0 s'"
    if e: "in_heap s' = w2" "out_heap s' = out_heap s0" "pl s' = pl s0"
      "core (conn s') = (c_fd (conn s0), c_operator (conn s0), b2, outputBuffer (conn s0))"
      "0 < bookSize (conn s')" "bookSize (conn s') < MaxInt32" "0 < maxSize (conn s')" for s'
  proof -
    have "conn_ok g sys left (set_input b2 w2 s0)"
      using ok received_in_inv [OF r] unfolding conn_ok_def by (simp add: conn_op_def)
    then have "conn_ok g sys left s'" by (rule conn_ok_cong) (use e in \<open>simp_all add: core_def\<close>)
    moreover have "inputBuffer (conn s') = b2" "outputBuffer (conn s') = outputBuffer (conn s0)"
      "c_fd (conn s') = c_fd (conn s0)" "c_operator (conn s') = c_operator (conn s0)" using e(4) by (simp_all add: core_def)
    ultimately show ?thesis using e r by (simp add: recv_def received_def)
  qed
  show ?thesis
  proof (cases "bs = []")
    case True
    let ?s' = "set_input b2 w2 ?s"
    have "conn_inputAck ?n ?s = Some ?s'" using a True by (simp add: conn_inputAck_def)
    moreover have "conn_ok g sys left ?s' \<and> recv bs s0 ?s'"
      by (rule upd) (use conn_okD [OF ok] in \<open>simp_all add: core_def\<close>)
    ultimately show ?thesis by (intro exI [of _ ?s']) simp
  next
    case False
    let ?s2 = "upd_conn (cap_maxSize (lb_Len b2)) (set_input b2 w2 (upd_conn (auto_size ?n) ?s))"
    define s' where "s' = wake_reader (lb_Len b2) (notify (lb_Len b2) ?n ?s2)"
    have "conn_inputAck ?n ?s = Some s'"
      unfolding s'_def by (rule conn_inputAck_pos) (use a False in simp_all)
    moreover have "conn_ok g sys left s' \<and> recv bs s0 s'"
      by (rule upd; use auto_size_ok [OF conn_okD(5,6) [OF ok], of ?n] conn_okD(7) [OF ok] mallocMax_pos in
          \<open>simp add: s'_def wake_reader_frame notify_frame; auto simp: core_def auto_size_def cap_maxSize_def Let_def\<close>)
    moreover have "kern s' = k" by (simp add: s'_def wake_reader_frame notify_frame)
    ultimately show ?thesis by blast
  qed
qed

lemma conn_inputs_ok:
  assumes "conn_ok g sys left s" "0 < caps"
  shows "\<exists>p s'. conn_inputs g caps s = Some ([p], s') \<and> pl s' = pl s \<and> kern s' = kern s \<and> 0 < s_len p \<and>
    conn_lent g sys left [p] s'"
proof -
  obtain own where own: "lb_inv (in_heap s) own (inputBuffer (conn s))" "submitted (in_heap s) (inputBuffer (conn s))"
    "bookable (in_heap s) (inputBuffer (conn s))" "lb_MallocLen (inputBuffer (conn s)) = 0"
    using in_invE [OF conn_okD(3) [OF assms(1)]] .
  obtain p b w where b: "lb_book g (bookSize (conn s)) (maxSize (conn s)) (inputBuffer (conn s)) (in_heap s) = Some (p, b, w)"
    "0 < s_len p" using lb_book_receives [OF own conn_okD(1,5,7) [OF assms(1)]] by blast
  have "conn_lent g sys left [p] (set_input b w s)" using assms(1) b(1) unfolding conn_lent_def by blast
  then show ?thesis using b assms(2) by (intro exI [of _ p] exI [of _ "set_input b w s"]) (simp add: conn_inputs_def)
qed

lemma store_bytes_Nil: "store_bytes p [] w = w"
proof -
  have "(\<lambda>i. if s_off p \<le> i \<and> i < s_off p + int (length ([] :: byte list)) then [] ! nat (i - s_off p)
      else cells w (s_arr p) i) = cells w (s_arr p)" by (auto simp: fun_eq_iff)
  then show ?thesis by (simp only: store_bytes_def fun_upd_triv) simp
qed

lemma conn_inputAck_neg: "n \<le> 0 \<Longrightarrow> conn_inputAck n s = conn_inputAck 0 s"
  by (simp add: conn_inputAck_def)

text \<open>One read of the poller: what the kernel returned is what the input buffer got.\<close>

lemma conn_reads:
  assumes ok: "conn_ok g sys left s0"
    and book: "lb_book g (bookSize (conn s0)) (maxSize (conn s0)) (inputBuffer (conn s0)) (in_heap s0) = Some (p, b, w)"
    and io: "ioread (sys_readv sys) fd [p] ivs (kern s0) w = Some ((n, err), bs', k, m)" and ivs: "1 \<le> ivs"
  shows "\<exists>bs s'. conn_inputAck n ((set_input b w s0)\<lparr>kern := k, in_heap := m\<rparr>) = Some s' \<and>
    conn_ok g sys left s' \<and> recv bs s0 s' \<and> kern s' = k \<and> n = (case fst (sys_readv sys fd (s_len p) (kern s0)) of
      Inr ds \<Rightarrow> int (length ds) | Inl e \<Rightarrow> if e = EINTR \<or> e = EAGAIN then 0 else -1) \<and>
    (err = None) = (case fst (sys_readv sys fd (s_len p) (kern s0)) of Inr ds \<Rightarrow> ds \<noteq> [] | Inl e \<Rightarrow> e = EINTR \<or> e = EAGAIN) \<and>
    bs = (case fst (sys_readv sys fd (s_len p) (kern s0)) of Inr ds \<Rightarrow> ds | Inl _ \<Rightarrow> [])"
proof -
  obtain own where own: "lb_inv (in_heap s0) own (inputBuffer (conn s0))" "submitted (in_heap s0) (inputBuffer (conn s0))"
    "bookable (in_heap s0) (inputBuffer (conn s0))" "lb_MallocLen (inputBuffer (conn s0)) = 0"
    using in_invE [OF conn_okD(3) [OF ok]] .
  have sz: "0 < s_len p" "s_len p < MaxInt32"
    using lb_book_receives [OF own conn_okD(1,5,7) [OF ok]] book conn_okD(6) [OF ok] by auto
  have rk: "readv_ok (sys_readv sys)" using kernel_okD(1) [OF conn_okD(2) [OF ok]] .
  obtain r k' where r: "sys_readv sys fd (s_len p) (kern s0) = (r, k')" by (cases "sys_readv sys fd (s_len p) (kern s0)")
  define bs where "bs = (case r of Inr ds \<Rightarrow> ds | Inl _ \<Rightarrow> [])"
  have len: "int (length bs) \<le> s_len p"
  proof -
    have "case fst (sys_readv sys fd (s_len p) (kern s0)) of Inl e \<Rightarrow> e \<noteq> 0 | Inr bs \<Rightarrow> int (length bs) \<le> s_len p"
      using rk unfolding readv_ok_def by blast
    then show ?thesis using r sz(1) by (cases r) (simp_all add: bs_def)
  qed
  have eq: "Some ((n, err), bs', k, m) = Some (case (r, k') of
      (Inl e, k) \<Rightarrow> (if e = EINTR \<or> e = EAGAIN then (0, None) else (-1, Some (Errno e)), [nil_slice], k, w)
    | (Inr [], k) \<Rightarrow> ((0, Some (Exc ErrEOF [])), [nil_slice], k, store_bytes p [] w)
    | (Inr bs, k) \<Rightarrow> ((int (length bs), None), [nil_slice], k, store_bytes p bs w))"
    using io ioread_window [OF rk sz ivs, of fd "kern s0" w] r by simp
  have m: "k = k'" "m = store_bytes p bs w" "n \<le> 0 \<and> bs = [] \<or> n = int (length bs)"
    "n = (case r of Inr ds \<Rightarrow> int (length ds) | Inl e \<Rightarrow> if e = EINTR \<or> e = EAGAIN then 0 else -1)"
    "(err = None) = (case r of Inr ds \<Rightarrow> ds \<noteq> [] | Inl e \<Rightarrow> e = EINTR \<or> e = EAGAIN)"
    using eq by (auto simp: bs_def store_bytes_Nil split: sum.splits list.splits if_splits)
  obtain s' where s': "conn_inputAck (int (length bs)) ((set_input b w s0)\<lparr>kern := k, in_heap := store_bytes p bs w\<rparr>) = Some s'"
    "conn_ok g sys left s'" "recv bs s0 s'" "kern s' = k"
    using inputAck_receives [OF ok book len] by blast
  have "conn_inputAck n ((set_input b w s0)\<lparr>kern := k, in_heap := m\<rparr>) = Some s'"
    using s'(1) m(2,3) by (auto simp: conn_inputAck_neg [of n])
  then show ?thesis using s'(2-4) m(4,5) r by (auto simp: bs_def)
qed

lemma conn_inputAck_0:
  assumes "conn_ok g sys left s"
  shows "\<exists>s'. conn_inputAck 0 s = Some s' \<and> conn_ok g sys left s' \<and> recv [] s s' \<and> kern s' = kern s"
proof -
  obtain own where own: "lb_inv (in_heap s) own (inputBuffer (conn s))" "submitted (in_heap s) (inputBuffer (conn s))"
    "bookable (in_heap s) (inputBuffer (conn s))" "lb_MallocLen (inputBuffer (conn s)) = 0"
    using in_invE [OF conn_okD(3) [OF assms]] .
  obtain b where b: "lb_bookAck 0 (inputBuffer (conn s)) (in_heap s) = Some (lb_Len (inputBuffer (conn s)), b, in_heap s)"
    "received (in_heap s) own (inputBuffer (conn s)) [] (in_heap s) own b" using lb_bookAck_0 [OF own] by blast
  have "conn_ok g sys left (set_input b (in_heap s) s)"
    using assms received_in_inv [OF b(2)] unfolding conn_ok_def by (simp add: conn_op_def)
  then show ?thesis using b by (simp add: conn_inputAck_def recv_def received_def)
qed

subsection \<open>Output\<close>

lemma upd_op_same:
  assumes "op_at (pl s) ptr = Some op"
  shows "upd_op ptr op s = s"
proof -
  have "set_op ptr op (pl s) = pl s"
  proof (cases ptr)
    case (OpPtr a)
    then have "(ops (opcache (pl s)))(a \<mapsto> op) = ops (opcache (pl s))" using assms by (simp add: op_at_def fun_upd_idem)
    then show ?thesis using OpPtr by (simp add: set_op_def put_op_def)
  qed (use assms in \<open>simp add: set_op_def op_at_def\<close>)
  then show ?thesis by (simp add: upd_op_def)
qed

lemma operator_Control_MOD:
  assumes "op_at (pl s) ptr = Some op" "op_poll op \<noteq> None" "event = PollR2RW \<or> event = PollRW2R"
  shows "operator_Control sys [] ptr event s =
    (case EpollCtl sys (poll_fd (pl s)) (fst (control_op event)) (FD op)
       (setOperator ptr \<lparr>ev_events = snd (control_op event), ev_data = None\<rparr>) (kern s) of
       (err, k) \<Rightarrow> Some (err, s\<lparr>kern := k\<rparr>))"
proof -
  have e: "event \<noteq> PollDetach" "\<not> (event = PollReadable \<or> event = PollWritable)" using assms(3) by auto
  have c: "op_Control (\<lambda>_. None) event op = Some (None, True, op)" using assms(2) e(1) by (simp add: op_Control_def)
  have u: "upd_op ptr op s = s" by (rule upd_op_same [OF assms(1)])
  have p: "poll_Control sys [] ptr event s = (case EpollCtl sys (poll_fd (pl s)) (fst (control_op event)) (FD op)
       (setOperator ptr \<lparr>ev_events = snd (control_op event), ev_data = None\<rparr>) (kern s) of
       (err, k) \<Rightarrow> Some (err, s\<lparr>kern := k\<rparr>))"
    unfolding poll_Control_def Let_def assms(1) bind.bind_lunit if_not_P [OF e(2)] if_not_P [OF e(1)] u case_prod_beta ..
  show ?thesis unfolding operator_Control_def Let_def assms(1) bind.bind_lunit c case_prod_conv if_True u p ..
qed

lemma rw2r_ok:
  assumes "op_at (pl s) (OpPtr (c_operator (conn s))) = Some op" "op_poll op \<noteq> None"
  shows "\<exists>k. rw2r sys s = Some (upd_conn (triggerWrite None) (s\<lparr>kern := k\<rparr>))"
  using assms by (auto simp: rw2r_def operator_Control_MOD split: prod.splits)

lemma triggerWrite_sel [simp]:
  "bookSize (triggerWrite e c) = bookSize c" "maxSize (triggerWrite e c) = maxSize c" "core (triggerWrite e c) = core c"
  "inputBuffer (triggerWrite e c) = inputBuffer c" "outputBuffer (triggerWrite e c) = outputBuffer c"
  "c_fd (triggerWrite e c) = c_fd c" "c_operator (triggerWrite e c) = c_operator c"
  by (simp_all add: triggerWrite_def core_def)

lemma out_invE:
  assumes "out_inv w b"
  obtains own where "lb_inv w own b" "submitted w b" "write_n b \<noteq> None" "flush b \<noteq> None"
proof -
  obtain own where o: "lb_inv w own b" "submitted w b" "write_n b \<noteq> None" using assms by (auto simp: out_inv_def)
  obtain hs rs ws wr ts where rd: "ready w own b hs rs ws (wr # ts)" by (rule ready_writeE [OF o])
  have "lseg (nodes w) (flush b) ws (write_n b)" using lb_repD(3) [OF readyD(1) [OF rd]] .
  then have "flush b \<noteq> None" using o(3) by (cases ws) auto
  then show thesis using that o by blast
qed

lemma conn_ok_busy:
  assumes "conn_ok g sys left s" "op_at (pl s) (OpPtr a) = Some op" "op_state op = 2"
  shows "a = c_operator (conn s)" "conn_op (conn s) op"
  using conn_okD(9) [OF assms(1), of a op] assms(2,3) by (simp_all add: op_at_def)

text \<open>\<open>sent n s s'\<close>: the first \<open>n\<close> bytes of the output buffer are gone.\<close>

definition sent :: "int \<Rightarrow> ('f, 'k) cstate \<Rightarrow> ('f, 'k) cstate \<Rightarrow> bool" where
  "sent n s s' \<longleftrightarrow>
     stream (out_heap s') (outputBuffer (conn s')) = drop (nat n) (stream (out_heap s) (outputBuffer (conn s))) \<and>
     lb_Len (outputBuffer (conn s')) = lb_Len (outputBuffer (conn s)) - n \<and>
     lb_MallocLen (outputBuffer (conn s')) = lb_MallocLen (outputBuffer (conn s)) \<and>
     in_heap s' = in_heap s \<and> inputBuffer (conn s') = inputBuffer (conn s) \<and> pl s' = pl s \<and>
     c_fd (conn s') = c_fd (conn s) \<and> c_operator (conn s') = c_operator (conn s)"

lemma out_skip_release:
  assumes "out_inv w b" "0 < n" "n \<le> lb_Len b"
  obtains b1 w1 b2 w2 where "lb_Skip n b w = Some (None, b1, w1)" "lb_Release b1 w1 = Some (b2, w2)" "out_inv w2 b2"
    "stream w2 b2 = drop (nat n) (stream w b)" "lb_Len b2 = lb_Len b - n" "lb_MallocLen b2 = lb_MallocLen b"
proof -
  obtain own where o: "lb_inv w own b" "submitted w b" "write_n b \<noteq> None" using out_invE [OF assms(1)] .
  obtain b1 w1 where s: "lb_Skip n b w = Some (None, b1, w1)" "consumed w own b n w1 b1"
    using lb_Skip_skips [OF o(1,2) assms(2,3)] by blast
  have c: "lb_inv w1 own b1" "submitted w1 b1" "stream w1 b1 = drop (nat n) (stream w b)" "lb_Len b1 = lb_Len b - n"
    "mallocSize b1 = mallocSize b" "write_n b1 = write_n b" using s(2) by (simp_all add: consumed_def)
  obtain b2 w2 gone where r: "lb_Release b1 w1 = Some (b2, w2)" "lb_inv w2 (own - set gone) b2" "submitted w2 b2"
    "stream w2 b2 = stream w1 b1" "lb_Len b2 = lb_Len b1" "mallocSize b2 = mallocSize b1" "write_n b2 = write_n b1"
    by (rule lb_Release_ok [OF c(1,2)]) blast
  have "out_inv w2 b2" using r(2,3,7) c(6) o(3) by (auto simp: out_inv_def)
  then show thesis using s(1) r c by (intro that [of b1 w1 b2 w2]) (simp_all add: lb_MallocLen_def)
qed

lemma conn_outputAck_ok:
  assumes ok: "conn_ok g sys left s" and op: "op_at (pl s) (OpPtr (c_operator (conn s))) = Some op" "op_poll op \<noteq> None"
    and n: "n \<le> lb_Len (outputBuffer (conn s))"
  shows "\<exists>s'. conn_outputAck sys n s = Some s' \<and> conn_ok g sys left s' \<and> sent (max 0 n) s s'"
proof -
  have "\<exists>s1. (if n > 0 then do {
               (_, b, w) \<leftarrow> lb_Skip n (outputBuffer (conn s)) (out_heap s);
               (b, w) \<leftarrow> lb_Release b w;
               Some (set_output b w s)
             } else Some s) = Some s1 \<and> conn_ok g sys left s1 \<and> sent (max 0 n) s s1 \<and> c_operator (conn s1) = c_operator (conn s)"
  proof (cases "n > 0")
    case True
    obtain b1 w1 b2 w2 where r: "lb_Skip n (outputBuffer (conn s)) (out_heap s) = Some (None, b1, w1)"
      "lb_Release b1 w1 = Some (b2, w2)" "out_inv w2 b2"
      "stream w2 b2 = drop (nat n) (stream (out_heap s) (outputBuffer (conn s)))"
      "lb_Len b2 = lb_Len (outputBuffer (conn s)) - n" "lb_MallocLen b2 = lb_MallocLen (outputBuffer (conn s))"
      by (rule out_skip_release [OF conn_okD(4) [OF ok] True n])
    have "conn_ok g sys left (set_output b2 w2 s)" using ok r(3) unfolding conn_ok_def by (simp add: conn_op_def)
    moreover have "sent (max 0 n) s (set_output b2 w2 s)" using True r(4-6) by (simp add: sent_def)
    ultimately show ?thesis using True r(1,2) by simp
  next
    case False
    then show ?thesis using ok by (simp add: sent_def)
  qed
  then obtain s1 where s1: "conn_outputAck sys n s = (if lb_IsEmpty (outputBuffer (conn s1)) then rw2r sys s1 else Some s1)"
    "conn_ok g sys left s1" "sent (max 0 n) s s1" "c_operator (conn s1) = c_operator (conn s)"
    unfolding conn_outputAck_def by auto
  have "pl s1 = pl s" using s1(3) by (simp add: sent_def)
  then obtain k where k: "rw2r sys s1 = Some (upd_conn (triggerWrite None) (s1\<lparr>kern := k\<rparr>))"
    using rw2r_ok [of s1 op] op s1(4) by auto
  have "conn_ok g sys left (upd_conn (triggerWrite None) (s1\<lparr>kern := k\<rparr>))"
    by (rule conn_ok_cong [OF s1(2)]) (use conn_okD [OF s1(2)] in simp_all)
  moreover have "sent (max 0 n) s (upd_conn (triggerWrite None) (s1\<lparr>kern := k\<rparr>))" using s1(3) by (simp add: sent_def)
  ultimately show ?thesis using s1 k by auto
qed

lemma conn_outputs_ok:
  assumes ok: "conn_ok g sys left s" and op: "op_at (pl s) (OpPtr (c_operator (conn s))) = Some op" "op_poll op \<noteq> None"
    and caps: "0 < caps"
  shows "\<exists>bs z s'. conn_outputs sys caps s = Some ((bs, z), s') \<and> pl s' = pl s \<and> length bs \<le> caps \<and>
    (\<forall>c\<in>set bs. 0 \<le> s_len c) \<and> (if bs = [] then conn_ok g sys left s' else conn_shown g sys left bs s')"
proof (cases "lb_IsEmpty (outputBuffer (conn s))")
  case True
  obtain k where k: "rw2r sys s = Some (upd_conn (triggerWrite None) (s\<lparr>kern := k\<rparr>))" using rw2r_ok [OF op] by blast
  have "conn_ok g sys left (upd_conn (triggerWrite None) (s\<lparr>kern := k\<rparr>))"
    by (rule conn_ok_cong [OF ok]) (use conn_okD [OF ok] in simp_all)
  then show ?thesis using True k by (simp add: conn_outputs_def)
next
  case False
  obtain own where o: "lb_inv (out_heap s) own (outputBuffer (conn s))" "submitted (out_heap s) (outputBuffer (conn s))"
    "flush (outputBuffer (conn s)) \<noteq> None" using out_invE [OF conn_okD(4) [OF ok]] .
  obtain vs where vs: "lb_GetBytes caps (outputBuffer (conn s)) (out_heap s) = Some vs"
    "prefix (vec_bytes (out_heap s) vs) (take (nat (lb_Len (outputBuffer (conn s)))) (stream (out_heap s) (outputBuffer (conn s))))"
    "length vs \<le> caps" "\<forall>v\<in>set vs. 0 \<le> s_len v"
    using lb_GetBytes_prefix [OF o caps] by blast
  then show ?thesis using False ok by (simp add: conn_outputs_def conn_shown_def)
qed

subsection \<open>The contract\<close>

lemma ioread_vector: "ioread rv fd [p] ivs k m = Some x \<Longrightarrow> 0 < s_len p \<Longrightarrow> 1 \<le> ivs"
  by (cases ivs) (simp_all add: ioread_def readv_def iovecs_def)

lemma conn_lentE:
  assumes "conn_lent g sys left bs s"
  obtains s0 p b w where "conn_ok g sys left s0" "bs = [p]" "s = set_input b w s0" "0 < s_len p"
    "lb_book g (bookSize (conn s0)) (maxSize (conn s0)) (inputBuffer (conn s0)) (in_heap s0) = Some (p, b, w)"
proof -
  obtain s0 p b w where s0: "conn_ok g sys left s0" "bs = [p]" "s = set_input b w s0"
    "lb_book g (bookSize (conn s0)) (maxSize (conn s0)) (inputBuffer (conn s0)) (in_heap s0) = Some (p, b, w)"
    using assms unfolding conn_lent_def by blast
  obtain own where own: "lb_inv (in_heap s0) own (inputBuffer (conn s0))" "submitted (in_heap s0) (inputBuffer (conn s0))"
    "bookable (in_heap s0) (inputBuffer (conn s0))" "lb_MallocLen (inputBuffer (conn s0)) = 0"
    using in_invE [OF conn_okD(3) [OF s0(1)]] .
  have "0 < s_len p" using lb_book_receives [OF own conn_okD(1,5,7) [OF s0(1)]] s0(4) by auto
  then show thesis using s0 that by blast
qed

lemma recv_kept: "recv bs s0 s' \<Longrightarrow> pl s = pl s0 \<Longrightarrow> kept s s'"
  by (auto simp: recv_def intro: kept_pl)

lemma iovecs_loop_prefix:
  assumes "iovecs_loop room tot bs = Some v" "\<forall>c\<in>set bs. 0 \<le> s_len c"
  shows "prefix (iov_bytes m v) (vec_bytes m bs)"
  using assms
proof (induction bs arbitrary: room tot v)
  case (Cons c bs)
  consider "s_len c = 0" | "s_len c \<noteq> 0" "tot + s_len c < MaxInt32" | "s_len c \<noteq> 0" "\<not> tot + s_len c < MaxInt32" by blast
  then show ?case
  proof cases
    case 1
    then have "prefix (iov_bytes m v) (vec_bytes m bs)" using Cons.IH [of room tot v] Cons.prems by simp
    then show ?thesis using 1 by (simp add: vec_bytes_def slice_bytes_empty)
  next
    case 2
    then obtain r v' where "room = Suc r" "v = (c, s_len c) # v'" "iovecs_loop r (tot + s_len c) bs = Some v'"
      using Cons.prems(1) by (cases room) (auto simp: Let_def)
    then show ?thesis using Cons.IH [of r "tot + s_len c" v'] Cons.prems(2) by (simp add: iov_bytes_def vec_bytes_def)
  next
    case 3
    then have "v = [(c, MaxInt32 - (tot + s_len c) + s_len c)]" using Cons.prems(1) by (cases room) (auto simp: Let_def)
    then show ?thesis by (auto simp: iov_bytes_def vec_bytes_def intro: prefix_prefix take_is_prefix)
  qed
qed (simp add: iov_bytes_def vec_bytes_def)

lemma send_okD:
  assumes "send_ok sm" "fst (sm fd f x k) = Inr j"
  shows "0 \<le> j" "j \<le> int (length x)"
proof -
  have "case fst (sm fd f x k) of Inl e \<Rightarrow> e \<noteq> 0 | Inr n \<Rightarrow> 0 \<le> n \<and> n \<le> int (length x)"
    using assms(1) unfolding send_ok_def by blast
  then show "0 \<le> j" "j \<le> int (length x)" using assms(2) by simp_all
qed

lemma iosend_le:
  assumes "kernel_ok sys left" "\<forall>c\<in>set bs. 0 \<le> s_len c"
    "iosend (sys_fstat sys) (sys_writev sys) (sys_sendmsg sys) fd bs ivs z k m = Some ((n, err), bs', k')"
  shows "n \<le> int (length (vec_bytes m bs))"
proof -
  obtain v where v: "iovecs bs ivs = Some v" using assms(3) by (auto simp: iosend_def writev_def sendmsg_def bind_eq_Some_conv split: if_splits)
  have "prefix (iov_bytes m v) (vec_bytes m bs)" using iovecs_loop_prefix [OF _ assms(2)] v by (simp add: iovecs_def)
  then have le: "length (iov_bytes m v) \<le> length (vec_bytes m bs)" by (rule prefix_length_le)
  have "n \<le> int (length (iov_bytes m v))"
  proof -
    let ?x = "if isFifo (sys_fstat sys) fd then sys_writev sys fd 0 (iov_bytes m v) k
      else sys_sendmsg sys fd (if z then MSG_ZEROCOPY else 0) (iov_bytes m v) k"
    have b: "j \<le> int (length (iov_bytes m v))" if "fst ?x = Inr j" for j
      using that send_okD(2) [OF kernel_okD(2) [OF assms(1)]] send_okD(2) [OF kernel_okD(3) [OF assms(1)]] by (metis (full_types))
    obtain r k0 where r: "?x = (r, k0)" by (cases ?x)
    have "n \<le> 0 \<or> r = Inr n"
      using assms(3) v r by (auto simp: iosend_def writev_def sendmsg_def bind_eq_Some_conv split: if_splits prod.splits sum.splits)
    then show ?thesis using b r by auto
  qed
  then show ?thesis using le by simp
qed

interpretation conn_owner: operator_owner sys "conn_handlers g sys U fenv oenv" "conn_ok g sys left"
    "conn_lent g sys left" "conn_shown g sys left" left
  for g sys U fenv oenv left
proof (unfold_locales, goal_cases)
  case (1 bs s)
  then show ?case by (auto simp: conn_shown_def intro: conn_okD(2) elim!: conn_lentE)
next
  case (2 s s')
  then show ?case by (rule conn_ok_static)
next
  case (3 s)
  then show ?case by (rule conn_ok_free)
next
  case (4 s a op)
  from conn_ok_busy(2) [OF this] show ?case by (simp add: conn_op_def)
next
  case (5 s a op h)
  from conn_ok_busy(2) [OF this(1-3)] this(4) show ?case by (simp add: conn_op_def)
next
  case (6 s a op h caps)
  have "h = CInputs" using conn_ok_busy(2) [OF 6(1-3)] 6(4) by (simp add: conn_op_def)
  moreover obtain p s' where "conn_inputs g caps s = Some ([p], s')" "pl s' = pl s" "kern s' = kern s" "0 < s_len p"
    "conn_lent g sys left [p] s'" using conn_inputs_ok [OF 6(1,5)] by blast
  ultimately show ?case using 6(5) by (intro exI [of _ "[p]"] exI [of _ s']) (simp add: conn_handlers_def kept_pl)
next
  case (7 bs s a op h ivs n err bs' k m)
  obtain s0 p b w where l: "conn_ok g sys left s0" "bs = [p]" "s = set_input b w s0" "0 < s_len p"
    "lb_book g (bookSize (conn s0)) (maxSize (conn s0)) (inputBuffer (conn s0)) (in_heap s0) = Some (p, b, w)"
    by (rule conn_lentE [OF 7(1)])
  have h: "h = CInputAck" using conn_ok_busy(2) [OF l(1), of a op] 7(2-4) l(3) by (simp add: conn_op_def)
  have io: "ioread (sys_readv sys) (FD op) [p] ivs (kern s0) w = Some ((n, err), bs', k, m)" using 7(5) l(2,3) by simp
  obtain ds s' where "conn_inputAck n ((set_input b w s0)\<lparr>kern := k, in_heap := m\<rparr>) = Some s'" "conn_ok g sys left s'"
    "recv ds s0 s'" "kern s' = k" using conn_reads [OF l(1,5) io ioread_vector [OF io l(4)]] by blast
  then show ?case using h l(3) recv_kept [of ds s0 s' s] by (simp add: conn_handlers_def)
next
  case (8 s a op h)
  have h: "h = CInputAck" using conn_ok_busy(2) [OF 8(1-3)] 8(4) by (simp add: conn_op_def)
  obtain s' where "conn_inputAck 0 s = Some s'" "conn_ok g sys left s'" "recv [] s s'"
    using conn_inputAck_0 [OF 8(1)] by blast
  then show ?case using h recv_kept by (auto simp: conn_handlers_def)
next
  case (9 s a op h caps)
  note c = conn_ok_busy [OF 9(1-3)]
  have h: "h = COutputs" "op_poll op \<noteq> None" using c(2) 9(4) by (simp_all add: conn_op_def)
  obtain bs z s' where "conn_outputs sys caps s = Some ((bs, z), s')" "pl s' = pl s" "length bs \<le> caps"
    "\<forall>c\<in>set bs. 0 \<le> s_len c" "if bs = [] then conn_ok g sys left s' else conn_shown g sys left bs s'"
    using conn_outputs_ok [OF 9(1) 9(2) [unfolded c(1)] h(2) 9(5)] by blast
  then show ?case using h(1) kept_pl by (simp add: conn_handlers_def)
next
  case (10 bs s a op h ivs z n err bs' k)
  have ok: "conn_ok g sys left s" and le: "\<forall>c\<in>set bs. 0 \<le> s_len c"
    and pf: "prefix (vec_bytes (out_heap s) bs)
      (take (nat (lb_Len (outputBuffer (conn s)))) (stream (out_heap s) (outputBuffer (conn s))))"
    using 10(1) by (simp_all add: conn_shown_def)
  note c = conn_ok_busy [OF ok 10(2,3)]
  have h: "h = COutputAck" "op_poll op \<noteq> None" using c(2) 10(4) by (simp_all add: conn_op_def)
  have "n \<le> int (length (vec_bytes (out_heap s) bs))" by (rule iosend_le [OF conn_okD(2) [OF ok] le 10(5)])
  moreover have "0 \<le> lb_Len (outputBuffer (conn s))"
    using out_invE [OF conn_okD(4) [OF ok]] readyE readyD(8) of_nat_0_le_iff by metis
  ultimately have n: "n \<le> lb_Len (outputBuffer (conn s))" using prefix_length_le [OF pf] by (simp add: le_nat_iff)
  let ?s = "s\<lparr>kern := k\<rparr>"
  have "conn_ok g sys left ?s" by (rule conn_ok_static [OF ok]) simp
  then obtain s' where "conn_outputAck sys n ?s = Some s'" "conn_ok g sys left s'" "sent (max 0 n) ?s s'"
    using conn_outputAck_ok [of g sys left ?s op n] 10(2) c(1) h(2) n by auto
  then show ?case using h(1) kept_pl [of s' s] by (auto simp: conn_handlers_def sent_def)
qed

end
