(* ===== verification/ConnPoll.thy ===== *)
theory ConnPoll
  imports ConnInv
begin

section \<open>Poller and connection together\<close>

text \<open>
  The composition: events that the poller handles and the bytes that arrive in, and leave, the
  buffers of the connection.
\<close>

subsection \<open>Frames of the poller's own steps\<close>

lemma op_release_frame:
  assumes "op_release ptr s = Some s'"
  shows "in_heap s' = in_heap s" "out_heap s' = out_heap s" "pstate.more s' = pstate.more s" "kern s' = kern s"
    "hups (pl s') = hups (pl s)"
  using assms by (auto simp: op_release_def bind_eq_Some_conv)

lemma appendHup_frame:
  assumes "appendHup sys ptr s = Some s'" "op_at (pl s) ptr = Some op"
  shows "in_heap s' = in_heap s" "out_heap s' = out_heap s" "pstate.more s' = pstate.more s"
    "hups (pl s') = hups (pl s) @ [OnHup op]"
proof -
  let ?s = "s\<lparr>pl := (pl s)\<lparr>hups := hups (pl s) @ [OnHup op]\<rparr>\<rparr>"
  obtain s1 where 1: "poll_detach sys ptr ?s = Some s1" "op_release ptr s1 = Some s'"
    using assms by (auto simp: appendHup_def bind_eq_Some_conv)
  have "in_heap s1 = in_heap ?s \<and> out_heap s1 = out_heap ?s \<and> pstate.more s1 = pstate.more ?s \<and> hups (pl s1) = hups (pl ?s)"
    using 1(1) by (auto simp: poll_detach_def operator_Control_def poll_Control_def bind_eq_Some_conv Let_def
        delOperator_def case_prod_beta split: if_splits)
  then show "in_heap s' = in_heap s" "out_heap s' = out_heap s" "pstate.more s' = pstate.more s"
    "hups (pl s') = hups (pl s) @ [OnHup op]"
    using op_release_frame [OF 1(2)] by auto
qed

lemma conn_more: "pstate.more s' = pstate.more s \<Longrightarrow> conn s' = conn s" for s :: "('f, 'k) cstate"
  by (cases s; cases s') simp

lemma conn_handlers_sel [simp]:
  "inputs (conn_handlers g sys U fenv oenv) CInputs = conn_inputs g"
  "ack (conn_handlers g sys U fenv oenv) CInputAck = conn_inputAck"
  "outputs (conn_handlers g sys U fenv oenv) COutputs = conn_outputs sys"
  "ack (conn_handlers g sys U fenv oenv) COutputAck = conn_outputAck sys"
  by (simp_all add: conn_handlers_def fun_eq_iff)

subsection \<open>Readable\<close>

lemma only_EPOLLIN:
  "EPOLLIN \<noteq> 0" "and EPOLLIN EPOLLOUT = 0" "and EPOLLIN (or EPOLLHUP EPOLLRDHUP) = 0" "and EPOLLIN EPOLLERR = 0"
  by (simp_all add: EPOLLIN_def EPOLLOUT_def EPOLLHUP_def EPOLLRDHUP_def EPOLLERR_def)

lemma only_EPOLLOUT:
  "EPOLLOUT \<noteq> 0" "and EPOLLOUT EPOLLIN = 0" "and EPOLLOUT (or EPOLLHUP EPOLLRDHUP) = 0" "and EPOLLOUT EPOLLERR = 0"
  by (simp_all add: EPOLLIN_def EPOLLOUT_def EPOLLHUP_def EPOLLRDHUP_def EPOLLERR_def)

text \<open>The operator of the connection is registered and not worked on.\<close>

definition conn_idle :: "('f, 'k) cstate \<Rightarrow> bool" where
  "conn_idle s \<longleftrightarrow> (\<exists>op. op_at (pl s) (OpPtr (c_operator (conn s))) = Some op \<and> op_state op = 1 \<and>
     c_fd (conn s) \<noteq> FD (wop (pl s)))"

lemma conn_idleE:
  assumes "conn_ok g sys left s" "conn_idle s"
  obtains op s1 where "op_at (pl s) (OpPtr (c_operator (conn s))) = Some op" "op_state op = 1" "conn_op (conn s) op"
    "s1 = upd_op (OpPtr (c_operator (conn s))) (op\<lparr>op_state := 2\<rparr>) s" "conn_ok g sys left s1" "conn s1 = conn s"
    "handle_event sys H i \<lparr>ev_events = m, ev_data = Some (OpPtr (c_operator (conn s)))\<rparr> s =
      do { s \<leftarrow> handle_ready sys H i (OpPtr (c_operator (conn s))) m s1; Some (False, s) }"
proof -
  let ?p = "OpPtr (c_operator (conn s))"
  obtain op where op: "op_at (pl s) ?p = Some op" "op_state op = 1" "c_fd (conn s) \<noteq> FD (wop (pl s))"
    using assms(2) by (auto simp: conn_idle_def)
  let ?op = "op\<lparr>op_state := 2\<rparr>"
  have co: "conn_op (conn s) op"
    using conn_okD(9) [OF assms(1), of "c_operator (conn s)" op] op(1,2) by (simp add: op_at_def)
  have "plain ?op = plain op" using op(2) by (simp add: plain_def)
  then have "conn_ok g sys left (upd_op ?p ?op s)"
    using conn_ok_static [OF assms(1)] static_upd_op [OF static_refl op(1)] by blast
  moreover have "handle_event sys H i \<lparr>ev_events = m, ev_data = Some ?p\<rparr> s =
      do { s \<leftarrow> handle_ready sys H i ?p m (upd_op ?p ?op s); Some (False, s) }"
    using op co by (simp add: handle_event_def getOperator_def op_do_def wop_set_op conn_op_def)
  moreover have "conn (upd_op ?p ?op s) = conn s" by (simp add: upd_op_def)
  ultimately show thesis using op co that by blast
qed

lemma conn_inputs_book:
  assumes "conn_ok g sys left s" "0 < caps"
  obtains p b w where
    "lb_book g (bookSize (conn s)) (maxSize (conn s)) (inputBuffer (conn s)) (in_heap s) = Some (p, b, w)"
    "conn_inputs g caps s = Some ([p], set_input b w s)" "0 < s_len p" "s_len p < MaxInt32"
proof -
  obtain own where own: "lb_inv (in_heap s) own (inputBuffer (conn s))" "submitted (in_heap s) (inputBuffer (conn s))"
    "bookable (in_heap s) (inputBuffer (conn s))" "lb_MallocLen (inputBuffer (conn s)) = 0"
    using in_invE [OF conn_okD(3) [OF assms(1)]] .
  obtain p b w where b: "lb_book g (bookSize (conn s)) (maxSize (conn s)) (inputBuffer (conn s)) (in_heap s) = Some (p, b, w)"
    "0 < s_len p" "s_len p \<le> bookSize (conn s)"
    using lb_book_receives [OF own conn_okD(1,5,7) [OF assms(1)]] by blast
  then show thesis using assms(2) conn_okD(6) [OF assms(1)] by (intro that [of p b w]) (simp_all add: conn_inputs_def)
qed

text \<open>How a phase ends: released with a hang-up or without one.\<close>

lemma finish_event:
  assumes "conn_ok g sys left s3" "op_at (pl s3) (OpPtr (c_operator (conn s3))) = Some op" "op_state op = 2" "conn_op (conn s3) op"
    "c_fd (conn s3) \<noteq> FD (wop (pl s3))"
  obtains s' where
    "(if err then appendHup sys (OpPtr (c_operator (conn s3))) s3 else op_release (OpPtr (c_operator (conn s3))) s3) = Some s'"
    "conn_ok g sys left s'" "conn_idle s'" "in_heap s' = in_heap s3" "out_heap s' = out_heap s3" "conn s' = conn s3"
    "hups (pl s') = hups (pl s3) @ (if err then [Some COnHup] else [])" "released (OpPtr (c_operator (conn s3))) s3 s'"
proof -
  let ?p = "OpPtr (c_operator (conn s3))"
  have p: "op_poll op \<noteq> None" "OnHup op = Some COnHup" "op_state op \<noteq> 0" using assms(3,4) by (simp_all add: conn_op_def)
  have idle: "conn_idle s'" if r: "op_release ?p t = Some s'" and f: "framed s3 s'" and c: "conn s' = conn s3" for t s'
  proof -
    have "FD (wop (pl s')) = FD (wop (pl s3))" using f plain_sel(1) by (auto simp: framed_def)
    moreover obtain op' where "op_at (pl s') ?p = Some op'" "op_state op' = 1"
      using r by (auto simp: op_release_def op_done_def bind_eq_Some_conv)
    ultimately show ?thesis using assms(5) c by (simp add: conn_idle_def)
  qed
  show thesis
  proof (cases err)
    case True
    obtain s' where s': "appendHup sys ?p s3 = Some s'" "released ?p s3 s'" "conn_ok g sys left s'"
      by (rule conn_owner.appendHup_ok [OF assms(1,2) p(1,3)])
    note f = appendHup_frame [OF s'(1) assms(2)]
    have c: "conn s' = conn s3" by (rule conn_more [OF f(3)])
    obtain t where "op_release ?p t = Some s'" using s'(1) by (auto simp: appendHup_def bind_eq_Some_conv Let_def)
    from idle [OF this _ c] have "conn_idle s'" using s'(2) by (simp add: released_def)
    then show thesis using True s' f c p(2) by (intro that [of s']) simp_all
  next
    case False
    obtain s' where s': "op_release ?p s3 = Some s'" "released ?p s3 s'" "conn_ok g sys left s'"
      by (rule conn_owner.op_release_ok [OF assms(1,2) p(3)])
    note f = op_release_frame [OF s'(1)]
    have c: "conn s' = conn s3" by (rule conn_more [OF f(3)])
    from idle [OF s'(1) _ c] have "conn_idle s'" using s'(2) by (simp add: released_def)
    then show thesis using False s' f c by (intro that [of s']) simp_all
  qed
qed

lemma event_ends:
  assumes "conn_ok g sys left s" "conn_idle s" "op_at (pl s) (OpPtr (c_operator (conn s))) = Some op"
    and "s1 = upd_op (OpPtr (c_operator (conn s))) (op\<lparr>op_state := 2\<rparr>) s"
    and "handle_ready sys H i (OpPtr (c_operator (conn s))) m s1 =
      (if err then appendHup sys (OpPtr (c_operator (conn s))) s3 else op_release (OpPtr (c_operator (conn s))) s3)"
    and "conn_ok g sys left s3" "pl s3 = pl s1" "c_operator (conn s3) = c_operator (conn s)" "c_fd (conn s3) = c_fd (conn s)"
  obtains s' where "handle_event sys H i \<lparr>ev_events = m, ev_data = Some (OpPtr (c_operator (conn s)))\<rparr> s = Some (False, s')"
    "conn_ok g sys left s'" "conn_idle s'" "in_heap s' = in_heap s3" "out_heap s' = out_heap s3" "conn s' = conn s3"
    "hups (pl s') = hups (pl s) @ (if err then [Some COnHup] else [])"
proof -
  let ?p = "OpPtr (c_operator (conn s))" and ?op = "op\<lparr>op_state := 2\<rparr>"
  obtain op' where 1: "op_at (pl s) ?p = Some op'" "conn_op (conn s) op'"
    "handle_event sys H i \<lparr>ev_events = m, ev_data = Some ?p\<rparr> s =
      do { s \<leftarrow> handle_ready sys H i ?p m (upd_op ?p (op'\<lparr>op_state := 2\<rparr>) s); Some (False, s) }"
    by (rule conn_idleE [OF assms(1,2)]) blast
  have e: "op' = op" using 1(1) assms(3) by simp
  have op3: "op_at (pl s3) (OpPtr (c_operator (conn s3))) = Some ?op" "op_state ?op = 2" "conn_op (conn s3) ?op"
    using 1(2) e assms(4,7-9) by (simp_all add: conn_op_def)
  have fd: "c_fd (conn s3) \<noteq> FD (wop (pl s3))" using assms(2,4,7,9) by (auto simp: conn_idle_def wop_set_op)
  obtain s' where s': "(if err then appendHup sys (OpPtr (c_operator (conn s3))) s3
      else op_release (OpPtr (c_operator (conn s3))) s3) = Some s'"
    "conn_ok g sys left s'" "conn_idle s'" "in_heap s' = in_heap s3" "out_heap s' = out_heap s3" "conn s' = conn s3"
    "hups (pl s') = hups (pl s3) @ (if err then [Some COnHup] else [])"
    by (rule finish_event [OF assms(6) op3 fd]) blast
  have "hups (pl s3) = hups (pl s)" using assms(4,7) by simp
  then show thesis using s' 1(3) e assms(4,5,8) by (intro that [of s']) (simp_all split: if_splits)
qed

lemma read_ready:
  assumes "conn_ok g sys left s" "op_at (pl s) (OpPtr (c_operator (conn s))) = Some op" "conn_op (conn s) op"
    "i < length (barriers (pl s))" "bars_ok (pl s)"
  obtains n bs err s3 where "0 < n"
    "handle_ready sys (conn_handlers g sys U fenv oenv) i (OpPtr (c_operator (conn s))) EPOLLIN s =
      (if err \<noteq> (None :: error option) then appendHup sys (OpPtr (c_operator (conn s))) s3
       else op_release (OpPtr (c_operator (conn s))) s3)"
    "conn_ok g sys left s3" "recv bs s s3"
    "(err = None) = (case fst (sys_readv sys (c_fd (conn s)) n (kern s)) of Inr ds \<Rightarrow> ds \<noteq> [] | Inl e \<Rightarrow> e = EINTR \<or> e = EAGAIN)"
    "bs = (case fst (sys_readv sys (c_fd (conn s)) n (kern s)) of Inr ds \<Rightarrow> ds | Inl _ \<Rightarrow> [])"
proof -
  let ?H = "conn_handlers g sys U fenv oenv" and ?p = "OpPtr (c_operator (conn s))"
  obtain br where br: "barrier_at i (pl s) = Some br" "0 < bar_bs br" "bar_bs br \<le> bar_ivs br"
    using barrier_atE [of i "pl s"] assms(4,5) by (auto simp: bars_ok_def)
  obtain p b w where bk: "lb_book g (bookSize (conn s)) (maxSize (conn s)) (inputBuffer (conn s)) (in_heap s) = Some (p, b, w)"
    "conn_inputs g (bar_bs br) s = Some ([p], set_input b w s)" "0 < s_len p" by (rule conn_inputs_book [OF assms(1) br(2)])
  have iv: "1 \<le> bar_ivs br" using br by simp
  obtain n err bs' k m where io: "ioread (sys_readv sys) (c_fd (conn s)) [p] (bar_ivs br) (kern s) w = Some ((n, err), bs', k, m)"
    by (rule ioread_total [OF kernel_okD(1) [OF conn_okD(2) [OF assms(1)]], of "[p]" "bar_ivs br" "c_fd (conn s)" "kern s" w])
      (use bk(3) iv in auto)
  obtain bs s3 where 3: "conn_inputAck n ((set_input b w s)\<lparr>kern := k, in_heap := m\<rparr>) = Some s3" "conn_ok g sys left s3"
    "recv bs s s3"
    "(err = None) = (case fst (sys_readv sys (c_fd (conn s)) (s_len p) (kern s)) of Inr ds \<Rightarrow> ds \<noteq> [] | Inl e \<Rightarrow> e = EINTR \<or> e = EAGAIN)"
    "bs = (case fst (sys_readv sys (c_fd (conn s)) (s_len p) (kern s)) of Inr ds \<Rightarrow> ds | Inl _ \<Rightarrow> [])"
    using conn_reads [OF assms(1) bk(1) io iv] by blast
  have ra: "read_ack sys ?H ?p (bar_ivs br) [p] (set_input b w s) = Some ((n, err), bs', s3)"
    using assms(2,3) io 3(1) by (simp add: read_ack_def conn_op_def)
  have "read_phase sys ?H i ?p s =
      (if err \<noteq> None then do { s \<leftarrow> appendHup sys ?p s3; Some (Inl (), s) } else Some (Inr n, s3))"
    using assms(2,3) br(1) bk(2) ra by (simp add: read_phase_def conn_op_def)
  then have "handle_ready sys ?H i ?p EPOLLIN s = (if err \<noteq> None then appendHup sys ?p s3 else op_release ?p s3)"
    by (cases "appendHup sys ?p s3"; cases err) (simp_all add: handle_ready_def only_EPOLLIN Let_def)
  then show thesis by (rule that [OF bk(3) _ 3(2-5)])
qed

text \<open>
  C20: a readable event. The poller books a window of the input buffer, reads into it once and
  acknowledges: what the kernel returned is what is appended to the input stream, nothing more
  and nothing less, and the operator is released. On an end of file or an error (but for EINTR
  and EAGAIN) the hang-up of the connection is noted.
\<close>
theorem readable_event_delivers:
  assumes "conn_ok g sys left s" "conn_idle s" "i < length (barriers (pl s))" "bars_ok (pl s)"
  shows "\<exists>s' n. 0 < n \<and>
    handle_event sys (conn_handlers g sys U fenv oenv) i
      \<lparr>ev_events = EPOLLIN, ev_data = Some (OpPtr (c_operator (conn s)))\<rparr> s = Some (False, s') \<and>
    conn_ok g sys left s' \<and> conn_idle s' \<and>
    (case fst (sys_readv sys (c_fd (conn s)) n (kern s)) of
       Inr bs \<Rightarrow> stream (in_heap s') (inputBuffer (conn s')) = stream (in_heap s) (inputBuffer (conn s)) @ bs \<and>
         hups (pl s') = hups (pl s) @ (if bs = [] then [Some COnHup] else [])
     | Inl e \<Rightarrow> stream (in_heap s') (inputBuffer (conn s')) = stream (in_heap s) (inputBuffer (conn s)) \<and>
         hups (pl s') = hups (pl s) @ (if e = EINTR \<or> e = EAGAIN then [] else [Some COnHup]))"
proof -
  let ?H = "conn_handlers g sys U fenv oenv" and ?p = "OpPtr (c_operator (conn s))"
  obtain op s1 where 1: "op_at (pl s) ?p = Some op" "conn_op (conn s) op" "s1 = upd_op ?p (op\<lparr>op_state := 2\<rparr>) s"
    "conn_ok g sys left s1" "conn s1 = conn s" by (rule conn_idleE [OF assms(1,2)])
  have op: "op_at (pl s1) (OpPtr (c_operator (conn s1))) = Some (op\<lparr>op_state := 2\<rparr>)" "conn_op (conn s1) (op\<lparr>op_state := 2\<rparr>)"
    "i < length (barriers (pl s1))" "bars_ok (pl s1)"
    using 1(2,3,5) assms(3,4) by (simp_all add: conn_op_def bars_ok_def)
  obtain n bs err s3 where 3: "0 < n" "handle_ready sys ?H i (OpPtr (c_operator (conn s1))) EPOLLIN s1 =
      (if err \<noteq> (None :: error option) then appendHup sys (OpPtr (c_operator (conn s1))) s3 else op_release (OpPtr (c_operator (conn s1))) s3)"
    "conn_ok g sys left s3" "recv bs s1 s3"
    "(err = None) = (case fst (sys_readv sys (c_fd (conn s1)) n (kern s1)) of Inr ds \<Rightarrow> ds \<noteq> [] | Inl e \<Rightarrow> e = EINTR \<or> e = EAGAIN)"
    "bs = (case fst (sys_readv sys (c_fd (conn s1)) n (kern s1)) of Inr ds \<Rightarrow> ds | Inl _ \<Rightarrow> [])"
    by (rule read_ready [OF 1(4) op])
  have fr: "pl s3 = pl s1" "c_operator (conn s3) = c_operator (conn s)" "c_fd (conn s3) = c_fd (conn s)" "kern s1 = kern s"
    using 3(4) 1(3,5) by (simp_all add: recv_def)
  obtain s' where s': "handle_event sys ?H i \<lparr>ev_events = EPOLLIN, ev_data = Some ?p\<rparr> s = Some (False, s')"
    "conn_ok g sys left s'" "conn_idle s'" "in_heap s' = in_heap s3" "conn s' = conn s3"
    "hups (pl s') = hups (pl s) @ (if err \<noteq> None then [Some COnHup] else [])"
    by (rule event_ends [OF assms(1,2) 1(1,3) 3(2) [unfolded 1(5)] 3(3) fr(1-3)])
  have "stream (in_heap s') (inputBuffer (conn s')) = stream (in_heap s) (inputBuffer (conn s)) @ bs"
    using 3(4) s'(4,5) 1(3,5) by (simp add: recv_def)
  then show ?thesis
    using 3(1,5,6) s' fr(4) 1(5) by (intro exI [of _ s'] exI [of _ n]) (auto split: sum.splits)
qed

subsection \<open>Writable\<close>

lemma iovecs_loop_progress:
  assumes "iovecs_loop room 0 bs = Some v" "\<forall>c\<in>set bs. 0 \<le> s_len c" "vec_bytes m bs \<noteq> []"
  shows "iov_bytes m v \<noteq> []"
  using assms
proof (induction bs)
  case (Cons c bs)
  show ?case
  proof (cases "s_len c = 0")
    case True
    then show ?thesis using Cons by (simp add: vec_bytes_def slice_bytes_empty)
  next
    case False
    then have l: "0 < s_len c" using Cons.prems(2) by force
    then have ne: "slice_bytes m c \<noteq> []" by (simp add: slice_bytes_def)
    obtain v' j where v: "v = (c, j) # v'" "0 < j"
      using Cons.prems(1) False l by (cases room) (auto simp: Let_def MaxInt32_def split: if_splits)
    then show ?thesis using ne by (simp add: iov_bytes_def)
  qed
qed (simp add: vec_bytes_def)

lemma send_prefix:
  assumes "conn_ok g sys left s" "0 < cap" "cap \<le> civ" "0 < lb_Len (outputBuffer (conn s))"
  obtains vs v n err k bs' r where "lb_GetBytes cap (outputBuffer (conn s)) (out_heap s) = Some vs" "vs \<noteq> []"
    "iosend (sys_fstat sys) (sys_writev sys) (sys_sendmsg sys) (c_fd (conn s)) vs civ False (kern s) (out_heap s) =
      Some ((n, err), bs', k)"
    "iov_bytes (out_heap s) v \<noteq> []"
    "prefix (iov_bytes (out_heap s) v) (take (nat (lb_Len (outputBuffer (conn s)))) (stream (out_heap s) (outputBuffer (conn s))))"
    "(if isFifo (sys_fstat sys) (c_fd (conn s)) then sys_writev sys (c_fd (conn s)) 0 (iov_bytes (out_heap s) v) (kern s)
      else sys_sendmsg sys (c_fd (conn s)) 0 (iov_bytes (out_heap s) v) (kern s)) = (r, k)"
    "case r of Inr j \<Rightarrow> n = j \<and> 0 \<le> j \<and> j \<le> int (length (iov_bytes (out_heap s) v)) \<and> err = None
         | Inl e \<Rightarrow> if e = EAGAIN then n = 0 \<and> err = None else n = -1 \<and> err = Some (Errno e)"
proof -
  let ?fd = "c_fd (conn s)" and ?b = "outputBuffer (conn s)" and ?w = "out_heap s"
  obtain own where o: "lb_inv ?w own ?b" "submitted ?w ?b" "flush ?b \<noteq> None" using out_invE [OF conn_okD(4) [OF assms(1)]] .
  obtain vs where vs: "lb_GetBytes cap ?b ?w = Some vs" "prefix (vec_bytes ?w vs) (take (nat (lb_Len ?b)) (stream ?w ?b))"
    "length vs \<le> cap" "vec_bytes ?w vs \<noteq> []" "\<forall>v\<in>set vs. 0 \<le> s_len v"
    using lb_GetBytes_prefix [OF o assms(2)] assms(4) by blast
  have lv: "length vs \<le> civ" using vs(3) assms(3) by simp
  note K = kernel_okD [OF conn_okD(2) [OF assms(1)]]
  obtain v n err k bs' where io: "iosend (sys_fstat sys) (sys_writev sys) (sys_sendmsg sys) ?fd vs civ False (kern s) ?w =
      Some ((n, err), bs', k)" "iovecs vs civ = Some v"
    "(v = [] \<and> n = 0 \<and> err = None \<and> k = kern s) \<or>
     (v \<noteq> [] \<and> (\<exists>r. (if isFifo (sys_fstat sys) ?fd then sys_writev sys ?fd 0 (iov_bytes ?w v) (kern s)
        else sys_sendmsg sys ?fd (if False then MSG_ZEROCOPY else 0) (iov_bytes ?w v) (kern s)) = (r, k) \<and>
        (case r of Inr j \<Rightarrow> n = j \<and> 0 \<le> j \<and> j \<le> int (length (iov_bytes ?w v)) \<and> err = None
         | Inl e \<Rightarrow> if e = EAGAIN then n = 0 \<and> err = None else n = -1 \<and> err = Some (Errno e))))"
    by (rule iosend_outcome [OF K(2,3) vs(5) lv]) blast
  have x: "iov_bytes ?w v \<noteq> []" "prefix (iov_bytes ?w v) (vec_bytes ?w vs)"
    using iovecs_loop_progress [OF _ vs(5,4)] iovecs_loop_prefix [OF _ vs(5)] io(2) by (simp_all add: iovecs_def)
  have px: "prefix (iov_bytes ?w v) (take (nat (lb_Len ?b)) (stream ?w ?b))" using x(2) vs(2) by (rule prefix_order.trans)
  have ne: "v \<noteq> []" "vs \<noteq> []" using x(1) vs(4) by (auto simp: iov_bytes_def vec_bytes_def)
  then obtain r where "(if isFifo (sys_fstat sys) ?fd then sys_writev sys ?fd 0 (iov_bytes ?w v) (kern s)
      else sys_sendmsg sys ?fd 0 (iov_bytes ?w v) (kern s)) = (r, k)"
    "case r of Inr j \<Rightarrow> n = j \<and> 0 \<le> j \<and> j \<le> int (length (iov_bytes ?w v)) \<and> err = None
         | Inl e \<Rightarrow> if e = EAGAIN then n = 0 \<and> err = None else n = -1 \<and> err = Some (Errno e)"
    using io(3) [unfolded if_False] by blast
  then show thesis by (rule that [OF vs(1) ne(2) io(1) x(1) px])
qed

lemma write_ready:
  assumes "conn_ok g sys left s" "op_at (pl s) (OpPtr (c_operator (conn s))) = Some op" "conn_op (conn s) op"
    "i < length (barriers (pl s))" "bars_ok (pl s)" "0 < lb_Len (outputBuffer (conn s))" "op_state op = 2"
  obtains x n err k s3 where "x \<noteq> []"
    "prefix x (take (nat (lb_Len (outputBuffer (conn s)))) (stream (out_heap s) (outputBuffer (conn s))))"
    "handle_ready sys (conn_handlers g sys U fenv oenv) i (OpPtr (c_operator (conn s))) EPOLLOUT s =
      (if err \<noteq> (None :: error option) then appendHup sys (OpPtr (c_operator (conn s))) s3
       else op_release (OpPtr (c_operator (conn s))) s3)"
    "conn_ok g sys left s3" "sent (max 0 n) (s\<lparr>kern := k\<rparr>) s3"
    "case fst (if isFifo (sys_fstat sys) (c_fd (conn s)) then sys_writev sys (c_fd (conn s)) 0 x (kern s)
          else sys_sendmsg sys (c_fd (conn s)) 0 x (kern s)) of
       Inr j \<Rightarrow> n = j \<and> 0 \<le> j \<and> err = None
     | Inl e \<Rightarrow> if e = EAGAIN then n = 0 \<and> err = None else n = -1 \<and> err = Some (Errno e)"
proof -
  let ?H = "conn_handlers g sys U fenv oenv" and ?p = "OpPtr (c_operator (conn s))" and ?fd = "c_fd (conn s)"
  let ?b = "outputBuffer (conn s)" and ?w = "out_heap s"
  obtain br where br: "barrier_at i (pl s) = Some br" "0 < bar_bs br" "bar_bs br \<le> bar_ivs br"
    using barrier_atE [of i "pl s"] assms(4,5) by (auto simp: bars_ok_def)
  obtain vs v n err k bs' r where io: "lb_GetBytes (bar_bs br) ?b ?w = Some vs" "vs \<noteq> []"
    "iosend (sys_fstat sys) (sys_writev sys) (sys_sendmsg sys) ?fd vs (bar_ivs br) False (kern s) ?w = Some ((n, err), bs', k)"
    "iov_bytes ?w v \<noteq> []" "prefix (iov_bytes ?w v) (take (nat (lb_Len ?b)) (stream ?w ?b))"
    "(if isFifo (sys_fstat sys) ?fd then sys_writev sys ?fd 0 (iov_bytes ?w v) (kern s)
      else sys_sendmsg sys ?fd 0 (iov_bytes ?w v) (kern s)) = (r, k)"
    "case r of Inr j \<Rightarrow> n = j \<and> 0 \<le> j \<and> j \<le> int (length (iov_bytes ?w v)) \<and> err = None
         | Inl e \<Rightarrow> if e = EAGAIN then n = 0 \<and> err = None else n = -1 \<and> err = Some (Errno e)"
    by (rule send_prefix [OF assms(1) br(2,3) assms(6)])
  have le: "n \<le> lb_Len ?b"
    using io(7) prefix_length_le [OF io(5)] assms(6) by (auto split: sum.splits if_splits simp: le_nat_iff)
  have ok2: "conn_ok g sys left (s\<lparr>kern := k\<rparr>)" by (rule conn_ok_static [OF assms(1)]) simp
  obtain s3 where 3: "conn_outputAck sys n (s\<lparr>kern := k\<rparr>) = Some s3" "conn_ok g sys left s3" "sent (max 0 n) (s\<lparr>kern := k\<rparr>) s3"
    using conn_outputAck_ok [OF ok2, of op n] assms(2,3) le by (auto simp: conn_op_def)
  have ne: "\<not> lb_IsEmpty ?b" using assms(6) by (simp add: lb_IsEmpty_def)
  have "write_phase sys ?H i ?p s =
      (if err \<noteq> None then do { s \<leftarrow> appendHup sys ?p s3; Some (Inl (), s) } else Some (Inr (), s3))"
    using assms(2,3) br(1) ne io(1-3) 3(1) by (simp add: write_phase_def conn_op_def conn_outputs_def)
  then have "handle_ready sys ?H i ?p EPOLLOUT s = (if err \<noteq> None then appendHup sys ?p s3 else op_release ?p s3)"
    by (cases "appendHup sys ?p s3"; cases err) (simp_all add: handle_ready_def only_EPOLLOUT Let_def)
  then show thesis
    by (rule that [OF io(4,5) _ 3(2,3)]) (use io(6,7) in \<open>auto split: sum.splits\<close>)
qed

text \<open>
  C21: a writable event. When the output buffer is not empty the poller offers the kernel a
  non-empty prefix \<open>x\<close> of what is to be sent; the bytes that the kernel took, and only they, leave the
  output stream. An error but EAGAIN leaves the stream alone and notes the hang-up.
\<close>
theorem writable_event_sends:
  assumes "conn_ok g sys left s" "conn_idle s" "i < length (barriers (pl s))" "bars_ok (pl s)"
    and "0 < lb_Len (outputBuffer (conn s))"
  shows "\<exists>s' x. x \<noteq> [] \<and>
    prefix x (take (nat (lb_Len (outputBuffer (conn s)))) (stream (out_heap s) (outputBuffer (conn s)))) \<and>
    handle_event sys (conn_handlers g sys U fenv oenv) i
      \<lparr>ev_events = EPOLLOUT, ev_data = Some (OpPtr (c_operator (conn s)))\<rparr> s = Some (False, s') \<and>
    conn_ok g sys left s' \<and> conn_idle s' \<and>
    (case fst (if isFifo (sys_fstat sys) (c_fd (conn s)) then sys_writev sys (c_fd (conn s)) 0 x (kern s)
               else sys_sendmsg sys (c_fd (conn s)) 0 x (kern s)) of
       Inr j \<Rightarrow> stream (out_heap s') (outputBuffer (conn s')) = drop (nat j) (stream (out_heap s) (outputBuffer (conn s))) \<and>
         hups (pl s') = hups (pl s)
     | Inl e \<Rightarrow> stream (out_heap s') (outputBuffer (conn s')) = stream (out_heap s) (outputBuffer (conn s)) \<and>
         hups (pl s') = hups (pl s) @ (if e = EAGAIN then [] else [Some COnHup]))"
proof -
  let ?H = "conn_handlers g sys U fenv oenv" and ?p = "OpPtr (c_operator (conn s))" and ?fd = "c_fd (conn s)"
  let ?b = "outputBuffer (conn s)" and ?w = "out_heap s"
  obtain op s1 where 1: "op_at (pl s) ?p = Some op" "conn_op (conn s) op" "s1 = upd_op ?p (op\<lparr>op_state := 2\<rparr>) s"
    "conn_ok g sys left s1" "conn s1 = conn s" by (rule conn_idleE [OF assms(1,2)])
  have op: "op_at (pl s1) (OpPtr (c_operator (conn s1))) = Some (op\<lparr>op_state := 2\<rparr>)" "conn_op (conn s1) (op\<lparr>op_state := 2\<rparr>)"
    "i < length (barriers (pl s1))" "bars_ok (pl s1)" "0 < lb_Len (outputBuffer (conn s1))" "op_state (op\<lparr>op_state := 2\<rparr>) = 2"
    using 1(2,3,5) assms(3-5) by (simp_all add: conn_op_def bars_ok_def)
  have h: "out_heap s1 = ?w" "kern s1 = kern s" using 1(3) by simp_all
  obtain x n err k s3 where 3: "x \<noteq> []" "prefix x (take (nat (lb_Len ?b)) (stream ?w ?b))"
    "handle_ready sys ?H i ?p EPOLLOUT s1 = (if err \<noteq> None then appendHup sys ?p s3 else op_release ?p s3)"
    "conn_ok g sys left s3" "sent (max 0 n) (s1\<lparr>kern := k\<rparr>) s3"
    "case fst (if isFifo (sys_fstat sys) ?fd then sys_writev sys ?fd 0 x (kern s) else sys_sendmsg sys ?fd 0 x (kern s)) of
       Inr j \<Rightarrow> n = j \<and> 0 \<le> j \<and> err = None
     | Inl e \<Rightarrow> if e = EAGAIN then n = 0 \<and> err = None else n = -1 \<and> err = Some (Errno e)"
    by (rule write_ready [OF 1(4) op, unfolded 1(5) h])
  have fr: "pl s3 = pl s1" "c_operator (conn s3) = c_operator (conn s)" "c_fd (conn s3) = ?fd"
    "stream (out_heap s3) (outputBuffer (conn s3)) = drop (nat (max 0 n)) (stream ?w ?b)"
    using 3(5) 1(3,5) by (simp_all add: sent_def)
  obtain s' where s': "handle_event sys ?H i \<lparr>ev_events = EPOLLOUT, ev_data = Some ?p\<rparr> s = Some (False, s')"
    "conn_ok g sys left s'" "conn_idle s'" "out_heap s' = out_heap s3" "conn s' = conn s3"
    "hups (pl s') = hups (pl s) @ (if err \<noteq> None then [Some COnHup] else [])"
    by (rule event_ends [OF assms(1,2) 1(1,3) 3(3,4) fr(1-3)])
  show ?thesis
    using 3(1,2,6) s' fr(4) by (intro exI [of _ s'] exI [of _ x]) (auto split: sum.splits if_splits)
qed

subsection \<open>The loop\<close>

text \<open>
  C22: one call of \<^verbatim>\<open>handler\<close>, with any events whose operators exist. It returns, whatever the kernel
  reports and however long the connection is readable; the connection stays well formed; and every
  operator that the poller took it also released, so the same operators are worked on as before.
\<close>
theorem poll_serves_connection:
  assumes "conn_ok g sys left s" "\<forall>ev\<in>set evs. \<forall>ptr. ev_data ev = Some ptr \<longrightarrow> op_at (pl s) ptr \<noteq> None"
    "length evs \<le> length (barriers (pl s))" "bars_ok (pl s)" "poll_buf (pl s) \<noteq> []"
  shows "\<exists>closed s'. poll_handler sys (conn_handlers g sys U fenv oenv) evs s = Some (closed, s') \<and>
    conn_ok g sys left s' \<and> busy s' = busy s"
  using conn_owner.poll_handler_ok [OF assms, of U fenv oenv] by blast

text \<open>
  C23: one round of \<^verbatim>\<open>Wait\<close>. When \<^verbatim>\<open>epoll_wait\<close> returns no more events than asked for, each for an operator
  that exists, the round does not panic: no index is out of range of the barriers, whose number
  stays 128 times a power of two, at most 128K, and equal to the length of the event list.
\<close>
theorem Wait_round_safe:
  assumes "conn_ok g sys left s" "args_ok (pl s)" "poll_buf (pl s) \<noteq> []" "\<forall>ptr\<in>R. op_at (pl s) ptr \<noteq> None" "epoll_ok sys R"
  shows "\<exists>r s'. wait_round sys (conn_handlers g sys U fenv oenv) l s = Some (r, s') \<and> conn_ok g sys left s' \<and>
    args_ok (pl s') \<and> poll_buf (pl s') \<noteq> [] \<and> (\<forall>ptr\<in>R. op_at (pl s') ptr \<noteq> None) \<and> busy s' = busy s"
  using conn_owner.wait_round_ok [of g sys left R s U fenv oenv l] assms unfolding conn_owner.round_ok_def by blast


subsection \<open>An example\<close>

text \<open>
  A kernel that has bytes to read and a log of the bytes it was given, and a connection with four
  bytes in each buffer, registered with a poller.
\<close>

definition ex_sys :: "(byte list \<times> byte list) sys" where
  "ex_sys = \<lparr>
     sys_readv = (\<lambda>fd n k. if fst k = [] \<or> n \<le> 0 then (Inl EAGAIN, k)
                           else (Inr (take (nat n) (fst k)), drop (nat n) (fst k), snd k)),
     sys_writev = (\<lambda>fd f x k. (Inr (int (length x)), fst k, snd k @ x)),
     sys_sendmsg = (\<lambda>fd f x k. (Inr (int (length x)), fst k, snd k @ x)),
     sys_fstat = (\<lambda>_. Some 0xC000),
     sys_read8 = (\<lambda>fd k. (Some [1, 0, 0, 0, 0, 0, 0, 0], k)),
     sys_write8 = (\<lambda>fd x k. (None, k)),
     sys_recvmsg = (\<lambda>fd k. (Some (Errno EAGAIN), k)),
     sys_close = (\<lambda>fd k. (None, k)),
     sys_eventfd = (\<lambda>k. (Inr 4, k)),
     EpollCreate = (\<lambda>_ k. (Inr 3, k)),
     EpollCtl = (\<lambda>_ _ _ _ k. (None, k)),
     EpollWait = (\<lambda>fd n msec k. (if 1 \<le> n then Inr [\<lparr>ev_events = EPOLLIN, ev_data = Some WopPtr\<rparr>] else Inl 22, k))\<rparr>"

definition ex_op :: "conn_handler FDOperator" where
  "ex_op = zero_FDOperator\<lparr>FD := 5, OnHup := Some COnHup, Inputs := Some CInputs, InputAck := Some CInputAck,
     Outputs := Some COutputs, OutputAck := Some COutputAck, op_poll := Some 0, op_state := 1\<rparr>"

definition ex_poll :: "conn_handler defaultPoll" where
  "ex_poll = \<lparr>poll_id = 0, poll_fd = 3, wop = zero_FDOperator\<lparr>FD := 4, op_state := 1\<rparr>, poll_buf = replicate 8 0,
     trigger = 0,
     opcache = \<lparr>ops = [0 \<mapsto> ex_op], next_op = 1, first = None, op_cache = [0], locked = 0, freelocked = 0, freelist = []\<rparr>,
     args_size = 128, args_caps = 32, args_events = 128, barriers = replicate 128 \<lparr>bar_bs = barriercap, bar_ivs = barriercap\<rparr>,
     hups = []\<rparr>"

definition ex_conn :: "nat connection" where
  "ex_conn = \<lparr>keychain = [0, 0, 0, 0], c_fd = 5, c_network = ''tcp'', c_remote = ''peer'', c_closed = 0, detaching = False,
     ctx_set = True, onConnectCallback = None, onDisconnectCallback = None, onRequestCallback = None,
     closeCallbacks = [Finalizer], c_operator = 0, readTimeout = 0, readTrigger = [], waitReadSize = 0,
     writeTimeout = 1, writeTrigger = [], inputBuffer = ex_buffer, outputBuffer = ex_buffer,
     outputBarrier = \<lparr>bar_bs = barriercap, bar_ivs = barriercap\<rparr>, supportZeroCopy = False, maxSize = 8192, bookSize = 8192,
     c_state = 0\<rparr>"

definition ex_state :: "(nat, byte list \<times> byte list) cstate" where
  "ex_state = \<lparr>in_heap = ex_world, out_heap = ex_world, kern = ([7, 8, 9], []), pl = ex_poll, hup_tasks = [],
     conn = ex_conn, tasks = [], barrierPool = [], connections = Map.empty\<rparr>"

lemma ex_kernel: "kernel_ok ex_sys (\<lambda>k. length (fst k))"
proof -
  have "readv_ok (sys_readv ex_sys)" by (auto simp: readv_ok_def ex_sys_def EAGAIN_def)
  moreover have "send_ok (sys_writev ex_sys)" "send_ok (sys_sendmsg ex_sys)" by (simp_all add: send_ok_def ex_sys_def)
  moreover have "length (fst k') < length (fst k)" if "sys_readv ex_sys fd j k = (Inr (d # ds), k')" for fd j k d ds k'
    using that by (cases "fst k") (auto simp: ex_sys_def split: if_splits)
  ultimately show ?thesis unfolding kernel_ok_def by blast
qed

lemma ex_cache: "cache_inv (opcache ex_poll) [] {0}"
  by (simp add: cache_inv_def cache_core_def ex_poll_def frees_def ex_op_def zero_FDOperator_def)

lemma ex_bookable: "bookable ex_world ex_buffer" "lb_MallocLen ex_buffer = 0"
  by (simp add: bookable_def ex_buffer_def ex_nd writable_def getMode_def)
    (simp_all add: ex_defs readonlyMask_def lb_MallocLen_def)

lemma ex_ok: "conn_ok ex_globals ex_sys (\<lambda>k. length (fst k)) ex_state"
proof -
  have i: "in_inv ex_world ex_buffer" using ex_inv ex_bookable by (auto simp: in_inv_def)
  have o: "out_inv ex_world ex_buffer" using ex_inv by (auto simp: out_inv_def ex_buffer_def)
  have "a = 0 \<and> conn_op ex_conn op" if "ops (opcache ex_poll) a = Some op" for a op
    using that by (auto simp: ex_poll_def conn_op_def ex_conn_def ex_op_def zero_FDOperator_def split: if_splits)
  then show ?thesis
    using i o ex_mcache ex_kernel ex_cache by (auto simp: conn_ok_def ex_state_def ex_conn_def MaxInt32_def)
qed

lemma ex_idle: "conn_idle ex_state"
  by (simp add: conn_idle_def ex_state_def ex_conn_def ex_poll_def op_at_def ex_op_def)

lemma ex_args: "args_ok (pl ex_state)" "poll_buf (pl ex_state) \<noteq> []" "bars_ok (pl ex_state)" "length (barriers (pl ex_state)) = 128"
proof -
  show a: "args_ok (pl ex_state)" by (auto simp: args_ok_def ex_state_def ex_poll_def intro: exI [of _ 0])
  show "bars_ok (pl ex_state)" using args_ok_bars [OF a] by blast
qed (simp_all add: ex_state_def ex_poll_def)

lemma ex_ops: "\<forall>ptr\<in>{WopPtr, OpPtr 0}. op_at (pl ex_state) ptr \<noteq> None" "epoll_ok ex_sys {WopPtr, OpPtr 0}"
  by (auto simp: ex_state_def ex_poll_def op_at_def epoll_ok_def ex_sys_def)

theorem readable_event_delivers_witness:
  "\<exists>s'. handle_event ex_sys (conn_handlers ex_globals ex_sys (\<lambda>_ _. None) [] []) 0
      \<lparr>ev_events = EPOLLIN, ev_data = Some (OpPtr 0)\<rparr> ex_state = Some (False, s') \<and>
    prefix [11, 12, 20, 21, 7] (stream (in_heap s') (inputBuffer (conn s'))) \<and> hups (pl s') = []"
proof -
  obtain s' n where s': "0 < n" "handle_event ex_sys (conn_handlers ex_globals ex_sys (\<lambda>_ _. None) [] []) 0
      \<lparr>ev_events = EPOLLIN, ev_data = Some (OpPtr (c_operator (conn ex_state)))\<rparr> ex_state = Some (False, s')"
    "case fst (sys_readv ex_sys (c_fd (conn ex_state)) n (kern ex_state)) of
       Inr bs \<Rightarrow> stream (in_heap s') (inputBuffer (conn s')) = stream (in_heap ex_state) (inputBuffer (conn ex_state)) @ bs \<and>
         hups (pl s') = hups (pl ex_state) @ (if bs = [] then [Some COnHup] else [])
     | Inl e \<Rightarrow> stream (in_heap s') (inputBuffer (conn s')) = stream (in_heap ex_state) (inputBuffer (conn ex_state)) \<and>
         hups (pl s') = hups (pl ex_state) @ (if e = EINTR \<or> e = EAGAIN then [] else [Some COnHup])"
    using readable_event_delivers [OF ex_ok ex_idle, of 0 "\<lambda>_ _. None" "[]" "[]"] ex_args by auto
  obtain j where "nat n = Suc j" using s'(1) by (cases "nat n") auto
  then show ?thesis
    using s' by (auto simp: ex_state_def ex_conn_def ex_sys_def ex_poll_def ex_stream)
qed

theorem writable_event_sends_witness:
  "\<exists>s' x. x \<noteq> [] \<and> handle_event ex_sys (conn_handlers ex_globals ex_sys (\<lambda>_ _. None) [] []) 0
      \<lparr>ev_events = EPOLLOUT, ev_data = Some (OpPtr 0)\<rparr> ex_state = Some (False, s') \<and>
    [11, 12, 20, 21] = x @ stream (out_heap s') (outputBuffer (conn s'))"
proof -
  have l: "0 < lb_Len (outputBuffer (conn ex_state))" by (simp add: ex_state_def ex_conn_def lb_Len_def ex_buffer_def)
  have k: "fst (if isFifo (sys_fstat ex_sys) fd then sys_writev ex_sys fd 0 x k else sys_sendmsg ex_sys fd 0 x k) = Inr (int (length x))"
    for fd x k by (simp add: ex_sys_def)
  obtain s' x where s': "x \<noteq> []"
    "prefix x (take (nat (lb_Len (outputBuffer (conn ex_state)))) (stream (out_heap ex_state) (outputBuffer (conn ex_state))))"
    "handle_event ex_sys (conn_handlers ex_globals ex_sys (\<lambda>_ _. None) [] []) 0
      \<lparr>ev_events = EPOLLOUT, ev_data = Some (OpPtr (c_operator (conn ex_state)))\<rparr> ex_state = Some (False, s')"
    "stream (out_heap s') (outputBuffer (conn s')) = drop (length x) (stream (out_heap ex_state) (outputBuffer (conn ex_state)))"
    using writable_event_sends [OF ex_ok ex_idle _ _ l, of 0 "\<lambda>_ _. None" "[]" "[]"] ex_args by (auto simp: k)
  have "prefix x (stream ex_world ex_buffer)"
    using s'(2) by (auto simp: ex_state_def ex_conn_def intro: prefix_order.trans take_is_prefix)
  then show ?thesis using s' by (auto simp: ex_state_def ex_conn_def ex_stream elim!: prefixE)
qed

theorem poll_serves_connection_witness:
  "\<exists>closed s'. poll_handler ex_sys (conn_handlers ex_globals ex_sys (\<lambda>_ _. None) [] [])
      [\<lparr>ev_events = 21, ev_data = Some (OpPtr 0)\<rparr>, \<lparr>ev_events = 5, ev_data = None\<rparr>] ex_state = Some (closed, s') \<and>
    busy s' = busy ex_state"
  using poll_serves_connection [OF ex_ok, of "[\<lparr>ev_events = 21, ev_data = Some (OpPtr 0)\<rparr>, \<lparr>ev_events = 5, ev_data = None\<rparr>]"
      "\<lambda>_ _. None" "[]" "[]"] ex_ops(1) ex_args
  by auto

theorem Wait_round_safe_witness:
  "\<exists>r s'. wait_round ex_sys (conn_handlers ex_globals ex_sys (\<lambda>_ _. None) [] []) (-1, 128) ex_state = Some (r, s') \<and>
    args_ok (pl s')"
  using Wait_round_safe [OF ex_ok ex_args(1,2) ex_ops, of "\<lambda>_ _. None" "[]" "[]"] by blast


theorem Trigger_writes_once_witness:
  "kern (triggers (ex_sys\<lparr>sys_write8 := \<lambda>fd x k. (None, fst k, snd k @ x)\<rparr>) 5 ex_state) = ([7, 8, 9], [0, 0, 0, 0, 0, 0, 0, 1])"
  using Trigger_writes_once [of ex_state 5 "ex_sys\<lparr>sys_write8 := \<lambda>fd x k. (None, fst k, snd k @ x)\<rparr>"]
  by (simp add: ex_state_def ex_poll_def)

end
