(* ===== verification/Lifecycle.thy ===== *)
theory Lifecycle
  imports Connection "HOL-Library.Multiset"
begin

section \<open>The life of a connection (connection\_onevent.go, connection\_reactor.go)\<close>

text \<open>
  Who calls the callbacks of a connection, and when. The state is the connection and a multiset of
  goroutines: the tasks that \<^verbatim>\<open>onProcess\<close> starts, and the calls of \<^verbatim>\<open>onConnect\<close>, \<^verbatim>\<open>onRequest\<close>, \<^verbatim>\<open>onHup\<close> and
  \<^verbatim>\<open>onClose\<close>, each at a point between two atomic accesses. A callback of the user is one step,
  its end; what happens in the meantime, calls of \<^verbatim>\<open>Close\<close> by the callback itself included, are steps of
  other goroutines. The counters are a log.

  \<open>panics\<close> says whether the callbacks may panic; \<^verbatim>\<open>runner.RunTask\<close> recovers from a panic, so the
  deferred function of the task runs and the program goes on.
\<close>

subsection \<open>State\<close>

record 'f life =
  l_conn :: "'f connection"
  connects :: nat
  disconnects :: nat
  requests :: nat
  closes :: nat

text \<open>The points of a task: what it does next.\<close>

datatype tpc =
    TChange | TOnConnect | TActive | TChangeD | TOnDisconnect | TUnlockC
  | TStart | TOnRequest | TStatus | TLen who | TUnlock | TRecheck | TRelock | TRelen | TRestart

text \<open>
  The goroutines. \<open>Task r t\<close> is a task, \<open>r\<close> whether it was given an \<^verbatim>\<open>OnRequest\<close>; \<open>Run\<close> is one that runs the close
  callbacks.
\<close>

datatype thread =
    Task bool tpc
  | Run
  | ConnectStart | ConnectLock | ConnectProcess
  | RequestStart | RequestProcess
  | HupClose | HupDisconnect | HupState | HupLock | HupChange | HupOnDisconnect | HupUnlock | HupCallback
  | CloseStart | CloseForce | CloseCallback

definition with_conn :: "'f connection \<Rightarrow> 'f life \<Rightarrow> 'f life" where
  "with_conn c s = s\<lparr>l_conn := c\<rparr>"

subsection \<open>Steps\<close>

text \<open>\<^verbatim>\<open>onProcess\<close>: the guard, and the task it hands to the runner.\<close>

definition process_step :: "bool \<Rightarrow> bool \<Rightarrow> 'f life \<Rightarrow> 'f life \<times> thread list" where
  "process_step hasConnect r s =
     (let (ok, c) = lock processing (l_conn s)
      in if ok then (with_conn c s, [Task r (if hasConnect then TChange else TStart)]) else (s, []))"

text \<open>\<^verbatim>\<open>closeCallback\<close> with \<^verbatim>\<open>needLock\<close>.\<close>

definition closeCallback_step :: "'f life \<Rightarrow> 'f life \<times> thread list" where
  "closeCallback_step s =
     (let (ok, c) = lock processing (l_conn s) in if ok then (with_conn c s, [Run]) else (s, []))"

fun task_step :: "bool \<Rightarrow> tpc \<Rightarrow> 'f life \<Rightarrow> 'f life \<times> thread list" where
  "task_step r TChange s =
     (let (ok, c) = changeState connStateNone connStateConnected (l_conn s)
      in (with_conn c s, [Task r (if ok then TOnConnect else TStart)]))"
| "task_step r TOnConnect s = (s\<lparr>connects := connects s + 1\<rparr>, [Task r TActive])"
| "task_step r TActive s = (s, [Task r (if IsActive (l_conn s) then TUnlockC else TChangeD)])"
| "task_step r TChangeD s =
     (let (ok, c) = changeState connStateConnected connStateDisconnected (l_conn s)
      in (with_conn c s, [Task r (if ok \<and> onDisconnectCallback c \<noteq> None then TOnDisconnect else TUnlockC)]))"
| "task_step r TOnDisconnect s = (s\<lparr>disconnects := disconnects s + 1\<rparr>, [Task r TUnlockC])"
| "task_step r TUnlockC s = (with_conn (unlock connecting (l_conn s)) s, [Task r TStart])"
| "task_step r TStart s =
     (s, [Task r (if r \<and> lb_Len (inputBuffer (l_conn s)) > 0 then TOnRequest else TStatus)])"
| "task_step r TOnRequest s = (s\<lparr>requests := requests s + 1\<rparr>, [Task r TStatus])"
| "task_step r TStatus s = (s, [Task r (TLen (status closing (l_conn s)))])"
| "task_step r (TLen closedBy) s =
     (s, [if closedBy = user \<or> \<not> r \<or> lb_Len (inputBuffer (l_conn s)) = 0
          then (if closedBy \<noteq> none then Run else Task r TUnlock)
          else Task r TOnRequest])"
| "task_step r TUnlock s = (with_conn (unlock processing (l_conn s)) s, [Task r TRecheck])"
| "task_step r TRecheck s = (s, [Task r (if status closing (l_conn s) \<noteq> 0 then TRelock else TRelen)])"
| "task_step r TRelock s =
     (let (ok, c) = lock processing (l_conn s) in (with_conn c s, [if ok then Run else Task r TRelen]))"
| "task_step r TRelen s = (s, if r \<and> lb_Len (inputBuffer (l_conn s)) > 0 then [Task r TRestart] else [])"
| "task_step r TRestart s =
     (let (ok, c) = lock processing (l_conn s) in (with_conn c s, if ok then [Task r TStart] else []))"

text \<open>\<^verbatim>\<open>onConnect\<close>.\<close>

fun onConnect_step :: "thread \<Rightarrow> 'f life \<Rightarrow> 'f life \<times> thread list" where
  "onConnect_step ConnectStart s =
     (if onConnectCallback (l_conn s) = None
      then (with_conn (snd (changeState connStateNone connStateConnected (l_conn s))) s, [])
      else (s, [ConnectLock]))"
| "onConnect_step ConnectLock s =
     (let (ok, c) = lock connecting (l_conn s) in (with_conn c s, if ok then [ConnectProcess] else []))"
| "onConnect_step ConnectProcess s = process_step True (onRequestCallback (l_conn s) \<noteq> None) s"
| "onConnect_step _ s = (s, [])"

text \<open>\<^verbatim>\<open>onRequest\<close>.\<close>

fun onRequest_step :: "thread \<Rightarrow> 'f life \<Rightarrow> 'f life \<times> thread list" where
  "onRequest_step RequestStart s =
     (if onRequestCallback (l_conn s) = None then (s, [])
      else if getState (l_conn s) = connStateNone \<and> onConnectCallback (l_conn s) \<noteq> None then (s, [])
      else (s, [RequestProcess]))"
| "onRequest_step RequestProcess s = process_step False True s"
| "onRequest_step _ s = (s, [])"

text \<open>\<^verbatim>\<open>onHup\<close>, with \<^verbatim>\<open>onDisconnect\<close> inlined.\<close>

fun onHup_step :: "thread \<Rightarrow> 'f life \<Rightarrow> 'f life \<times> thread list" where
  "onHup_step HupClose s =
     (let (ok, c) = closeBy poller (l_conn s) in (with_conn c s, if ok then [HupDisconnect] else []))"
| "onHup_step HupDisconnect s =
     (if onDisconnectCallback (l_conn s) = None then (s, [HupCallback])
      else if onConnectCallback (l_conn s) = None
      then (with_conn (setState connStateDisconnected (l_conn s)) s, [HupOnDisconnect])
      else (s, [HupState]))"
| "onHup_step HupState s = (s, [if getState (l_conn s) \<noteq> connStateNone then HupLock else HupCallback])"
| "onHup_step HupLock s =
     (let (ok, c) = lock connecting (l_conn s) in (with_conn c s, [if ok then HupChange else HupCallback]))"
| "onHup_step HupChange s =
     (let (ok, c) = changeState connStateConnected connStateDisconnected (l_conn s)
      in (with_conn c s, [if ok then HupOnDisconnect else HupUnlock]))"
| "onHup_step HupOnDisconnect s =
     (s\<lparr>disconnects := disconnects s + 1\<rparr>,
      [if onConnectCallback (l_conn s) = None then HupCallback else HupUnlock])"
| "onHup_step HupUnlock s = (with_conn (unlock connecting (l_conn s)) s, [HupCallback])"
| "onHup_step HupCallback s =
     (if onConnectCallback (l_conn s) = None \<and> onRequestCallback (l_conn s) = None then (s, [])
      else closeCallback_step s)"
| "onHup_step _ s = (s, [])"

text \<open>\<^verbatim>\<open>onClose\<close>.\<close>

fun onClose_step :: "thread \<Rightarrow> 'f life \<Rightarrow> 'f life \<times> thread list" where
  "onClose_step CloseStart s =
     (let (ok, c) = closeBy user (l_conn s) in (with_conn c s, [if ok then CloseCallback else CloseForce]))"
| "onClose_step CloseForce s = (with_conn (force closing user (l_conn s)) s, [CloseCallback])"
| "onClose_step CloseCallback s = closeCallback_step s"
| "onClose_step _ s = (s, [])"

fun thread_step :: "thread \<Rightarrow> 'f life \<Rightarrow> 'f life \<times> thread list" where
  "thread_step (Task r t) s = task_step r t s"
| "thread_step Run s = (s\<lparr>closes := closes s + 1\<rparr>, [])"
| "thread_step ConnectStart s = onConnect_step ConnectStart s"
| "thread_step ConnectLock s = onConnect_step ConnectLock s"
| "thread_step ConnectProcess s = onConnect_step ConnectProcess s"
| "thread_step RequestStart s = onRequest_step RequestStart s"
| "thread_step RequestProcess s = onRequest_step RequestProcess s"
| "thread_step CloseStart s = onClose_step CloseStart s"
| "thread_step CloseForce s = onClose_step CloseForce s"
| "thread_step CloseCallback s = onClose_step CloseCallback s"
| "thread_step p s = onHup_step p s"

text \<open>The deferred function of the task, when a callback panicked.\<close>

definition recover_step :: "'f life \<Rightarrow> 'f life \<times> thread list" where
  "recover_step s =
     (let s = with_conn (unlock processing (l_conn s)) s
      in (s, [if IsActive (l_conn s) then CloseStart else Run]))"

inductive life_step ::
    "bool \<Rightarrow> 'f life \<times> thread multiset \<Rightarrow> 'f life \<times> thread multiset \<Rightarrow> bool"
  for panics where
  go: "thread_step p s = (s', ps) \<Longrightarrow> life_step panics (s, add_mset p M) (s', mset ps + M)"
| request: "life_step panics (s, M) (s, add_mset RequestStart M)"
| hup: "life_step panics (s, M) (s, add_mset HupClose M)"
| close: "life_step panics (s, M) (s, add_mset CloseStart M)"
| input: "life_step panics (s, M) (with_conn ((l_conn s)\<lparr>inputBuffer := b\<rparr>) s, M)"
| panic: "panics \<Longrightarrow> t = TOnConnect \<or> t = TOnRequest \<or> t = TOnDisconnect \<Longrightarrow> recover_step s = (s', ps) \<Longrightarrow>
    life_step panics (s, add_mset (Task r t) M) (s', mset ps + M)"

definition life_start :: "'f connection \<Rightarrow> 'f life \<times> thread multiset" where
  "life_start c = (\<lparr>l_conn = c, connects = 0, disconnects = 0, requests = 0, closes = 0\<rparr>, {#ConnectStart#})"

definition fresh_conn :: "'f connection \<Rightarrow> bool" where
  "fresh_conn c \<longleftrightarrow> keychain c = replicate total 0 \<and> c_state c = connStateNone"

subsection \<open>Counting goroutines\<close>

definition num :: "(thread \<Rightarrow> bool) \<Rightarrow> thread multiset \<Rightarrow> nat" where
  "num P M = size (filter_mset P M)"

lemma num_simps [simp]:
  "num P {#} = 0" "num P (add_mset p M) = (if P p then 1 else 0) + num P M" "num P (M + N) = num P M + num P N"
  by (simp_all add: num_def)

lemma num_mono: "(\<And>p. P p \<Longrightarrow> Q p) \<Longrightarrow> num P M \<le> num Q M"
  by (induction M) auto

subsection \<open>The processing section\<close>

text \<open>The goroutines that hold the processing lock.\<close>

fun in_section :: "thread \<Rightarrow> bool" where
  "in_section (Task r t) = (t \<noteq> TRecheck \<and> t \<noteq> TRelock \<and> t \<noteq> TRelen \<and> t \<noteq> TRestart)"
| "in_section Run = True"
| "in_section _ = False"

definition life_mutex :: "'f life \<times> thread multiset \<Rightarrow> bool" where
  "life_mutex x \<longleftrightarrow>
     length (keychain (l_conn (fst x))) = total \<and>
     status processing (l_conn (fst x)) \<in> {0, 1} \<and>
     (status processing (l_conn (fst x)) = 0 \<longrightarrow> num in_section (snd x) + closes (fst x) = 0) \<and>
     (status processing (l_conn (fst x)) \<noteq> 0 \<longrightarrow> num in_section (snd x) + closes (fst x) = 1)"

lemmas key_defs = closing_def connecting_def processing_def flushing_def total_def none_def user_def poller_def
lemmas lock_defs = lock_def unlock_def closeBy_def force_def status_def isCloseBy_def IsActive_def CompareAndSwap_def
  changeState_def setState_def getState_def with_conn_def process_step_def closeCallback_step_def

lemma life_mutex_go:
  assumes "life_mutex (s, add_mset p M)" "thread_step p s = (s', ps)"
  shows "life_mutex (s', mset ps + M)"
proof -
  have "life_mutex (fst (thread_step p s), mset (snd (thread_step p s)) + M)"
  proof (cases p)
    case (Task r t)
    then show ?thesis using assms(1)
      by (cases t) (auto simp: life_mutex_def lock_defs key_defs Let_def)
  qed (use assms(1) in \<open>auto simp: life_mutex_def lock_defs key_defs Let_def\<close>)
  then show ?thesis using assms(2) by simp
qed

lemma life_mutex_step:
  assumes "life_step False x y" "life_mutex x"
  shows "life_mutex y"
  using assms(1)
proof cases
  case (go p s s' ps M)
  then show ?thesis using life_mutex_go assms(2) by blast
qed (use assms(2) in \<open>auto simp: life_mutex_def with_conn_def status_def\<close>)

lemma life_mutex_start: "fresh_conn c \<Longrightarrow> life_mutex (life_start c)"
  by (simp add: life_mutex_def life_start_def fresh_conn_def status_def key_defs numeral_eq_Suc)

lemma life_mutex_reach: "(life_step False)\<^sup>*\<^sup>* (life_start c) x \<Longrightarrow> fresh_conn c \<Longrightarrow> life_mutex x"
  by (induction rule: rtranclp_induct) (auto intro: life_mutex_start life_mutex_step)

text \<open>
  C26: the callbacks of a connection exclude each other. In every interleaving of the poller, of
  the goroutines that close the connection and of the tasks, at most one goroutine is inside the
  processing section, where \<^verbatim>\<open>OnConnect\<close>, \<^verbatim>\<open>OnRequest\<close> and the close callbacks run; the close callbacks run at
  most once, and after them nobody enters the section again.
\<close>
theorem callbacks_exclusive:
  assumes "fresh_conn c" "(life_step False)\<^sup>*\<^sup>* (life_start c) (s, M)"
  shows "num in_section M + closes s \<le> 1"
  using life_mutex_reach [OF assms(2,1)] by (auto simp: life_mutex_def)

subsection \<open>No connection is left unclosed\<close>

definition served_conn :: "'f life \<Rightarrow> bool" where
  "served_conn s \<longleftrightarrow> onConnectCallback (l_conn s) \<noteq> None \<or> onRequestCallback (l_conn s) \<noteq> None"

text \<open>Closed, and not left to the user.\<close>

definition due :: "'f life \<Rightarrow> bool" where
  "due s \<longleftrightarrow> status closing (l_conn s) = user \<or> (\<not> IsActive (l_conn s) \<and> served_conn s)"

text \<open>
  The goroutines that run the close callbacks or still look whether the connection is closed;
  \<open>served\<close> says that the connection has an \<^verbatim>\<open>OnConnect\<close> or an \<^verbatim>\<open>OnRequest\<close>.
\<close>

fun watches :: "bool \<Rightarrow> thread \<Rightarrow> bool" where
  "watches served (Task r t) = (t \<noteq> TRelen \<and> t \<noteq> TRestart)"
| "watches served p = (p \<in> {Run, CloseForce, CloseCallback} \<or>
     served \<and> p \<in> {HupDisconnect, HupState, HupLock, HupChange, HupOnDisconnect, HupUnlock, HupCallback})"

definition life_watched :: "'f life \<times> thread multiset \<Rightarrow> bool" where
  "life_watched x \<longleftrightarrow> due (fst x) \<and> closes (fst x) = 0 \<longrightarrow> 0 < num (watches (served_conn (fst x))) (snd x)"

lemma section_watches: "in_section p \<Longrightarrow> watches served p"
  by (cases p) auto

text \<open>Who finds the lock taken can leave: the holder watches.\<close>

lemma held_watched:
  assumes "life_mutex (s, add_mset p M)" "\<not> in_section p" "status processing (l_conn s) \<noteq> 0" "closes s = 0"
  shows "0 < num (watches served) M"
proof -
  have "num in_section M = 1" using assms by (auto simp: life_mutex_def)
  moreover have "num in_section M \<le> num (watches served) M" by (rule num_mono) (rule section_watches)
  ultimately show ?thesis by simp
qed

lemma thread_step_callbacks:
  assumes "thread_step p s = (s', ps)"
  shows "onConnectCallback (l_conn s') = onConnectCallback (l_conn s)" "onRequestCallback (l_conn s') = onRequestCallback (l_conn s)"
    "length (keychain (l_conn s')) = length (keychain (l_conn s))"
proof -
  have "onConnectCallback (l_conn s') = onConnectCallback (l_conn s) \<and> onRequestCallback (l_conn s') = onRequestCallback (l_conn s) \<and>
    length (keychain (l_conn s')) = length (keychain (l_conn s))"
  proof (cases p)
    case (Task r t)
    then show ?thesis using assms by (cases t) (auto simp: lock_defs Let_def split: if_splits)
  qed (use assms in \<open>auto simp: lock_defs Let_def split: if_splits\<close>)
  then show "onConnectCallback (l_conn s') = onConnectCallback (l_conn s)" "onRequestCallback (l_conn s') = onRequestCallback (l_conn s)"
    "length (keychain (l_conn s')) = length (keychain (l_conn s))" by blast+
qed

text \<open>What a step does to \<open>due\<close> and to the goroutines that watch.\<close>

lemma due_step:
  assumes "length (keychain (l_conn s)) = total" "p \<notin> {HupClose, CloseStart, CloseForce, Run}"
  shows "due (fst (thread_step p s)) = due s" "closes (fst (thread_step p s)) = closes s"
proof -
  have "status closing (l_conn (fst (thread_step p s))) = status closing (l_conn s) \<and> closes (fst (thread_step p s)) = closes s"
  proof (cases p)
    case (Task r t)
    then show ?thesis using assms(1) by (cases t) (simp_all add: lock_defs key_defs Let_def)
  qed (use assms in \<open>simp_all add: lock_defs key_defs Let_def\<close>)
  moreover have "served_conn (fst (thread_step p s)) = served_conn s"
    using thread_step_callbacks(1,2) [of p s] by (simp add: served_conn_def prod_eq_iff)
  ultimately show "due (fst (thread_step p s)) = due s" "closes (fst (thread_step p s)) = closes s"
    by (simp_all add: due_def IsActive_def isCloseBy_def status_def)
qed

lemma watched_step:
  assumes "due s" "0 < num (watches (served_conn s)) (add_mset p M)" "p \<notin> {HupClose, CloseStart, CloseForce, Run}"
    and held: "\<not> in_section p \<Longrightarrow> status processing (l_conn s) \<noteq> 0 \<Longrightarrow> 0 < num (watches (served_conn s)) M"
  shows "0 < num (watches (served_conn s)) (mset (snd (thread_step p s)) + M)"
proof (cases p)
  case (Task r t)
  have "status closing (l_conn s) \<noteq> 0" using assms(1) by (auto simp: due_def lock_defs key_defs)
  then show ?thesis using Task assms(2) held by (cases t) (simp_all add: lock_defs key_defs Let_def)
next
  case HupCallback
  show ?thesis
  proof (cases "served_conn s")
    case True
    then have "\<not> (onConnectCallback (l_conn s) = None \<and> onRequestCallback (l_conn s) = None)" by (auto simp: served_conn_def)
    then have "thread_step p s = closeCallback_step s" using HupCallback by auto
    then show ?thesis using HupCallback held by (simp add: lock_defs Let_def)
  next
    case False
    then have "thread_step p s = (s, [])" using HupCallback by (auto simp: served_conn_def)
    then show ?thesis using HupCallback False assms(2) by simp
  qed
qed (use assms(2,3) held in \<open>auto simp: lock_defs key_defs Let_def split: if_splits\<close>)

lemma life_watched_go:
  assumes "life_mutex (s, add_mset p M)" "life_watched (s, add_mset p M)" "thread_step p s = (s', ps)"
  shows "life_watched (s', mset ps + M)"
proof -
  have len: "length (keychain (l_conn s)) = total" using assms(1) by (simp add: life_mutex_def)
  have sv: "served_conn s' = served_conn s"
    using thread_step_callbacks(1,2) [OF assms(3)] by (simp add: served_conn_def)
  have held: "0 < num (watches (served_conn s)) M" if "\<not> in_section p" "status processing (l_conn s) \<noteq> 0" "closes s = 0"
    by (rule held_watched [OF assms(1) that])
  show ?thesis
  proof (cases "p \<in> {HupClose, CloseStart, CloseForce, Run}")
    case True
    then show ?thesis using assms(2,3) len sv
      by (auto simp: life_watched_def due_def lock_defs key_defs Let_def split: if_splits)
  next
    case False
    note d = due_step [OF len False]
    show ?thesis
      using d watched_step [OF _ _ False, of s M] held assms(2,3) sv
      unfolding life_watched_def fst_conv snd_conv by fastforce
  qed
qed

lemma life_watched_step:
  assumes "life_step False x y" "life_mutex x" "life_watched x"
  shows "life_watched y"
  using assms(1)
proof cases
  case (go p s s' ps M)
  then show ?thesis using life_watched_go assms(2,3) by blast
qed (use assms(3) in \<open>auto simp: life_watched_def due_def served_conn_def lock_defs\<close>)

lemma life_watched_reach: "(life_step False)\<^sup>*\<^sup>* (life_start c) x \<Longrightarrow> fresh_conn c \<Longrightarrow> life_watched x"
proof (induction rule: rtranclp_induct)
  case base
  then show ?case by (simp add: life_watched_def due_def life_start_def fresh_conn_def lock_defs key_defs)
qed (auto intro: life_watched_step life_mutex_reach)


subsection \<open>OnDisconnect\<close>

text \<open>
  The goroutines that hold the connecting lock, the one in \<^verbatim>\<open>OnConnect\<close>, those that are past it, those about to
  run \<^verbatim>\<open>OnDisconnect\<close>, and those that exist only when the connection has an \<^verbatim>\<open>OnConnect\<close>.
\<close>

fun in_connecting :: "thread \<Rightarrow> bool" where
  "in_connecting (Task r t) = (t \<in> {TChange, TOnConnect, TActive, TChangeD, TOnDisconnect, TUnlockC})"
| "in_connecting p = (p \<in> {ConnectProcess, HupChange, HupOnDisconnect, HupUnlock})"

fun in_onConnect :: "thread \<Rightarrow> bool" where
  "in_onConnect (Task r t) = (t = TOnConnect)"
| "in_onConnect _ = False"

fun past_onConnect :: "thread \<Rightarrow> bool" where
  "past_onConnect (Task r t) = (t \<in> {TActive, TChangeD, TOnDisconnect, TUnlockC})"
| "past_onConnect _ = False"

fun in_onDisconnect :: "thread \<Rightarrow> bool" where
  "in_onDisconnect (Task r t) = (t = TOnDisconnect)"
| "in_onDisconnect p = (p = HupOnDisconnect)"

fun needs_onConnect :: "thread \<Rightarrow> bool" where
  "needs_onConnect (Task r t) = (t \<in> {TChange, TOnConnect, TActive, TChangeD, TOnDisconnect, TUnlockC})"
| "needs_onConnect p = (p \<in> {ConnectLock, ConnectProcess, HupState, HupLock, HupChange, HupUnlock})"

definition hup_first :: "thread \<Rightarrow> bool" where
  "hup_first p \<longleftrightarrow> p = HupDisconnect \<or> p = HupOnDisconnect"

definition hup_second :: "thread \<Rightarrow> bool" where
  "hup_second p \<longleftrightarrow> p \<in> {HupLock, HupChange, HupOnDisconnect, HupUnlock}"

definition disc_plain :: "'f life \<Rightarrow> thread multiset \<Rightarrow> bool" where
  "disc_plain s M \<longleftrightarrow>
     disconnects s + num hup_first M \<le> 1 \<and> (IsActive (l_conn s) \<longrightarrow> disconnects s + num hup_first M = 0) \<and>
     num needs_onConnect M = 0"

definition one_connecting :: "'f life \<Rightarrow> thread multiset \<Rightarrow> bool" where
  "one_connecting s M \<longleftrightarrow> num in_connecting M \<le> 1 \<and> (status connecting (l_conn s) = 0 \<longrightarrow> num in_connecting M = 0)"

definition one_disconnect :: "'f life \<Rightarrow> thread multiset \<Rightarrow> bool" where
  "one_disconnect s M \<longleftrightarrow>
     disconnects s + num in_onDisconnect M \<le> 1 \<and>
     (getState (l_conn s) \<noteq> connStateDisconnected \<longrightarrow> disconnects s + num in_onDisconnect M = 0)"

definition connect_first :: "'f life \<Rightarrow> thread multiset \<Rightarrow> bool" where
  "connect_first s M \<longleftrightarrow>
     (getState (l_conn s) = connStateNone \<longrightarrow> connects s + num in_onConnect M = 0) \<and>
     (getState (l_conn s) \<noteq> connStateNone \<longrightarrow> connects s + num in_onConnect M = 1) \<and>
     (0 < num past_onConnect M \<longrightarrow> connects s = 1) \<and>
     (0 < num hup_second M \<longrightarrow> getState (l_conn s) \<noteq> connStateNone) \<and>
     (getState (l_conn s) = connStateDisconnected \<longrightarrow> connects s = 1)"

definition disc_connect :: "'f life \<Rightarrow> thread multiset \<Rightarrow> bool" where
  "disc_connect s M \<longleftrightarrow> one_connecting s M \<and> one_disconnect s M \<and> connect_first s M"

definition life_disc :: "'f life \<times> thread multiset \<Rightarrow> bool" where
  "life_disc x \<longleftrightarrow>
     length (keychain (l_conn (fst x))) = total \<and>
     (if onConnectCallback (l_conn (fst x)) = None then disc_plain (fst x) (snd x) else disc_connect (fst x) (snd x))"

lemma onConnect_connecting: "num in_onConnect M \<le> num in_connecting M"
proof (rule num_mono)
  show "in_onConnect p \<Longrightarrow> in_connecting p" for p by (cases p) auto
qed

lemmas state_defs = connStateNone_def connStateConnected_def connStateDisconnected_def

lemma disc_plain_go:
  assumes "disc_plain s (add_mset p M)" "onConnectCallback (l_conn s) = None" "length (keychain (l_conn s)) = total"
    "thread_step p s = (s', ps)"
  shows "disc_plain s' (mset ps + M)"
proof -
  have "disc_plain (fst (thread_step p s)) (mset (snd (thread_step p s)) + M)"
  proof (cases p)
    case (Task r t)
    then show ?thesis using assms(1-3)
      by (cases t) (auto simp: disc_plain_def hup_first_def lock_defs key_defs Let_def)
  qed (use assms(1-3) in \<open>auto simp: disc_plain_def hup_first_def lock_defs key_defs Let_def\<close>)
  then show ?thesis using assms(4) by simp
qed

lemma one_connecting_go:
  assumes "one_connecting s (add_mset p M)" "onConnectCallback (l_conn s) \<noteq> None" "length (keychain (l_conn s)) = total"
    "thread_step p s = (s', ps)"
  shows "one_connecting s' (mset ps + M)"
proof -
  have "one_connecting (fst (thread_step p s)) (mset (snd (thread_step p s)) + M)"
  proof (cases p)
    case (Task r t)
    then show ?thesis using assms(1-3)
      by (cases t) (auto simp: one_connecting_def lock_defs key_defs Let_def)
  qed (use assms(1-3) in \<open>auto simp: one_connecting_def lock_defs key_defs Let_def\<close>)
  then show ?thesis using assms(4) by simp
qed

lemma one_disconnect_go:
  assumes "one_disconnect s (add_mset p M)" "onConnectCallback (l_conn s) \<noteq> None" "thread_step p s = (s', ps)"
  shows "one_disconnect s' (mset ps + M)"
proof -
  have "one_disconnect (fst (thread_step p s)) (mset (snd (thread_step p s)) + M)"
  proof (cases p)
    case (Task r t)
    then show ?thesis using assms(1,2)
      by (cases t) (auto simp: one_disconnect_def lock_defs state_defs Let_def)
  qed (use assms(1,2) in \<open>auto simp: one_disconnect_def lock_defs state_defs Let_def\<close>)
  then show ?thesis using assms(3) by simp
qed

lemma connect_first_go:
  assumes "connect_first s (add_mset p M)" "one_connecting s (add_mset p M)" "onConnectCallback (l_conn s) \<noteq> None"
    "thread_step p s = (s', ps)"
  shows "connect_first s' (mset ps + M)"
proof -
  have "connect_first (fst (thread_step p s)) (mset (snd (thread_step p s)) + M)"
  proof (cases p)
    case (Task r t)
    then show ?thesis using assms(1,3)
      by (cases t) (auto simp: connect_first_def hup_second_def lock_defs state_defs Let_def)
  next
    case HupChange
    have "num in_onConnect M = 0"
      using assms(2) HupChange onConnect_connecting [of M] by (auto simp: one_connecting_def)
    then show ?thesis using assms(1,3) HupChange
      by (auto simp: connect_first_def hup_second_def lock_defs state_defs Let_def)
  qed (use assms(1,3) in \<open>auto simp: connect_first_def hup_second_def lock_defs state_defs Let_def\<close>)
  then show ?thesis using assms(4) by simp
qed

lemma life_disc_go:
  assumes "life_disc (s, add_mset p M)" "thread_step p s = (s', ps)"
  shows "life_disc (s', mset ps + M)"
proof -
  note cb = thread_step_callbacks [OF assms(2)]
  have len: "length (keychain (l_conn s)) = total" using assms(1) by (simp add: life_disc_def)
  show ?thesis
  proof (cases "onConnectCallback (l_conn s) = None")
    case True
    then have "disc_plain s (add_mset p M)" using assms(1) by (simp add: life_disc_def)
    from disc_plain_go [OF this True len assms(2)] show ?thesis using True len cb by (simp add: life_disc_def)
  next
    case False
    then have "one_connecting s (add_mset p M)" "one_disconnect s (add_mset p M)" "connect_first s (add_mset p M)"
      using assms(1) unfolding life_disc_def disc_connect_def fst_conv snd_conv if_not_P [OF False] by blast+
    then have "disc_connect s' (mset ps + M)"
      unfolding disc_connect_def
      using one_connecting_go [OF _ False len assms(2)] one_disconnect_go [OF _ False assms(2)]
        connect_first_go [OF _ _ False assms(2)] by blast
    then show ?thesis using False len cb by (auto simp: life_disc_def)
  qed
qed

lemmas disc_defs = life_disc_def disc_plain_def disc_connect_def one_connecting_def one_disconnect_def
  connect_first_def hup_first_def hup_second_def

lemma life_disc_calls:
  "life_disc (s, add_mset RequestStart M) = life_disc (s, M)" "life_disc (s, add_mset HupClose M) = life_disc (s, M)"
  "life_disc (s, add_mset CloseStart M) = life_disc (s, M)"
  "life_disc (with_conn ((l_conn s)\<lparr>inputBuffer := b\<rparr>) s, M) = life_disc (s, M)"
  by (simp_all add: disc_defs with_conn_def getState_def status_def IsActive_def isCloseBy_def)

lemma life_disc_step:
  assumes "life_step False x y" "life_disc x"
  shows "life_disc y"
  using assms(1)
proof cases
  case (go p s s' ps M)
  then show ?thesis using life_disc_go assms(2) by blast
qed (use assms(2) in \<open>simp_all add: life_disc_calls\<close>)

lemma life_disc_reach: "(life_step False)\<^sup>*\<^sup>* (life_start c) x \<Longrightarrow> fresh_conn c \<Longrightarrow> life_disc x"
proof (induction rule: rtranclp_induct)
  case base
  then show ?case
    by (auto simp: life_disc_def disc_plain_def disc_connect_def one_connecting_def one_disconnect_def connect_first_def
        hup_first_def hup_second_def life_start_def fresh_conn_def lock_defs state_defs)
qed (auto intro: life_disc_step)

text \<open>
  C28: \<^verbatim>\<open>OnDisconnect\<close> runs at most once, in every interleaving, although both the poller and the task that ran
  \<^verbatim>\<open>OnConnect\<close> may call it; and when the connection has an \<^verbatim>\<open>OnConnect\<close>, that has returned before.
\<close>
theorem disconnect_once:
  assumes "fresh_conn c" "(life_step False)\<^sup>*\<^sup>* (life_start c) (s, M)"
  shows "disconnects s \<le> 1 \<and> (onConnectCallback (l_conn s) \<noteq> None \<and> 0 < disconnects s \<longrightarrow> connects s = 1)"
  using life_disc_reach [OF assms(2,1)]
  by (auto simp: life_disc_def disc_plain_def disc_connect_def one_disconnect_def connect_first_def split: if_splits)

subsection \<open>Two runs that go wrong\<close>

text \<open>Runs are given by the goroutine that moves; \<open>None\<close> when there is none such.\<close>

fun life_run :: "thread list \<Rightarrow> 'f life \<times> thread list \<Rightarrow> ('f life \<times> thread list) option" where
  "life_run [] x = Some x"
| "life_run (p # ps) (s, ts) =
     (if p \<in> set ts then (let (s', qs) = thread_step p s in life_run ps (s', qs @ remove1 p ts)) else None)"

lemma life_run_steps:
  "life_run ps (s, ts) = Some (s', ts') \<Longrightarrow> (life_step panics)\<^sup>*\<^sup>* (s, mset ts) (s', mset ts')"
proof (induction ps arbitrary: s ts)
  case (Cons p ps)
  obtain s1 qs where st: "thread_step p s = (s1, qs)" by fastforce
  have p: "p \<in> set ts" "life_run ps (s1, qs @ remove1 p ts) = Some (s', ts')"
    using Cons.prems st by (auto split: if_splits)
  have e: "add_mset p (mset (remove1 p ts)) = mset ts" using p(1) by simp
  have "life_step panics (s, mset ts) (s1, mset (qs @ remove1 p ts))"
    using life_step.go [OF st, of panics "mset (remove1 p ts)"] unfolding e by (simp del: mset_remove1)
  then show ?case using Cons.IH [OF p(2)] by (rule converse_rtranclp_into_rtranclp)
qed simp

definition ex_served :: "nat connection" where
  "ex_served = \<lparr>keychain = [0, 0, 0, 0], c_fd = 5, c_network = ''tcp'', c_remote = ''peer'', c_closed = 0, detaching = False,
     ctx_set = True, onConnectCallback = Some 1, onDisconnectCallback = Some 2, onRequestCallback = Some 3,
     closeCallbacks = [Finalizer], c_operator = 0, readTimeout = 0, readTrigger = [], waitReadSize = 0,
     writeTimeout = 0, writeTrigger = [], inputBuffer = zero_LinkBuffer, outputBuffer = zero_LinkBuffer,
     outputBarrier = \<lparr>bar_bs = barriercap, bar_ivs = barriercap\<rparr>, supportZeroCopy = False, maxSize = 8192, bookSize = 8192,
     c_state = connStateNone\<rparr>"

lemma ex_served_fresh: "fresh_conn ex_served"
  by (simp add: fresh_conn_def ex_served_def total_def numeral_eq_Suc)

text \<open>
  The poller hangs up between the test of \<^verbatim>\<open>IsActive\<close> in the task and its unlock of the connecting lock.
\<close>

definition lost_run :: "thread list" where
  "lost_run = [ConnectStart, ConnectLock, ConnectProcess, Task True TChange, Task True TOnConnect, Task True TActive,
     HupClose, HupDisconnect, HupState, HupLock, HupCallback,
     Task True TUnlockC, Task True TStart, Task True TStatus, Task True (TLen poller), Run]"

text \<open>
  C29: an \<^verbatim>\<open>OnDisconnect\<close> can be lost. There is a run in which the poller closes a connection that has an
  \<^verbatim>\<open>OnConnect\<close> and an \<^verbatim>\<open>OnDisconnect\<close>, \<^verbatim>\<open>OnConnect\<close> returns, the close callbacks run, every goroutine finishes, and
  \<^verbatim>\<open>OnDisconnect\<close> was never called: the poller finds the connecting lock taken and leaves the call to the
  task, which has already seen that the connection is active.
\<close>
theorem disconnect_lost:
  "\<exists>s. (life_step False)\<^sup>*\<^sup>* (life_start ex_served) (s, {#}) \<and> status closing (l_conn s) = poller \<and>
     onDisconnectCallback (l_conn s) \<noteq> None \<and> connects s = 1 \<and> closes s = 1 \<and> disconnects s = 0"
proof -
  let ?s = "fst (life_start ex_served)"
  let ?t = "\<lparr>l_conn = ex_served\<lparr>keychain := [2, 0, 1, 0], c_state := connStateConnected\<rparr>, connects = 1, disconnects = 0,
    requests = 0, closes = 1\<rparr>"
  have "life_step False (life_start ex_served) (?s, mset [HupClose, ConnectStart])"
    using life_step.hup [of False ?s "{#ConnectStart#}"] by (simp add: life_start_def)
  moreover have "life_run lost_run (?s, [HupClose, ConnectStart]) = Some (?t, [])"
    by (simp add: lost_run_def life_start_def ex_served_def lock_defs key_defs state_defs lb_Len_def zero_LinkBuffer_def)
  ultimately have "(life_step False)\<^sup>*\<^sup>* (life_start ex_served) (?t, {#})"
    using life_run_steps [of lost_run ?s "[HupClose, ConnectStart]" ?t "[]" False]
    by (simp add: converse_rtranclp_into_rtranclp)
  then show ?thesis by (intro exI conjI) (assumption, simp_all add: ex_served_def lock_defs key_defs)
qed

text \<open>\<^verbatim>\<open>OnConnect\<close> panics after the poller hung up, and the user closes the connection afterwards.\<close>

definition panic_run1 :: "thread list" where
  "panic_run1 = [ConnectStart, ConnectLock, ConnectProcess, Task True TChange,
     HupClose, HupDisconnect, HupState, HupLock, HupCallback]"

definition panic_run2 :: "thread list" where
  "panic_run2 = [Run, CloseStart, CloseForce, CloseCallback, Run]"

text \<open>
  C30: a panic breaks the exclusion. When a callback may panic, there is a run in which the close
  callbacks, and with them the finalizer that frees the operator and the buffers, run twice: the
  deferred function of the task releases the processing lock before it runs them.
\<close>
theorem panic_closes_twice:
  "\<exists>s. (life_step True)\<^sup>*\<^sup>* (life_start ex_served) (s, {#}) \<and> closes s = 2"
proof -
  let ?s = "fst (life_start ex_served)"
  let ?c = "ex_served\<lparr>keychain := [2, 1, 1, 0], c_state := connStateConnected\<rparr>"
  let ?t = "?s\<lparr>l_conn := ?c\<rparr>" and ?u = "?s\<lparr>l_conn := ?c\<lparr>keychain := [2, 1, 0, 0]\<rparr>\<rparr>"
  let ?v = "?s\<lparr>l_conn := ?c\<lparr>keychain := [1, 1, 1, 0]\<rparr>, closes := 2\<rparr>"
  have 1: "life_run panic_run1 (?s, [HupClose, CloseStart, ConnectStart]) = Some (?t, [Task True TOnConnect, CloseStart])"
    and 2: "recover_step ?t = (?u, [Run])"
    and 3: "life_run panic_run2 (?u, [Run, CloseStart]) = Some (?v, [])"
    by (simp_all add: panic_run1_def panic_run2_def recover_step_def life_start_def ex_served_def lock_defs key_defs state_defs)
  have a: "(life_step True)\<^sup>*\<^sup>* (life_start ex_served) (?s, mset [HupClose, CloseStart, ConnectStart])"
    using life_step.close [of True ?s "{#ConnectStart#}"] life_step.hup [of True ?s "{#CloseStart, ConnectStart#}"]
    by (simp add: life_start_def converse_rtranclp_into_rtranclp)
  have b: "(life_step True)\<^sup>*\<^sup>* (?s, mset [HupClose, CloseStart, ConnectStart]) (?t, mset [Task True TOnConnect, CloseStart])"
    by (rule life_run_steps [OF 1])
  have e: "mset [Task True TOnConnect, CloseStart] = add_mset (Task True TOnConnect) {#CloseStart#}"
    "mset [Run, CloseStart] = mset [Run] + {#CloseStart#}" by simp_all
  have c: "life_step True (?t, mset [Task True TOnConnect, CloseStart]) (?u, mset [Run, CloseStart])"
    unfolding e by (rule life_step.panic [OF TrueI _ 2]) simp
  have d: "(life_step True)\<^sup>*\<^sup>* (?u, mset [Run, CloseStart]) (?v, mset [])" by (rule life_run_steps [OF 3])
  have "(life_step True)\<^sup>*\<^sup>* (life_start ex_served) (?v, mset [])"
    by (rule rtranclp_trans [OF a rtranclp_trans [OF b converse_rtranclp_into_rtranclp [OF c d]]])
  then show ?thesis by (intro exI [of _ ?v]) simp
qed

text \<open>Witnesses.\<close>

theorem callbacks_exclusive_witness:
  "\<exists>s. (life_step False)\<^sup>*\<^sup>* (life_start ex_served) (s, {#Task True TOnConnect#}) \<and>
     num in_section {#Task True TOnConnect#} + closes s \<le> 1"
proof -
  have "life_run [ConnectStart, ConnectLock, ConnectProcess, Task True TChange] (fst (life_start ex_served), [ConnectStart]) =
      Some (fst (life_start ex_served)\<lparr>l_conn := ex_served\<lparr>keychain := [0, 1, 1, 0], c_state := connStateConnected\<rparr>\<rparr>, [Task True TOnConnect])"
    by (simp add: life_start_def ex_served_def lock_defs key_defs state_defs)
  from life_run_steps [OF this, of False] callbacks_exclusive [OF ex_served_fresh]
  show ?thesis by (auto simp: life_start_def)
qed

definition close_run :: "thread list" where
  "close_run = [ConnectStart, ConnectLock, ConnectProcess, Task True TChange, CloseStart, CloseCallback,
     Task True TOnConnect, Task True TActive, Task True TChangeD, Task True TOnDisconnect,
     Task True TUnlockC, Task True TStart, Task True TStatus, Task True (TLen user), Run]"

lemma close_run_steps:
  "\<exists>s. (life_step False)\<^sup>*\<^sup>* (life_start ex_served) (s, {#}) \<and> due s \<and> disconnects s = 1 \<and> onConnectCallback (l_conn s) \<noteq> None"
proof -
  let ?s = "fst (life_start ex_served)"
  let ?t = "\<lparr>l_conn = ex_served\<lparr>keychain := [1, 0, 1, 0], c_state := connStateDisconnected\<rparr>, connects = 1, disconnects = 1,
    requests = 0, closes = 1\<rparr>"
  have "life_step False (life_start ex_served) (?s, mset [CloseStart, ConnectStart])"
    using life_step.close [of False ?s "{#ConnectStart#}"] by (simp add: life_start_def)
  moreover have "life_run close_run (?s, [CloseStart, ConnectStart]) = Some (?t, [])"
    by (simp add: close_run_def life_start_def ex_served_def lock_defs key_defs state_defs lb_Len_def zero_LinkBuffer_def)
  ultimately have "(life_step False)\<^sup>*\<^sup>* (life_start ex_served) (?t, {#})"
    using life_run_steps [of close_run ?s "[CloseStart, ConnectStart]" ?t "[]" False]
    by (simp add: converse_rtranclp_into_rtranclp)
  then show ?thesis by (intro exI conjI) (assumption, simp_all add: ex_served_def due_def lock_defs key_defs)
qed


theorem disconnect_once_witness:
  "\<exists>s. (life_step False)\<^sup>*\<^sup>* (life_start ex_served) (s, {#}) \<and> disconnects s = 1 \<and> connects s = 1"
proof -
  obtain s where "(life_step False)\<^sup>*\<^sup>* (life_start ex_served) (s, {#})" "disconnects s = 1" "onConnectCallback (l_conn s) \<noteq> None"
    using close_run_steps by blast
  then show ?thesis using disconnect_once [OF ex_served_fresh, of s "{#}"] by auto
qed

end
