(* ===== verification/Options.thy ===== *)
theory Options
  imports Prelude
begin

section \<open>Options (netpoll\_options.go)\<close>

text \<open>
  The options of an event loop. Callbacks are values of a type \<open>'f\<close>, \<open>None\<close> for \<^verbatim>\<open>nil\<close>; durations are
  integers.
\<close>

record 'f options =
  o_onPrepare :: "'f option"
  o_onConnect :: "'f option"
  o_onDisconnect :: "'f option"
  o_onRequest :: "'f option"
  o_onFifoRead :: "'f option"
  o_onFifoTransfer :: "'f option"
  o_readTimeout :: int
  o_writeTimeout :: int
  o_idleTimeout :: int

definition zero_options :: "'f options" where
  "zero_options = \<lparr>o_onPrepare = None, o_onConnect = None, o_onDisconnect = None, o_onRequest = None,
     o_onFifoRead = None, o_onFifoTransfer = None, o_readTimeout = 0, o_writeTimeout = 0, o_idleTimeout = 0\<rparr>"

type_synonym 'f Option = "'f options \<Rightarrow> 'f options"

definition WithOnPrepare :: "'f option \<Rightarrow> 'f Option" where
  "WithOnPrepare f op = op\<lparr>o_onPrepare := f\<rparr>"

definition WithOnConnect :: "'f option \<Rightarrow> 'f Option" where
  "WithOnConnect f op = op\<lparr>o_onConnect := f\<rparr>"

definition WithOnDisconnect :: "'f option \<Rightarrow> 'f Option" where
  "WithOnDisconnect f op = op\<lparr>o_onDisconnect := f\<rparr>"

definition WithOnFifoRead :: "'f option \<Rightarrow> 'f Option" where
  "WithOnFifoRead f op = op\<lparr>o_onFifoRead := f\<rparr>"

definition WithOnFifoTransfer :: "'f option \<Rightarrow> 'f Option" where
  "WithOnFifoTransfer f op = op\<lparr>o_onFifoTransfer := f\<rparr>"

definition WithReadTimeout :: "int \<Rightarrow> 'f Option" where
  "WithReadTimeout t op = op\<lparr>o_readTimeout := t\<rparr>"

definition WithWriteTimeout :: "int \<Rightarrow> 'f Option" where
  "WithWriteTimeout t op = op\<lparr>o_writeTimeout := t\<rparr>"

definition WithIdleTimeout :: "int \<Rightarrow> 'f Option" where
  "WithIdleTimeout t op = op\<lparr>o_idleTimeout := t\<rparr>"

end
