(* ===== verification/FifoRead.thy ===== *)
theory FifoRead
  imports Poll Options
begin

section \<open>Reading ends of named pipes (fifo\_read\_impl.go, fifo\_reactor.go)\<close>

text \<open>
  The reading end of a named pipe: a reader with its own input buffer, which the poller fills. It is
  built like the reading half of a connection, on the locks of fifo\_lock.go. As there, blocking
  operations take the moves of the other goroutines as a script, \<open>Fire\<close> being the timer, and are
  \<open>None\<close> when they panic or are still blocked at the end of it.
\<close>

subsection \<open>State\<close>

datatype fifo_handler = FOnHup | FInputs | FInputAck | FOutputs | FOutputAck

text \<open>Close callbacks: the finalizer, the one the manager adds, and those of the user.\<close>

datatype 'f fifo_callback = FifoFinalizer | FifoForget | FifoUser 'f

datatype 's fmove = FOther "'s \<Rightarrow> 's" | FFire

record 'f baseFifo = fifoLocker +
  f_fd :: int
  f_path :: string
  f_operator :: addr
  f_closing :: bool
  f_ctx_set :: bool
  f_closeCallbacks :: "'f fifo_callback list"

record 'f readFifo = "'f baseFifo" +
  onFifoReadCallback :: "'f option"
  f_readTimeout :: int
  f_readTrigger :: "error option list"
  f_waitReadSize :: int
  f_inputBuffer :: LinkBuffer
  f_maxSize :: int
  f_bookSize :: int

record ('f, 'k) rstate = "(fifo_handler, 'k) pstate" +
  rfifo :: "'f readFifo"
  rtasks :: nat
  rforgotten :: bool

text \<open>
  \<open>rtasks\<close> counts the tasks given to \<^verbatim>\<open>runner.RunTask\<close>; \<open>rforgotten\<close> says that the callback of the manager has run.
  The system calls that only pipes need:
\<close>

record 'k fifo_sys =
  sys_mkfifo :: "string \<Rightarrow> 'k \<Rightarrow> errno option \<times> 'k"
  sys_open :: "string \<Rightarrow> bool \<Rightarrow> 'k \<Rightarrow> (errno + int) \<times> 'k"
  sys_nonblock :: "int \<Rightarrow> 'k \<Rightarrow> 'k"

definition upd_rf :: "('f readFifo \<Rightarrow> 'f readFifo) \<Rightarrow> ('f, 'k) rstate \<Rightarrow> ('f, 'k) rstate" where
  "upd_rf f s = s\<lparr>rfifo := f (rfifo s)\<rparr>"

definition set_rinput :: "LinkBuffer \<Rightarrow> world \<Rightarrow> ('f, 'k) rstate \<Rightarrow> ('f, 'k) rstate" where
  "set_rinput b w s = s\<lparr>in_heap := w, rfifo := (rfifo s)\<lparr>f_inputBuffer := b\<rparr>\<rparr>"

subsection \<open>Waiting for input\<close>

definition rf_triggerRead :: "error option \<Rightarrow> 'f readFifo \<Rightarrow> 'f readFifo" where
  "rf_triggerRead err f =
     (if length (f_readTrigger f) < 1 then f\<lparr>f_readTrigger := f_readTrigger f @ [err]\<rparr> else f)"

text \<open>\<^verbatim>\<open><-f.readTrigger\<close>, and the \<^verbatim>\<open>select\<close> on the timer and the trigger.\<close>

fun rf_recv ::
    "('f, 'k) rstate fmove list \<Rightarrow> ('f, 'k) rstate \<Rightarrow>
     (error option \<times> ('f, 'k) rstate fmove list \<times> ('f, 'k) rstate) option" where
  "rf_recv env s =
     (case f_readTrigger (rfifo s) of
        e # es \<Rightarrow> Some (e, env, upd_rf (\<lambda>f. f\<lparr>f_readTrigger := es\<rparr>) s)
      | [] \<Rightarrow> (case env of
                [] \<Rightarrow> None
              | FFire # ms \<Rightarrow> rf_recv ms s
              | FOther f # ms \<Rightarrow> rf_recv ms (f s)))"

fun rf_select ::
    "('f, 'k) rstate fmove list \<Rightarrow> ('f, 'k) rstate \<Rightarrow>
     (error option option \<times> ('f, 'k) rstate fmove list \<times> ('f, 'k) rstate) option" where
  "rf_select (FFire # ms) s = Some (None, ms, s)"
| "rf_select env s =
     (case f_readTrigger (rfifo s) of
        e # es \<Rightarrow> Some (Some e, env, upd_rf (\<lambda>f. f\<lparr>f_readTrigger := es\<rparr>) s)
      | [] \<Rightarrow> (case env of
                [] \<Rightarrow> None
              | FOther f # ms \<Rightarrow> rf_select ms (f s)
              | FFire # ms \<Rightarrow> None))"

definition rf_measure :: "('f, 'k) rstate fmove list \<Rightarrow> ('f, 'k) rstate \<Rightarrow> nat \<times> nat" where
  "rf_measure env s = (length env, length (f_readTrigger (rfifo s)))"

lemma rf_recv_measure:
  "rf_recv env s = Some (e, env', s') \<Longrightarrow> (rf_measure env' s', rf_measure env s) \<in> less_than <*lex*> less_than"
proof (induction env arbitrary: s e env' s')
  case Nil
  then show ?case by (cases "f_readTrigger (rfifo s)") (auto simp: rf_measure_def upd_rf_def)
next
  case (Cons m ms)
  show ?case
  proof (cases m)
    case (FOther f)
    then show ?thesis
      using Cons.prems Cons.IH [of "f s" e env' s']
      by (cases "f_readTrigger (rfifo s)") (auto simp: rf_measure_def upd_rf_def)
  next
    case FFire
    then show ?thesis
      using Cons.prems Cons.IH [of s e env' s']
      by (cases "f_readTrigger (rfifo s)") (auto simp: rf_measure_def upd_rf_def)
  qed
qed

lemma rf_select_measure:
  "rf_select env s = Some (Some e, env', s') \<Longrightarrow> (rf_measure env' s', rf_measure env s) \<in> less_than <*lex*> less_than"
proof (induction env arbitrary: s e env' s')
  case Nil
  then show ?case by (cases "f_readTrigger (rfifo s)") (auto simp: rf_measure_def upd_rf_def)
next
  case (Cons m ms)
  show ?case
  proof (cases m)
    case (FOther f)
    then show ?thesis
      using Cons.prems Cons.IH [of "f s" e env' s']
      by (cases "f_readTrigger (rfifo s)") (auto simp: rf_measure_def upd_rf_def)
  qed (use Cons.prems in simp)
qed

declare rf_recv.simps [simp del] rf_select.simps [simp del]

definition rf_closed_error :: "who \<Rightarrow> error option" where
  "rf_closed_error w =
     (if w = poller then Some (Exc ErrEOF ''wait read'')
      else if w = user then Some (Exc ErrConnClosed ''wait read'') else None)"

function rf_wait_loop ::
    "('f, 'k) rstate fmove list \<Rightarrow> int \<Rightarrow> ('f, 'k) rstate \<Rightarrow>
     (error option \<times> ('f, 'k) rstate fmove list \<times> ('f, 'k) rstate) option" where
  "rf_wait_loop env n s =
     (if lb_Len (f_inputBuffer (rfifo s)) < n
      then (case rf_closed_error (fifo_status fifoClosing (rfifo s)) of
              Some e \<Rightarrow> Some (Some e, env, s)
            | None \<Rightarrow>
                (case rf_recv env s of
                   None \<Rightarrow> None
                 | Some (err, env, s) \<Rightarrow>
                     if err \<noteq> None then Some (err, env, s) else rf_wait_loop env n s))
      else Some (None, env, s))"
  by pat_completeness auto
termination
  by (relation "inv_image (less_than <*lex*> less_than) (\<lambda>(env, n, s). rf_measure env s)")
    (auto dest: rf_recv_measure)

function rf_waitReadWithTimeout ::
    "('f, 'k) rstate fmove list \<Rightarrow> int \<Rightarrow> ('f, 'k) rstate \<Rightarrow>
     (error option \<times> ('f, 'k) rstate fmove list \<times> ('f, 'k) rstate) option" where
  "rf_waitReadWithTimeout env n s =
     (if lb_Len (f_inputBuffer (rfifo s)) < n
      then (case rf_closed_error (fifo_status fifoClosing (rfifo s)) of
              Some e \<Rightarrow> Some (Some e, env, s)
            | None \<Rightarrow>
                (case rf_select env s of
                   None \<Rightarrow> None
                 | Some (None, env, s) \<Rightarrow>
                     if lb_Len (f_inputBuffer (rfifo s)) \<ge> n then Some (None, env, s)
                     else Some (Some (Exc ErrReadTimeout ''wait read''), env, s)
                 | Some (Some err, env, s) \<Rightarrow>
                     if err \<noteq> None then Some (err, env, s) else rf_waitReadWithTimeout env n s))
      else Some (None, env, s))"
  by pat_completeness auto
termination
  by (relation "inv_image (less_than <*lex*> less_than) (\<lambda>(env, n, s). rf_measure env s)")
    (auto dest: rf_select_measure)

definition rf_waitRead ::
    "('f, 'k) rstate fmove list \<Rightarrow> int \<Rightarrow> ('f, 'k) rstate \<Rightarrow>
     (error option \<times> ('f, 'k) rstate fmove list \<times> ('f, 'k) rstate) option" where
  "rf_waitRead env n s =
     (if n \<le> lb_Len (f_inputBuffer (rfifo s)) then Some (None, env, s)
      else do {
        let s = upd_rf (\<lambda>f. f\<lparr>f_waitReadSize := n\<rparr>) s;
        (err, env, s) \<leftarrow>
          (if f_readTimeout (rfifo s) > 0 then rf_waitReadWithTimeout env n s else rf_wait_loop env n s);
        Some (err, env, upd_rf (\<lambda>f. f\<lparr>f_waitReadSize := 0\<rparr>) s)
      })"

declare rf_wait_loop.simps [simp del] rf_waitReadWithTimeout.simps [simp del]

subsection \<open>The reader\<close>

definition rf_read ::
    "('f, 'k) rstate fmove list \<Rightarrow> int \<Rightarrow> (LinkBuffer \<Rightarrow> world \<Rightarrow> (error + 'a) lb_result) \<Rightarrow> ('f, 'k) rstate \<Rightarrow>
     ((error + 'a) \<times> ('f, 'k) rstate fmove list \<times> ('f, 'k) rstate) option" where
  "rf_read env n op s =
     do {
       (err, env, s) \<leftarrow> rf_waitRead env n s;
       case err of
         Some e \<Rightarrow> Some (Inl e, env, s)
       | None \<Rightarrow> do { (r, b, w) \<leftarrow> op (f_inputBuffer (rfifo s)) (in_heap s); Some (r, env, set_rinput b w s) }
     }"

definition rf_Next where "rf_Next g env n s = rf_read env n (lb_Next g n) s"

definition rf_Peek where "rf_Peek g env n s = rf_read env n (lb_Peek g n) s"

definition rf_Skip where
  "rf_Skip env n s =
     rf_read env n (\<lambda>b w. do {
       (err, b, w) \<leftarrow> lb_Skip n b w;
       Some (case err of Some e \<Rightarrow> Inl e | None \<Rightarrow> Inr (), b, w) }) s"

definition rf_Slice where "rf_Slice g env n s = rf_read env n (lb_Slice g n) s"

definition rf_ReadString where "rf_ReadString g env n s = rf_read env n (lb_ReadString g n) s"

definition rf_ReadBinary where "rf_ReadBinary g env n s = rf_read env n (lb_ReadBinary g n) s"

definition rf_ReadByte where "rf_ReadByte env s = rf_read env 1 lb_ReadByte s"

definition rf_Len :: "('f, 'k) rstate \<Rightarrow> int" where
  "rf_Len s = lb_Len (f_inputBuffer (rfifo s))"

text \<open>\<^verbatim>\<open>Until\<close>: \<open>fuel\<close> bounds the rounds of its loop; each round after the first waits for more input.\<close>

fun rf_Until ::
    "nat \<Rightarrow> globals \<Rightarrow> ('f, 'k) rstate fmove list \<Rightarrow> byte \<Rightarrow> int \<Rightarrow> ('f, 'k) rstate \<Rightarrow>
     ((slice \<times> error option) \<times> ('f, 'k) rstate fmove list \<times> ('f, 'k) rstate) option" where
  "rf_Until 0 g env delim n s = None"
| "rf_Until (Suc fuel) g env delim n s =
     do {
       (err, env, s) \<leftarrow> rf_waitRead env (n + 1) s;
       case err of
         Some e \<Rightarrow>
           do {
             (r, b, w) \<leftarrow> lb_Next g (lb_Len (f_inputBuffer (rfifo s))) (f_inputBuffer (rfifo s)) (in_heap s);
             Some ((case r of Inl _ \<Rightarrow> nil_slice | Inr line \<Rightarrow> line, Some e), env, set_rinput b w s)
           }
       | None \<Rightarrow>
           do {
             let l = lb_Len (f_inputBuffer (rfifo s));
             i \<leftarrow> lb_indexByte delim n (f_inputBuffer (rfifo s)) (in_heap s);
             if i < 0 then rf_Until fuel g env delim l s
             else do {
               (r, env, s) \<leftarrow> rf_Next g env (i + 1) s;
               Some ((case r of Inl e \<Rightarrow> (nil_slice, Some e) | Inr line \<Rightarrow> (line, None)), env, s)
             }
           }
     }"

definition rf_resize :: "globals \<Rightarrow> ('f, 'k) rstate \<Rightarrow> ('f, 'k) rstate option" where
  "rf_resize g s =
     do {
       size0 \<leftarrow> lb_calcMaxSize (f_inputBuffer (rfifo s)) (in_heap s);
       let size1 = (if size0 > mallocMax then mallocMax else size0);
       let s = (if size1 > f_maxSize (rfifo s) then upd_rf (\<lambda>f. f\<lparr>f_maxSize := size1\<rparr>) s else s);
       if lb_Len (f_inputBuffer (rfifo s)) = 0
       then do {
         (b, w) \<leftarrow> lb_resetTail g (f_maxSize (rfifo s)) (f_inputBuffer (rfifo s)) (in_heap s);
         Some (set_rinput b w s)
       }
       else Some s
     }"

definition rf_Release :: "globals \<Rightarrow> ('f, 'k) rstate \<Rightarrow> ('f, 'k) rstate option" where
  "rf_Release g s =
     do {
       s \<leftarrow> (if lb_Len (f_inputBuffer (rfifo s)) = 0
             then do {
               op \<leftarrow> op_at (pl s) (OpPtr (f_operator (rfifo s)));
               let (ok, op') = op_do op;
               if ok
               then do {
                 s \<leftarrow> rf_resize g (upd_op (OpPtr (f_operator (rfifo s))) op' s);
                 op_release (OpPtr (f_operator (rfifo s))) s
               }
               else Some s
             }
             else Some s);
       (b, w) \<leftarrow> lb_Release (f_inputBuffer (rfifo s)) (in_heap s);
       Some (set_rinput b w s)
     }"

text \<open>\<^verbatim>\<open>Read(b)\<close>: the result is what was copied to the front of \<open>b\<close>, whose length is \<open>l\<close>.\<close>

definition rf_Read ::
    "globals \<Rightarrow> ('f, 'k) rstate fmove list \<Rightarrow> nat \<Rightarrow> ('f, 'k) rstate \<Rightarrow>
     ((byte list \<times> error option) \<times> ('f, 'k) rstate fmove list \<times> ('f, 'k) rstate) option" where
  "rf_Read g env l s =
     (if l = 0 then Some (([], None), env, s)
      else do {
        (err, env, s) \<leftarrow> rf_waitRead env 1 s;
        case err of
          Some e \<Rightarrow> Some (([], Some e), env, s)
        | None \<Rightarrow>
            do {
              let has = lb_Len (f_inputBuffer (rfifo s));
              let l' = (if has < int l then has else int l);
              (r, b, w) \<leftarrow> lb_Next g l' (f_inputBuffer (rfifo s)) (in_heap s);
              let s = set_rinput b w s;
              case r of
                Inl e \<Rightarrow> Some (([], Some e), env, s)
              | Inr src \<Rightarrow>
                  do {
                    let bs = take l (slice_bytes w src);
                    (b, w) \<leftarrow> lb_Release b w;
                    Some ((bs, None), env, set_rinput b w s)
                  }
            }
      })"

definition rf_SetReadTimeout :: "int \<Rightarrow> 'f readFifo \<Rightarrow> 'f readFifo" where
  "rf_SetReadTimeout t f = (if t \<ge> 0 then f\<lparr>f_readTimeout := t\<rparr> else f)"

definition SetOnFifoRead :: "'f option \<Rightarrow> 'f readFifo \<Rightarrow> 'f readFifo" where
  "SetOnFifoRead h f = (if h \<noteq> None then f\<lparr>onFifoReadCallback := h\<rparr> else f)"

subsection \<open>Handlers of the operator\<close>

definition rf_inputs :: "globals \<Rightarrow> nat \<Rightarrow> ('f, 'k) rstate \<Rightarrow> (slice list \<times> ('f, 'k) rstate) option" where
  "rf_inputs g caps s =
     (if caps = 0 then None
      else do {
        (p, b, w) \<leftarrow> lb_book g (f_bookSize (rfifo s)) (f_maxSize (rfifo s)) (f_inputBuffer (rfifo s)) (in_heap s);
        Some ([p], set_rinput b w s)
      })"

text \<open>\<^verbatim>\<open>onProcess\<close> up to \<^verbatim>\<open>runner.RunTask\<close>. \<open>rf_task\<close> is the task it starts.\<close>

definition rf_onProcess :: "('f, 'k) rstate \<Rightarrow> bool \<times> ('f, 'k) rstate" where
  "rf_onProcess s =
     (let (ok, f) = fifo_lock fifoProcessing (rfifo s)
      in if \<not> ok then (False, s) else (True, s\<lparr>rfifo := f, rtasks := rtasks s + 1\<rparr>))"

definition rf_inputAck :: "int \<Rightarrow> ('f, 'k) rstate \<Rightarrow> ('f, 'k) rstate option" where
  "rf_inputAck n s =
     (if n \<le> 0
      then do { (_, b, w) \<leftarrow> lb_bookAck 0 (f_inputBuffer (rfifo s)) (in_heap s); Some (set_rinput b w s) }
      else do {
        let s = upd_rf (\<lambda>f. if n = f_bookSize f \<and> f_bookSize f < mallocMax then f\<lparr>f_bookSize := f_bookSize f * 2\<rparr> else f) s;
        (len, b, w) \<leftarrow> lb_bookAck n (f_inputBuffer (rfifo s)) (in_heap s);
        let s = set_rinput b w s;
        let s = upd_rf (\<lambda>f. if f_maxSize f < len then f\<lparr>f_maxSize := len\<rparr> else f) s;
        let s = upd_rf (\<lambda>f. if f_maxSize f > mallocMax then f\<lparr>f_maxSize := mallocMax\<rparr> else f) s;
        let (needTrigger, s) = (if len = n then (let (processed, s) = rf_onProcess s in (\<not> processed, s)) else (True, s));
        Some (if needTrigger \<and> len \<ge> f_waitReadSize (rfifo s) then upd_rf (rf_triggerRead None) s else s)
      })"

subsection \<open>Closing\<close>

definition rf_closeBuffer :: "('f, 'k) rstate \<Rightarrow> ('f, 'k) rstate option" where
  "rf_closeBuffer s =
     (if lb_Len (f_inputBuffer (rfifo s)) = 0 \<or> onFifoReadCallback (rfifo s) \<noteq> None
      then do { (b, w) \<leftarrow> lb_Close (f_inputBuffer (rfifo s)) (in_heap s); Some (set_rinput b w s) }
      else Some s)"

text \<open>The callback of \<^verbatim>\<open>initFinalizer\<close>; \<open>oenv\<close> is what the others do while \<^verbatim>\<open>Free\<close> spins on the operator.\<close>

definition rf_finalizer ::
    "'k sys \<Rightarrow> (fifo_handler FDOperator \<Rightarrow> fifo_handler FDOperator) list \<Rightarrow> ('f, 'k) rstate \<Rightarrow> ('f, 'k) rstate option" where
  "rf_finalizer sys oenv s =
     do {
       p \<leftarrow> poll_Free oenv (f_operator (rfifo s)) (pl s);
       let s = s\<lparr>pl := p\<rparr>;
       let s = (if \<not> f_closing (rfifo s) \<and> f_fd (rfifo s) > 2
                then s\<lparr>kern := snd (sys_close sys (f_fd (rfifo s)) (kern s))\<rparr> else s);
       rf_closeBuffer s
     }"

fun rf_run_callbacks ::
    "'k sys \<Rightarrow> ('f \<Rightarrow> ('f, 'k) rstate \<Rightarrow> ('f, 'k) rstate option) \<Rightarrow>
     (fifo_handler FDOperator \<Rightarrow> fifo_handler FDOperator) list \<Rightarrow>
     'f fifo_callback list \<Rightarrow> ('f, 'k) rstate \<Rightarrow> ('f, 'k) rstate option" where
  "rf_run_callbacks sys U oenv [] s = Some s"
| "rf_run_callbacks sys U oenv (FifoFinalizer # cs) s =
     do { s \<leftarrow> rf_finalizer sys oenv s; rf_run_callbacks sys U oenv cs s }"
| "rf_run_callbacks sys U oenv (FifoForget # cs) s = rf_run_callbacks sys U oenv cs (s\<lparr>rforgotten := True\<rparr>)"
| "rf_run_callbacks sys U oenv (FifoUser f # cs) s = do { s \<leftarrow> U f s; rf_run_callbacks sys U oenv cs s }"

definition rf_closeCallback ::
    "'k sys \<Rightarrow> ('f \<Rightarrow> ('f, 'k) rstate \<Rightarrow> ('f, 'k) rstate option) \<Rightarrow>
     (fifo_handler FDOperator \<Rightarrow> fifo_handler FDOperator) list \<Rightarrow>
     bool \<Rightarrow> bool \<Rightarrow> ('f, 'k) rstate \<Rightarrow> ('f, 'k) rstate option" where
  "rf_closeCallback sys U oenv needLock needDetach s =
     (let (ok, f) = (if needLock then fifo_lock fifoProcessing (rfifo s) else (True, rfifo s))
      in if \<not> ok then Some s
         else do {
           let s = s\<lparr>rfifo := f\<rparr>;
           s \<leftarrow> (if needDetach
                 then do {
                   op \<leftarrow> op_at (pl s) (OpPtr (f_operator (rfifo s)));
                   if op_poll op \<noteq> None
                   then map_option snd (operator_Control sys [] (OpPtr (f_operator (rfifo s))) PollDetach s)
                   else Some s
                 }
                 else Some s);
           rf_run_callbacks sys U oenv (f_closeCallbacks (rfifo s)) s
         })"

definition rf_onHup ::
    "'k sys \<Rightarrow> ('f \<Rightarrow> ('f, 'k) rstate \<Rightarrow> ('f, 'k) rstate option) \<Rightarrow>
     (fifo_handler FDOperator \<Rightarrow> fifo_handler FDOperator) list \<Rightarrow> ('f, 'k) rstate \<Rightarrow> ('f, 'k) rstate option" where
  "rf_onHup sys U oenv s =
     (let (ok, f) = fifo_closeBy poller (rfifo s)
      in if \<not> ok then Some s
         else do {
           let s = upd_rf (rf_triggerRead (Some (Exc ErrEOF ''peer close''))) (s\<lparr>rfifo := f\<rparr>);
           if onFifoReadCallback (rfifo s) \<noteq> None then rf_closeCallback sys U oenv True False s else Some s
         })"

definition rf_onClose ::
    "'k sys \<Rightarrow> ('f \<Rightarrow> ('f, 'k) rstate \<Rightarrow> ('f, 'k) rstate option) \<Rightarrow>
     (fifo_handler FDOperator \<Rightarrow> fifo_handler FDOperator) list \<Rightarrow> ('f, 'k) rstate \<Rightarrow> ('f, 'k) rstate option" where
  "rf_onClose sys U oenv s =
     (let (ok, f) = fifo_closeBy user (rfifo s)
      in if ok
         then rf_closeCallback sys U oenv True True
                (upd_rf (rf_triggerRead (Some (Exc ErrConnClosed ''self close''))) (s\<lparr>rfifo := f\<rparr>))
         else rf_closeCallback sys U oenv True False (upd_rf (fifo_force fifoClosing user) s))"

definition rf_Close where "rf_Close sys U oenv s = rf_onClose sys U oenv s"

definition rf_Detach where
  "rf_Detach sys U oenv s = rf_onClose sys U oenv (upd_rf (\<lambda>f. f\<lparr>f_closing := True\<rparr>) s)"

definition fifo_AddCloseCallback :: "'f fifo_callback option \<Rightarrow> ('f, 'z) baseFifo_scheme \<Rightarrow> ('f, 'z) baseFifo_scheme" where
  "fifo_AddCloseCallback cb f = (case cb of None \<Rightarrow> f | Some c \<Rightarrow> f\<lparr>f_closeCallbacks := c # f_closeCallbacks f\<rparr>)"

subsection \<open>The task\<close>

text \<open>
  The task that \<^verbatim>\<open>onProcess\<close> starts, when no other goroutine moves in between; what its interleavings with
  the poller and with closers can do is the same as for a connection (theory \<open>Lifecycle\<close>). \<open>fuel\<close>
  bounds the calls of \<^verbatim>\<open>OnFifoRead\<close>, which need not ever empty the buffer.
\<close>

fun rf_task_loop ::
    "nat \<Rightarrow> ('f \<Rightarrow> ('f, 'k) rstate \<Rightarrow> ('f, 'k) rstate option) \<Rightarrow> 'f option \<Rightarrow> ('f, 'k) rstate \<Rightarrow>
     (who \<times> ('f, 'k) rstate) option" where
  "rf_task_loop 0 U onFifoRead s = None"
| "rf_task_loop (Suc fuel) U onFifoRead s =
     (let closedBy = fifo_status fifoClosing (rfifo s)
      in if closedBy = user \<or> onFifoRead = None \<or> rf_Len s = 0 then Some (closedBy, s)
         else do { s \<leftarrow> U (the onFifoRead) s; rf_task_loop fuel U onFifoRead s })"

fun rf_task ::
    "nat \<Rightarrow> 'k sys \<Rightarrow> ('f \<Rightarrow> ('f, 'k) rstate \<Rightarrow> ('f, 'k) rstate option) \<Rightarrow>
     (fifo_handler FDOperator \<Rightarrow> fifo_handler FDOperator) list \<Rightarrow> ('f, 'k) rstate \<Rightarrow> ('f, 'k) rstate option" where
  "rf_task 0 sys U oenv s = None"
| "rf_task (Suc fuel) sys U oenv s =
     do {
       let onFifoRead = onFifoReadCallback (rfifo s);
       s \<leftarrow> (case onFifoRead of Some f \<Rightarrow> if rf_Len s > 0 then U f s else Some s | None \<Rightarrow> Some s);
       (closedBy, s) \<leftarrow> rf_task_loop (Suc fuel) U onFifoRead s;
       if closedBy \<noteq> none then rf_closeCallback sys U oenv False (closedBy = user) s
       else do {
         let s = upd_rf (fifo_unlock fifoProcessing) s;
         let (ok, f) = (if fifo_status fifoClosing (rfifo s) \<noteq> 0 then fifo_lock fifoProcessing (rfifo s) else (False, rfifo s));
         let s = s\<lparr>rfifo := f\<rparr>;
         if ok then rf_closeCallback sys U oenv False False s
         else if onFifoRead \<noteq> None \<and> rf_Len s > 0
         then (let (ok, f) = fifo_lock fifoProcessing (rfifo s)
               in if ok then rf_task fuel sys U oenv (s\<lparr>rfifo := f\<rparr>) else Some s)
         else Some s
       }
     }"

subsection \<open>Opening\<close>

definition rf_register ::
    "'k sys \<Rightarrow> (error \<Rightarrow> string) \<Rightarrow> ('f \<Rightarrow> ('f, 'k) rstate \<Rightarrow> ('f, 'k) rstate option) \<Rightarrow>
     (fifo_handler FDOperator \<Rightarrow> fifo_handler FDOperator) list \<Rightarrow> PollEvent \<Rightarrow> ('f, 'k) rstate \<Rightarrow>
     (error option \<times> ('f, 'k) rstate) option" where
  "rf_register sys txt U oenv event s =
     (if event \<noteq> PollReadable \<and> event \<noteq> PollDetach
      then Some (Some (Exc ErrUnsupported ''write event on read-only FIFO''), s)
      else do {
        (err, s) \<leftarrow> operator_Control sys oenv (OpPtr (f_operator (rfifo s))) event s;
        case err of
          None \<Rightarrow> Some (None, s)
        | Some e \<Rightarrow> do { s \<leftarrow> rf_Close sys U oenv s; Some (Some (Exc ErrConnClosed (txt e)), s) }
      })"

definition rf_onPrepare ::
    "'k sys \<Rightarrow> (error \<Rightarrow> string) \<Rightarrow> ('f \<Rightarrow> ('f, 'k) rstate \<Rightarrow> ('f, 'k) rstate option) \<Rightarrow>
     (fifo_handler FDOperator \<Rightarrow> fifo_handler FDOperator) list \<Rightarrow> 'f options option \<Rightarrow> ('f, 'k) rstate \<Rightarrow>
     (error option \<times> ('f, 'k) rstate) option" where
  "rf_onPrepare sys txt U oenv opts s =
     (let s = (case opts of
                 None \<Rightarrow> s
               | Some opt \<Rightarrow> upd_rf (rf_SetReadTimeout (o_readTimeout opt)) (upd_rf (SetOnFifoRead (o_onFifoRead opt)) s));
          s = upd_rf (\<lambda>f. f\<lparr>f_ctx_set := True\<rparr>) s
      in rf_register sys txt U oenv PollReadable s)"

definition rf_initOperator :: "nat \<Rightarrow> ('f, 'k) rstate \<Rightarrow> ('f, 'k) rstate option" where
  "rf_initOperator opSize s =
     do {
       (a, p) \<leftarrow> poll_Alloc opSize (pl s);
       op \<leftarrow> op_at p (OpPtr a);
       let op = op\<lparr>FD := f_fd (rfifo s), OnRead := None, OnWrite := None, OnHup := Some FOnHup,
                   Inputs := Some FInputs, InputAck := Some FInputAck, Outputs := None, OutputAck := None\<rparr>;
       Some (upd_rf (\<lambda>f. f\<lparr>f_operator := a\<rparr>) (s\<lparr>pl := set_op (OpPtr a) op p\<rparr>))
     }"

definition rf_initFinalizer :: "('f, 'k) rstate \<Rightarrow> ('f, 'k) rstate" where
  "rf_initFinalizer s = upd_rf (fifo_AddCloseCallback (Some FifoFinalizer)) s"

text \<open>\<^verbatim>\<open>init\<close>: the pipe is made unless it exists, opened, and registered for reading.\<close>

definition rf_init ::
    "globals \<Rightarrow> nat \<Rightarrow> 'k sys \<Rightarrow> 'k fifo_sys \<Rightarrow> (error \<Rightarrow> string) \<Rightarrow> ('f \<Rightarrow> ('f, 'k) rstate \<Rightarrow> ('f, 'k) rstate option) \<Rightarrow>
     (fifo_handler FDOperator \<Rightarrow> fifo_handler FDOperator) list \<Rightarrow> string \<Rightarrow> 'f options option \<Rightarrow> ('f, 'k) rstate \<Rightarrow>
     (error option \<times> ('f, 'k) rstate) option" where
  "rf_init g opSize sys fsys txt U oenv path opts s =
     (let s = upd_rf (\<lambda>f. f\<lparr>f_path := path\<rparr>) s;
          (err, k) = sys_mkfifo fsys path (kern s);
          s = s\<lparr>kern := k\<rparr>
      in if err \<noteq> None \<and> \<not> Errno_Is (the err) ErrExist then Some (map_option Errno err, s)
         else let (r, k) = sys_open fsys path False (kern s); s = s\<lparr>kern := k\<rparr>
              in case r of
                   Inl e \<Rightarrow> Some (Some (Errno e), s)
                 | Inr fd \<Rightarrow>
                     do {
                       let s = upd_rf (\<lambda>f. f\<lparr>f_fd := fd\<rparr>) s;
                       (b, w) \<leftarrow> NewLinkBuffer g (Some (defaultLinkBufferSize g)) (in_heap s);
                       let s = set_rinput b w s;
                       let s = upd_rf (\<lambda>f. f\<lparr>f_readTrigger := [], f_bookSize := defaultLinkBufferSize g,
                                            f_maxSize := defaultLinkBufferSize g\<rparr>) s;
                       s \<leftarrow> rf_initOperator opSize s;
                       let s = rf_initFinalizer s;
                       let s = s\<lparr>kern := sys_nonblock fsys (f_fd (rfifo s)) (kern s)\<rparr>;
                       rf_onPrepare sys txt U oenv opts s
                     })"

text \<open>The handlers of the operator, as the poller calls them.\<close>

definition rf_handlers ::
    "globals \<Rightarrow> 'k sys \<Rightarrow> ('f \<Rightarrow> ('f, 'k) rstate \<Rightarrow> ('f, 'k) rstate option) \<Rightarrow>
     (fifo_handler FDOperator \<Rightarrow> fifo_handler FDOperator) list \<Rightarrow> (fifo_handler, ('f, 'k) rstate) handlers" where
  "rf_handlers g sys U oenv =
     \<lparr>call = (\<lambda>h s. if h = FOnHup then rf_onHup sys U oenv s else None),
      inputs = (\<lambda>h n s. if h = FInputs then rf_inputs g n s else None),
      ack = (\<lambda>h n s. if h = FInputAck then rf_inputAck n s else None),
      outputs = (\<lambda>h n s. None)\<rparr>"

subsection \<open>A reader that is not woken\<close>

lemma rf_upd_sel [simp]:
  "rfifo (upd_rf f s) = f (rfifo s)" "in_heap (upd_rf f s) = in_heap s" "rtasks (upd_rf f s) = rtasks s"
  "rfifo (set_rinput b w s) = (rfifo s)\<lparr>f_inputBuffer := b\<rparr>" "in_heap (set_rinput b w s) = w"
  by (simp_all add: upd_rf_def set_rinput_def)

text \<open>
  The acknowledgement that makes an empty buffer non-empty starts a task, and therefore does not
  fill the trigger, whether there is an \<^verbatim>\<open>OnFifoRead\<close> or not.
\<close>

lemma rf_inputAck_first:
  assumes "0 < n" "lb_bookAck n (f_inputBuffer (rfifo s)) (in_heap s) = Some (n, b, w)"
    and "fkeychain (rfifo s) ! fifoProcessing = 0"
  obtains s' where "rf_inputAck n s = Some s'" "f_inputBuffer (rfifo s') = b" "lb_Len b = n" "rtasks s' = rtasks s + 1"
    "f_readTrigger (rfifo s') = f_readTrigger (rfifo s)" "onFifoReadCallback (rfifo s') = onFifoReadCallback (rfifo s)"
    "fkeychain (rfifo s') = (fkeychain (rfifo s))[fifoProcessing := 1]"
proof -
  have len: "lb_Len b = n"
    using assms(1,2) by (auto simp: lb_bookAck_def bind_eq_Some_conv recalLen_def Let_def lb_Len_def)
  define s1 where "s1 = upd_rf (\<lambda>f. if n = f_bookSize f \<and> f_bookSize f < mallocMax then f\<lparr>f_bookSize := f_bookSize f * 2\<rparr> else f) s"
  define s2 where "s2 = upd_rf (\<lambda>f. if f_maxSize f < n then f\<lparr>f_maxSize := n\<rparr> else f) (set_rinput b w s1)"
  define s3 where "s3 = upd_rf (\<lambda>f. if f_maxSize f > mallocMax then f\<lparr>f_maxSize := mallocMax\<rparr> else f) s2"
  let ?t = "s3\<lparr>rfifo := (rfifo s3)\<lparr>fkeychain := (fkeychain (rfifo s))[fifoProcessing := 1]\<rparr>, rtasks := rtasks s3 + 1\<rparr>"
  have sel: "fkeychain (rfifo s3) = fkeychain (rfifo s)" "f_inputBuffer (rfifo s3) = b" "rtasks s3 = rtasks s"
    "f_readTrigger (rfifo s3) = f_readTrigger (rfifo s)" "onFifoReadCallback (rfifo s3) = onFifoReadCallback (rfifo s)"
    by (simp_all add: s1_def s2_def s3_def set_rinput_def)
  have ack: "lb_bookAck n (f_inputBuffer (rfifo s1)) (in_heap s1) = Some (n, b, w)" using assms(2) by (auto simp: s1_def)
  have "rf_onProcess s3 = (True, ?t)"
    using assms(3) by (simp add: rf_onProcess_def fifo_lock_def CompareAndSwap_def sel)
  then have "rf_inputAck n s = Some ?t"
    using assms(1) ack unfolding rf_inputAck_def s1_def [symmetric] by (simp add: Let_def s2_def [symmetric] s3_def [symmetric])
  then show thesis by (rule that) (simp_all add: sel len)
qed

lemma rf_task_idle:
  assumes "onFifoReadCallback (rfifo s) = None" "fifo_status fifoClosing (rfifo s) = none" "length (fkeychain (rfifo s)) = fifoTotal"
  shows "rf_task 1 sys U oenv s = Some (upd_rf (fifo_unlock fifoProcessing) s)"
  using assms
  by (simp add: fifo_status_def fifo_unlock_def none_def fifoClosing_def fifoProcessing_def fifoTotal_def upd_rf_def user_def)

text \<open>
  C31: a lost wake-up. A goroutine that is blocked in \<^verbatim>\<open>Read\<close> on an empty pipe without an \<^verbatim>\<open>OnFifoRead\<close> and
  without a timeout stays blocked when data arrives: the poller appends the bytes and starts a
  task, the task finds nothing to do and ends, and nobody fills the read trigger.
\<close>
theorem fifo_read_not_woken:
  assumes "lb_Len (f_inputBuffer (rfifo s)) = 0" "f_readTimeout (rfifo s) = 0" "f_readTrigger (rfifo s) = []"
    and "onFifoReadCallback (rfifo s) = None" "fkeychain (rfifo s) = [0, 0, 0]"
    and "0 < n" "lb_bookAck n (f_inputBuffer (rfifo s)) (in_heap s) = Some (n, b, w)"
  shows "rf_waitRead [FOther (\<lambda>s. the (rf_inputAck n s)), FOther (\<lambda>s. the (rf_task 1 sys U oenv s))] 1 s = None \<and>
    (\<exists>s'. rf_inputAck n s = Some s' \<and> 1 \<le> rf_Len s')"
proof -
  let ?s = "upd_rf (\<lambda>f. f\<lparr>f_waitReadSize := 1\<rparr>) s"
  have p: "fkeychain (rfifo t) ! fifoProcessing = 0" if "rfifo t = rfifo s \<or> t = ?s" for t
    using that assms(5) by (auto simp: fifoProcessing_def)
  have b: "lb_bookAck n (f_inputBuffer (rfifo ?s)) (in_heap ?s) = Some (n, b, w)" using assms(7) by simp
  obtain s1 where 1: "rf_inputAck n ?s = Some s1" "f_readTrigger (rfifo s1) = []" "onFifoReadCallback (rfifo s1) = None"
    "fkeychain (rfifo s1) = [0, 1, 0]"
    by (rule rf_inputAck_first [OF assms(6) b p]) (use assms(3-5) in \<open>auto simp: fifoProcessing_def\<close>)
  have 2: "rf_task 1 sys U oenv s1 = Some (upd_rf (fifo_unlock fifoProcessing) s1)"
    by (rule rf_task_idle) (use 1 in \<open>simp_all add: fifo_status_def fifoClosing_def none_def fifoTotal_def\<close>)
  have "rf_recv [FOther (\<lambda>s. the (rf_inputAck n s)), FOther (\<lambda>s. the (rf_task 1 sys U oenv s))] ?s = None"
    using 1 2 assms(3) by (simp add: rf_recv.simps fifo_unlock_def del: rf_task.simps One_nat_def)
  then have "rf_wait_loop [FOther (\<lambda>s. the (rf_inputAck n s)), FOther (\<lambda>s. the (rf_task 1 sys U oenv s))] 1 ?s = None"
    using assms(1,5)
    by (simp add: rf_wait_loop.simps rf_closed_error_def fifo_status_def fifoClosing_def user_def poller_def del: rf_task.simps One_nat_def)
  moreover obtain s' where "rf_inputAck n s = Some s'" "1 \<le> rf_Len s'"
    by (rule rf_inputAck_first [OF assms(6,7) p]) (use assms(6) in \<open>auto simp: rf_Len_def\<close>)
  ultimately show ?thesis using assms(1,2) by (auto simp: rf_waitRead_def simp del: rf_task.simps One_nat_def)
qed

definition ex_rfifo :: "nat readFifo" where
  "ex_rfifo = \<lparr>fkeychain = [0, 0, 0], f_fd = 7, f_path = ''/tmp/p'', f_operator = 0, f_closing = False, f_ctx_set = True,
     f_closeCallbacks = [FifoFinalizer], onFifoReadCallback = None, f_readTimeout = 0, f_readTrigger = [],
     f_waitReadSize = 0, f_inputBuffer = ex_empty, f_maxSize = 8192, f_bookSize = 8192\<rparr>"

definition ex_rstate :: "(nat, unit) rstate" where
  "ex_rstate = \<lparr>in_heap = ex_empty_world, out_heap = ex_empty_world, kern = (), pl = zero_poll 0, hup_tasks = [],
     rfifo = ex_rfifo, rtasks = 0, rforgotten = False\<rparr>"

theorem fifo_read_not_woken_witness:
  "\<forall>sys. rf_waitRead [FOther (\<lambda>s. the (rf_inputAck 3 s)), FOther (\<lambda>s. the (rf_task 1 sys (\<lambda>_ _. None) [] s))] 1 ex_rstate = None"
proof
  fix sys :: "unit sys"
  obtain b w where b: "lb_bookAck 3 ex_empty ex_empty_world = Some (3, b, w)"
    by (auto simp: lb_bookAck_def ex_empty_def ex_empty_world_def ex_empty_node_def reslice_def recalLen_def Let_def)
  show "rf_waitRead [FOther (\<lambda>s. the (rf_inputAck 3 s)), FOther (\<lambda>s. the (rf_task 1 sys (\<lambda>_ _. None) [] s))] 1 ex_rstate = None"
    by (rule fifo_read_not_woken [where b = b and w = w, THEN conjunct1])
      (use b in \<open>simp_all add: ex_rstate_def ex_rfifo_def ex_empty_def lb_Len_def\<close>)
qed

end
