(* ===== verification/FifoWrite.thy ===== *)
theory FifoWrite
  imports FifoRead
begin

section \<open>Writing ends of named pipes (fifo\_write\_impl.go, fifo\_reactor.go)\<close>

text \<open>
  The writing end of a named pipe. A write that the pipe does not take at once registers the
  descriptor with the poller, which sends the rest; scripts are as in \<open>FifoRead\<close>.
\<close>

subsection \<open>State\<close>

record 'f writeFifo = "'f baseFifo" +
  f_writeTimeout :: int
  f_writeTrigger :: "error option list"
  f_outputBuffer :: LinkBuffer
  f_outputBarrier :: barrier

record ('f, 'k) wstate = "(fifo_handler, 'k) pstate" +
  wfifo :: "'f writeFifo"
  wbarriers :: "barrier list"
  wforgotten :: bool

definition upd_wf :: "('f writeFifo \<Rightarrow> 'f writeFifo) \<Rightarrow> ('f, 'k) wstate \<Rightarrow> ('f, 'k) wstate" where
  "upd_wf f s = s\<lparr>wfifo := f (wfifo s)\<rparr>"

definition set_woutput :: "LinkBuffer \<Rightarrow> world \<Rightarrow> ('f, 'k) wstate \<Rightarrow> ('f, 'k) wstate" where
  "set_woutput b w s = s\<lparr>out_heap := w, wfifo := (wfifo s)\<lparr>f_outputBuffer := b\<rparr>\<rparr>"

subsection \<open>The writer\<close>

definition wf_write ::
    "(LinkBuffer \<Rightarrow> world \<Rightarrow> 'a lb_result) \<Rightarrow> ('f, 'k) wstate \<Rightarrow> ('a \<times> ('f, 'k) wstate) option" where
  "wf_write op s = do { (r, b, w) \<leftarrow> op (f_outputBuffer (wfifo s)) (out_heap s); Some (r, set_woutput b w s) }"

definition wf_Malloc where "wf_Malloc g n s = wf_write (lb_Malloc g n) s"

definition wf_MallocLen :: "('f, 'k) wstate \<Rightarrow> int" where
  "wf_MallocLen s = lb_MallocLen (f_outputBuffer (wfifo s))"

definition wf_MallocAck where "wf_MallocAck n s = wf_write (lb_MallocAck n) s"

definition wf_Append where "wf_Append x s = wf_write (lb_Append x) s"

definition wf_WriteString where "wf_WriteString g p s = wf_write (lb_WriteString g p) s"

definition wf_WriteBinary where "wf_WriteBinary g p s = wf_write (lb_WriteBinary g p) s"

definition wf_WriteDirect where
  "wf_WriteDirect g p remainCap s = wf_write (\<lambda>b w. map_option (\<lambda>r. ((), r)) (lb_WriteDirect g p remainCap b w)) s"

definition wf_WriteByte where
  "wf_WriteByte g x s = wf_write (\<lambda>b w. map_option (\<lambda>r. ((), r)) (lb_WriteByte g x b w)) s"

definition wf_SetWriteTimeout :: "int \<Rightarrow> 'f writeFifo \<Rightarrow> 'f writeFifo" where
  "wf_SetWriteTimeout t f = (if t \<ge> 0 then f\<lparr>f_writeTimeout := t\<rparr> else f)"

subsection \<open>Sending\<close>

definition wf_triggerWrite :: "error option \<Rightarrow> 'f writeFifo \<Rightarrow> 'f writeFifo" where
  "wf_triggerWrite err f =
     (if length (f_writeTrigger f) < 1 then f\<lparr>f_writeTrigger := f_writeTrigger f @ [err]\<rparr> else f)"

fun wf_recv ::
    "('f, 'k) wstate fmove list \<Rightarrow> ('f, 'k) wstate \<Rightarrow>
     (error option \<times> ('f, 'k) wstate fmove list \<times> ('f, 'k) wstate) option" where
  "wf_recv env s =
     (case f_writeTrigger (wfifo s) of
        e # es \<Rightarrow> Some (e, env, upd_wf (\<lambda>f. f\<lparr>f_writeTrigger := es\<rparr>) s)
      | [] \<Rightarrow> (case env of
                [] \<Rightarrow> None
              | FFire # ms \<Rightarrow> wf_recv ms s
              | FOther f # ms \<Rightarrow> wf_recv ms (f s)))"

fun wf_select ::
    "('f, 'k) wstate fmove list \<Rightarrow> ('f, 'k) wstate \<Rightarrow>
     (error option option \<times> ('f, 'k) wstate fmove list \<times> ('f, 'k) wstate) option" where
  "wf_select (FFire # ms) s = Some (None, ms, s)"
| "wf_select env s =
     (case f_writeTrigger (wfifo s) of
        e # es \<Rightarrow> Some (Some e, env, upd_wf (\<lambda>f. f\<lparr>f_writeTrigger := es\<rparr>) s)
      | [] \<Rightarrow> (case env of
                [] \<Rightarrow> None
              | FOther f # ms \<Rightarrow> wf_select ms (f s)
              | FFire # ms \<Rightarrow> None))"

declare wf_recv.simps [simp del] wf_select.simps [simp del]

definition wf_waitFlush ::
    "'k sys \<Rightarrow> ('f, 'k) wstate fmove list \<Rightarrow> ('f, 'k) wstate \<Rightarrow>
     (error option \<times> ('f, 'k) wstate fmove list \<times> ('f, 'k) wstate) option" where
  "wf_waitFlush sys env s =
     (if f_writeTimeout (wfifo s) = 0 then wf_recv env s
      else do {
        (r, env, s) \<leftarrow> wf_select env s;
        case r of
          Some err \<Rightarrow> Some (err, env, s)
        | None \<Rightarrow>
            (case f_writeTrigger (wfifo s) of
               e # es \<Rightarrow> Some (e, env, upd_wf (\<lambda>f. f\<lparr>f_writeTrigger := es\<rparr>) s)
             | [] \<Rightarrow>
                 do {
                   (_, s) \<leftarrow> operator_Control sys [] (OpPtr (f_operator (wfifo s))) PollDetach s;
                   Some (Some (Exc ErrWriteTimeout ''wait flush''), env, s)
                 })
      })"

text \<open>
  \<^verbatim>\<open>flush\<close>; \<open>wf_send_once\<close> is its part up to the test whether everything was sent. \<open>oenv\<close> is what the
  poller does to the operator while \<^verbatim>\<open>inuse\<close> spins.
\<close>

definition wf_send_once ::
    "'k sys \<Rightarrow> (error \<Rightarrow> string) \<Rightarrow> ('f, 'k) wstate \<Rightarrow> (error option \<times> ('f, 'k) wstate) option" where
  "wf_send_once sys txt s =
     do {
       bs \<leftarrow> lb_GetBytes (bar_bs (f_outputBarrier (wfifo s))) (f_outputBuffer (wfifo s)) (out_heap s);
       ((n, err), _, k) \<leftarrow> writev (sys_writev sys) (f_fd (wfifo s)) bs (bar_ivs (f_outputBarrier (wfifo s))) (kern s) (out_heap s);
       let s = s\<lparr>kern := k\<rparr>;
       if err \<noteq> None \<and> err \<noteq> Some (Errno EAGAIN)
       then Some (Some (Exception txt (the err) ''when flush''), s)
       else if n > 0
       then do {
         (err, b, w) \<leftarrow> lb_Skip n (f_outputBuffer (wfifo s)) (out_heap s);
         (b, w) \<leftarrow> lb_Release b w;
         Some (map_option (\<lambda>e. Exception txt e ''when flush'') err, set_woutput b w s)
       }
       else Some (None, s)
     }"

definition wf_flush ::
    "'k sys \<Rightarrow> (error \<Rightarrow> string) \<Rightarrow> (fifo_handler FDOperator \<Rightarrow> fifo_handler FDOperator) list \<Rightarrow> 
     ('f, 'k) wstate fmove list \<Rightarrow> ('f, 'k) wstate \<Rightarrow>
     (error option \<times> ('f, 'k) wstate fmove list \<times> ('f, 'k) wstate) option" where
  "wf_flush sys txt oenv env s =
     (if lb_IsEmpty (f_outputBuffer (wfifo s)) then Some (None, env, s)
      else do {
        (err, s) \<leftarrow> wf_send_once sys txt s;
        if err \<noteq> None then Some (err, env, s)
        else if lb_IsEmpty (f_outputBuffer (wfifo s)) then Some (None, env, s)
        else do {
          (err, s) \<leftarrow> operator_Control sys oenv (OpPtr (f_operator (wfifo s))) PollWritable s;
          case err of
            Some e \<Rightarrow> Some (Some (Exception txt e ''when flush''), env, s)
          | None \<Rightarrow> wf_waitFlush sys env s
        }
      })"

definition wf_Flush ::
    "globals \<Rightarrow> 'k sys \<Rightarrow> (error \<Rightarrow> string) \<Rightarrow> (fifo_handler FDOperator \<Rightarrow> fifo_handler FDOperator) list \<Rightarrow> 
     ('f, 'k) wstate fmove list \<Rightarrow> ('f, 'k) wstate \<Rightarrow>
     (error option \<times> ('f, 'k) wstate fmove list \<times> ('f, 'k) wstate) option" where
  "wf_Flush g sys txt oenv env s =
     (let (ok, f) = fifo_lock fifoFlushing (wfifo s)
      in if \<not> ok then Some (Some (Exc ErrConcurrentAccess ''when flush''), env, s)
         else do {
           let s = s\<lparr>wfifo := f\<rparr>;
           (b, w) \<leftarrow> lb_Flush g (f_outputBuffer (wfifo s)) (out_heap s);
           (err, env, s) \<leftarrow> wf_flush sys txt oenv env (set_woutput b w s);
           Some (err, env, upd_wf (fifo_unlock fifoFlushing) s)
         })"

definition wf_Write ::
    "globals \<Rightarrow> 'k sys \<Rightarrow> (error \<Rightarrow> string) \<Rightarrow> (fifo_handler FDOperator \<Rightarrow> fifo_handler FDOperator) list \<Rightarrow> 
     ('f, 'k) wstate fmove list \<Rightarrow> byte list \<Rightarrow> ('f, 'k) wstate \<Rightarrow>
     ((int \<times> error option) \<times> ('f, 'k) wstate fmove list \<times> ('f, 'k) wstate) option" where
  "wf_Write g sys txt oenv env p s =
     (let (ok, f) = fifo_lock fifoFlushing (wfifo s)
      in if \<not> ok then Some ((0, Some (Exc ErrConcurrentAccess ''when write'')), env, s)
         else do {
           let s = s\<lparr>wfifo := f\<rparr>;
           (dst, b, w) \<leftarrow> lb_Malloc g (int (length p)) (f_outputBuffer (wfifo s)) (out_heap s);
           let (n, w) = go_copy dst p w;
           (b, w) \<leftarrow> lb_Flush g b w;
           (err, env, s) \<leftarrow> wf_flush sys txt oenv env (set_woutput b w s);
           Some ((n, err), env, upd_wf (fifo_unlock fifoFlushing) s)
         })"

subsection \<open>Handlers of the operator\<close>

definition detachWrite :: "'k sys \<Rightarrow> ('f, 'k) wstate \<Rightarrow> ('f, 'k) wstate option" where
  "detachWrite sys s =
     do {
       (_, s) \<leftarrow> operator_Control sys [] (OpPtr (f_operator (wfifo s))) PollDetach s;
       Some (upd_wf (wf_triggerWrite None) s)
     }"

definition wf_outputs ::
    "'k sys \<Rightarrow> nat \<Rightarrow> ('f, 'k) wstate \<Rightarrow> ((slice list \<times> bool) \<times> ('f, 'k) wstate) option" where
  "wf_outputs sys caps s =
     (if lb_IsEmpty (f_outputBuffer (wfifo s))
      then do { s \<leftarrow> detachWrite sys s; Some (([], False), s) }
      else do {
        rs \<leftarrow> lb_GetBytes caps (f_outputBuffer (wfifo s)) (out_heap s);
        Some ((rs, False), s)
      })"

definition wf_outputAck :: "'k sys \<Rightarrow> int \<Rightarrow> ('f, 'k) wstate \<Rightarrow> ('f, 'k) wstate option" where
  "wf_outputAck sys n s =
     do {
       s \<leftarrow> (if n > 0
             then do {
               (_, b, w) \<leftarrow> lb_Skip n (f_outputBuffer (wfifo s)) (out_heap s);
               (b, w) \<leftarrow> lb_Release b w;
               Some (set_woutput b w s)
             }
             else Some s);
       if lb_IsEmpty (f_outputBuffer (wfifo s)) then detachWrite sys s else Some s
     }"

subsection \<open>Closing\<close>

definition wf_closeBuffer :: "('f, 'k) wstate \<Rightarrow> ('f, 'k) wstate option" where
  "wf_closeBuffer s =
     do {
       (b, w) \<leftarrow> lb_Close (f_outputBuffer (wfifo s)) (out_heap s);
       let s = set_woutput b w s;
       Some (s\<lparr>wbarriers := f_outputBarrier (wfifo s) # wbarriers s\<rparr>)
     }"

text \<open>\<open>fenv\<close> and \<open>oenv\<close> are what the others do while the finalizer spins on the flushing lock and on the operator.\<close>

definition wf_finalizer ::
    "'k sys \<Rightarrow> ('f writeFifo \<Rightarrow> 'f writeFifo) list \<Rightarrow> (fifo_handler FDOperator \<Rightarrow> fifo_handler FDOperator) list \<Rightarrow>
     ('f, 'k) wstate \<Rightarrow> ('f, 'k) wstate option" where
  "wf_finalizer sys fenv oenv s =
     do {
       f \<leftarrow> fifo_stop fifoFlushing fenv (wfifo s);
       let s = s\<lparr>wfifo := f\<rparr>;
       p \<leftarrow> poll_Free oenv (f_operator (wfifo s)) (pl s);
       let s = s\<lparr>pl := p\<rparr>;
       let s = (if \<not> f_closing (wfifo s) \<and> f_fd (wfifo s) > 2
                then s\<lparr>kern := snd (sys_close sys (f_fd (wfifo s)) (kern s))\<rparr> else s);
       wf_closeBuffer s
     }"

fun wf_run_callbacks ::
    "'k sys \<Rightarrow> ('f \<Rightarrow> ('f, 'k) wstate \<Rightarrow> ('f, 'k) wstate option) \<Rightarrow> ('f writeFifo \<Rightarrow> 'f writeFifo) list \<Rightarrow>
     (fifo_handler FDOperator \<Rightarrow> fifo_handler FDOperator) list \<Rightarrow>
     'f fifo_callback list \<Rightarrow> ('f, 'k) wstate \<Rightarrow> ('f, 'k) wstate option" where
  "wf_run_callbacks sys U fenv oenv [] s = Some s"
| "wf_run_callbacks sys U fenv oenv (FifoFinalizer # cs) s =
     do { s \<leftarrow> wf_finalizer sys fenv oenv s; wf_run_callbacks sys U fenv oenv cs s }"
| "wf_run_callbacks sys U fenv oenv (FifoForget # cs) s = wf_run_callbacks sys U fenv oenv cs (s\<lparr>wforgotten := True\<rparr>)"
| "wf_run_callbacks sys U fenv oenv (FifoUser f # cs) s = do { s \<leftarrow> U f s; wf_run_callbacks sys U fenv oenv cs s }"

definition wf_closeCallback ::
    "'k sys \<Rightarrow> ('f \<Rightarrow> ('f, 'k) wstate \<Rightarrow> ('f, 'k) wstate option) \<Rightarrow> ('f writeFifo \<Rightarrow> 'f writeFifo) list \<Rightarrow>
     (fifo_handler FDOperator \<Rightarrow> fifo_handler FDOperator) list \<Rightarrow>
     bool \<Rightarrow> bool \<Rightarrow> ('f, 'k) wstate \<Rightarrow> ('f, 'k) wstate option" where
  "wf_closeCallback sys U fenv oenv needLock needDetach s =
     (let (ok, f) = (if needLock then fifo_lock fifoProcessing (wfifo s) else (True, wfifo s))
      in if \<not> ok then Some s
         else do {
           let s = s\<lparr>wfifo := f\<rparr>;
           s \<leftarrow> (if needDetach
                 then do {
                   op \<leftarrow> op_at (pl s) (OpPtr (f_operator (wfifo s)));
                   if op_poll op \<noteq> None
                   then map_option snd (operator_Control sys [] (OpPtr (f_operator (wfifo s))) PollDetach s)
                   else Some s
                 }
                 else Some s);
           wf_run_callbacks sys U fenv oenv (f_closeCallbacks (wfifo s)) s
         })"

definition wf_onHup ::
    "'k sys \<Rightarrow> ('f \<Rightarrow> ('f, 'k) wstate \<Rightarrow> ('f, 'k) wstate option) \<Rightarrow> ('f writeFifo \<Rightarrow> 'f writeFifo) list \<Rightarrow>
     (fifo_handler FDOperator \<Rightarrow> fifo_handler FDOperator) list \<Rightarrow> ('f, 'k) wstate \<Rightarrow> ('f, 'k) wstate option" where
  "wf_onHup sys U fenv oenv s =
     (let (ok, f) = fifo_closeBy poller (wfifo s)
      in if \<not> ok then Some s
         else wf_closeCallback sys U fenv oenv True False
                (upd_wf (wf_triggerWrite (Some (Exc ErrEOF ''peer close''))) (s\<lparr>wfifo := f\<rparr>)))"

definition wf_onClose ::
    "'k sys \<Rightarrow> ('f \<Rightarrow> ('f, 'k) wstate \<Rightarrow> ('f, 'k) wstate option) \<Rightarrow> ('f writeFifo \<Rightarrow> 'f writeFifo) list \<Rightarrow>
     (fifo_handler FDOperator \<Rightarrow> fifo_handler FDOperator) list \<Rightarrow> ('f, 'k) wstate \<Rightarrow> ('f, 'k) wstate option" where
  "wf_onClose sys U fenv oenv s =
     (let (ok, f) = fifo_closeBy user (wfifo s)
      in if ok
         then wf_closeCallback sys U fenv oenv True True
                (upd_wf (wf_triggerWrite (Some (Exc ErrConnClosed ''self close''))) (s\<lparr>wfifo := f\<rparr>))
         else wf_closeCallback sys U fenv oenv True False (upd_wf (fifo_force fifoClosing user) s))"

definition wf_Close where "wf_Close sys U fenv oenv s = wf_onClose sys U fenv oenv s"

definition wf_Detach where
  "wf_Detach sys U fenv oenv s = wf_onClose sys U fenv oenv (upd_wf (\<lambda>f. f\<lparr>f_closing := True\<rparr>) s)"

subsection \<open>Opening\<close>

definition wf_onPrepare :: "'f options option \<Rightarrow> ('f, 'k) wstate \<Rightarrow> error option \<times> ('f, 'k) wstate" where
  "wf_onPrepare opts s =
     (let s = (case opts of None \<Rightarrow> s | Some opt \<Rightarrow> upd_wf (wf_SetWriteTimeout (o_writeTimeout opt)) s)
      in (None, upd_wf (\<lambda>f. f\<lparr>f_ctx_set := True\<rparr>) s))"

definition wf_initOperator :: "nat \<Rightarrow> ('f, 'k) wstate \<Rightarrow> ('f, 'k) wstate option" where
  "wf_initOperator opSize s =
     do {
       (a, p) \<leftarrow> poll_Alloc opSize (pl s);
       op \<leftarrow> op_at p (OpPtr a);
       let op = op\<lparr>FD := f_fd (wfifo s), OnRead := None, OnWrite := None, OnHup := Some FOnHup,
                   Inputs := None, InputAck := None, Outputs := Some FOutputs, OutputAck := Some FOutputAck\<rparr>;
       Some (upd_wf (\<lambda>f. f\<lparr>f_operator := a\<rparr>) (s\<lparr>pl := set_op (OpPtr a) op p\<rparr>))
     }"

definition wf_initFinalizer :: "('f, 'k) wstate \<Rightarrow> ('f, 'k) wstate" where
  "wf_initFinalizer s = upd_wf (fifo_AddCloseCallback (Some FifoFinalizer)) s"

definition wf_init ::
    "globals \<Rightarrow> nat \<Rightarrow> 'k fifo_sys \<Rightarrow> string \<Rightarrow> 'f options option \<Rightarrow> ('f, 'k) wstate \<Rightarrow>
     (error option \<times> ('f, 'k) wstate) option" where
  "wf_init g opSize fsys path opts s =
     (let s = upd_wf (\<lambda>f. f\<lparr>f_path := path\<rparr>) s;
          (err, k) = sys_mkfifo fsys path (kern s);
          s = s\<lparr>kern := k\<rparr>
      in if err \<noteq> None \<and> \<not> Errno_Is (the err) ErrExist then Some (map_option Errno err, s)
         else let (r, k) = sys_open fsys path True (kern s); s = s\<lparr>kern := k\<rparr>
              in case r of
                   Inl e \<Rightarrow> Some (Some (Errno e), s)
                 | Inr fd \<Rightarrow>
                     do {
                       let s = upd_wf (\<lambda>f. f\<lparr>f_fd := fd\<rparr>) s;
                       (b, w) \<leftarrow> NewLinkBuffer g None (out_heap s);
                       let s = set_woutput b w s;
                       let (br, pool) = barrierPool_Get (wbarriers s);
                       let s = upd_wf (\<lambda>f. f\<lparr>f_outputBarrier := br, f_writeTrigger := []\<rparr>) (s\<lparr>wbarriers := pool\<rparr>);
                       s \<leftarrow> wf_initOperator opSize s;
                       let s = wf_initFinalizer s;
                       let s = s\<lparr>kern := sys_nonblock fsys (f_fd (wfifo s)) (kern s)\<rparr>;
                       Some (wf_onPrepare opts s)
                     })"

definition wf_handlers ::
    "'k sys \<Rightarrow> ('f \<Rightarrow> ('f, 'k) wstate \<Rightarrow> ('f, 'k) wstate option) \<Rightarrow> ('f writeFifo \<Rightarrow> 'f writeFifo) list \<Rightarrow>
     (fifo_handler FDOperator \<Rightarrow> fifo_handler FDOperator) list \<Rightarrow> (fifo_handler, ('f, 'k) wstate) handlers" where
  "wf_handlers sys U fenv oenv =
     \<lparr>call = (\<lambda>h s. if h = FOnHup then wf_onHup sys U fenv oenv s else None),
      inputs = (\<lambda>h n s. None),
      ack = (\<lambda>h n s. if h = FOutputAck then wf_outputAck sys n s else None),
      outputs = (\<lambda>h n s. if h = FOutputs then wf_outputs sys n s else None)\<rparr>"

subsection \<open>Back-pressure\<close>

lemma op_at_upd_op [simp]: "op_at (pl (upd_op ptr op s)) ptr = Some op"
  by (cases ptr) (simp_all add: op_at_def upd_op_def set_op_def put_op_def)

lemma upd_op_more [simp]:
  "kern (upd_op ptr op s) = kern s" "poll_fd (pl (upd_op ptr op s)) = poll_fd (pl s)" "out_heap (upd_op ptr op s) = out_heap s"
  by (cases ptr; simp add: upd_op_def set_op_def)+

lemma upd_op_wfifo [simp]: "wfifo (upd_op ptr op s) = wfifo s" "wfifo (upd_wf f s) = f (wfifo s)" "kern (upd_wf f s) = kern s"
  "pl (upd_wf f s) = pl s"
  by (simp_all add: upd_op_def upd_wf_def)

lemma operator_Control_add_fails:
  assumes "op_at (pl s) ptr = Some op" "op_poll op \<noteq> None" "op_state op = 1"
    and "\<And>evt. EpollCtl sys (poll_fd (pl s)) EPOLL_CTL_ADD (FD op) evt (kern s) = (Some e, kern s)"
  shows "operator_Control sys oenv ptr PollWritable s = Some (Some e, upd_op ptr op (upd_op ptr op s))"
proof -
  have i: "op_inuse oenv op = Some op" using assms(3) by (subst op_inuse.simps) simp
  have "poll_Control sys oenv ptr PollWritable (upd_op ptr op s) = Some (Some e, upd_op ptr op (upd_op ptr op s))"
    by (simp add: poll_Control_def control_op_def i assms(4))
  then show ?thesis using assms(1,2) by (simp add: operator_Control_def op_Control_def)
qed

lemma second_detach_skipped:
  assumes "op_at (pl s) ptr = Some op" "detached op = 1"
  shows "operator_Control sys oenv ptr PollDetach s = Some (None, upd_op ptr (op\<lparr>detached := 2\<rparr>) s)"
  using assms by (simp add: operator_Control_def op_Control_def)

text \<open>
  C32: the second time the poller has sent everything, the registration stays. \<^verbatim>\<open>detachWrite\<close> goes through
  \<^verbatim>\<open>operator.Control\<close>, which lets only the first detach of an operator reach the kernel; the blocked
  \<^verbatim>\<open>Flush\<close> is released as if all were well. Whenever a later \<^verbatim>\<open>Flush\<close> meets a full pipe, adding the
  descriptor fails with \<^verbatim>\<open>EEXIST\<close>, which the caller gets while its bytes stay in the buffer. The
  hypothesis on the kernel is the documented one: adding a registered descriptor is \<^verbatim>\<open>EEXIST\<close>.
\<close>
theorem fifo_second_backpressure_fails:
  fixes s :: "('f, 'k) wstate"
  assumes "op_at (pl s) (OpPtr (f_operator (wfifo s))) = Some op" "op_poll op \<noteq> None" "op_state op = 1" "detached op = 1"
    and "\<And>ep k evt. registered ep (FD op) k \<Longrightarrow> EpollCtl sys ep EPOLL_CTL_ADD (FD op) evt k = (Some (Errno EEXIST), k)"
    and "registered (poll_fd (pl s)) (FD op) (kern s)" "f_writeTrigger (wfifo s) = []"
  shows "\<exists>s1. detachWrite sys s = Some s1 \<and> f_writeTrigger (wfifo s1) = [None] \<and>
    registered (poll_fd (pl s1)) (FD op) (kern s1) \<and>
    (\<forall>txt oenv env (s2 :: ('f, 'k) wstate) s3.
       \<not> lb_IsEmpty (f_outputBuffer (wfifo s2)) \<longrightarrow> wf_send_once sys txt s2 = Some (None, s3) \<longrightarrow>
       \<not> lb_IsEmpty (f_outputBuffer (wfifo s3)) \<longrightarrow> pl s3 = pl s1 \<longrightarrow> f_operator (wfifo s3) = f_operator (wfifo s) \<longrightarrow>
       registered (poll_fd (pl s3)) (FD op) (kern s3) \<longrightarrow>
       (\<exists>s4. wf_flush sys txt oenv env s2 = Some (Some (Exception txt (Errno EEXIST) ''when flush''), env, s4) \<and>
             f_outputBuffer (wfifo s4) = f_outputBuffer (wfifo s3) \<and> out_heap s4 = out_heap s3))"
proof -
  let ?p = "OpPtr (f_operator (wfifo s))" and ?op = "op\<lparr>detached := 2\<rparr>"
  define s1 where "s1 = upd_wf (wf_triggerWrite None) (upd_op ?p ?op s)"
  have d: "detachWrite sys s = Some s1" "f_writeTrigger (wfifo s1) = [None]" "registered (poll_fd (pl s1)) (FD op) (kern s1)"
    "op_at (pl s1) ?p = Some ?op"
    using assms(6,7) by (simp_all add: detachWrite_def second_detach_skipped [OF assms(1,4)] s1_def wf_triggerWrite_def)
  have "\<exists>s4. wf_flush sys tx oenv env s2 = Some (Some (Exception tx (Errno EEXIST) ''when flush''), env, s4) \<and>
      f_outputBuffer (wfifo s4) = f_outputBuffer (wfifo s3) \<and> out_heap s4 = out_heap s3"
    if "\<not> lb_IsEmpty (f_outputBuffer (wfifo s2))" "wf_send_once sys tx s2 = Some (None, s3)"
      "\<not> lb_IsEmpty (f_outputBuffer (wfifo s3))" "pl s3 = pl s1" "f_operator (wfifo s3) = f_operator (wfifo s)"
      "registered (poll_fd (pl s3)) (FD op) (kern s3)" for tx oenv env and s2 s3 :: "('f, 'k) wstate"
  proof -
    have o3: "op_at (pl s3) ?p = Some ?op" using d(4) that(4) by simp
    have "operator_Control sys oenv ?p PollWritable s3 = Some (Some (Errno EEXIST), upd_op ?p ?op (upd_op ?p ?op s3))"
      by (rule operator_Control_add_fails [OF o3]) (use assms(2,3) assms(5) [OF that(6)] in simp_all)
    then show ?thesis using that by (simp add: wf_flush_def)
  qed
  then show ?thesis using d(1-3) by blast
qed

text \<open>A full pipe: writing is \<^verbatim>\<open>EAGAIN\<close>, and the descriptor is registered.\<close>

definition ex_full_sys :: "unit sys" where
  "ex_full_sys = \<lparr>
     sys_readv = (\<lambda>_ _ k. (Inl EAGAIN, k)), sys_writev = (\<lambda>_ _ _ k. (Inl EAGAIN, k)),
     sys_sendmsg = (\<lambda>_ _ _ k. (Inl EAGAIN, k)), sys_fstat = (\<lambda>_. Some 0x1000),
     sys_read8 = (\<lambda>_ k. (None, k)), sys_write8 = (\<lambda>_ _ k. (None, k)), sys_recvmsg = (\<lambda>_ k. (None, k)),
     sys_close = (\<lambda>_ k. (None, k)), sys_eventfd = (\<lambda>k. (Inr 4, k)), EpollCreate = (\<lambda>_ k. (Inr 3, k)),
     EpollCtl = (\<lambda>_ op _ _ k. (if op = EPOLL_CTL_ADD then Some (Errno EEXIST) else None, k)),
     EpollWait = (\<lambda>_ _ _ k. (Inr [], k))\<rparr>"

definition ex_wfifo :: "nat writeFifo" where
  "ex_wfifo = \<lparr>fkeychain = [0, 0, 0], f_fd = 7, f_path = ''/tmp/p'', f_operator = 0, f_closing = False, f_ctx_set = True,
     f_closeCallbacks = [FifoFinalizer], f_writeTimeout = 0, f_writeTrigger = [], f_outputBuffer = ex_empty,
     f_outputBarrier = \<lparr>bar_bs = barriercap, bar_ivs = barriercap\<rparr>\<rparr>"

definition ex_wop :: "fifo_handler FDOperator" where
  "ex_wop = zero_FDOperator\<lparr>FD := 7, op_poll := Some 0, op_state := 1, detached := 1\<rparr>"

definition ex_wstate :: "(nat, unit) wstate" where
  "ex_wstate = \<lparr>in_heap = ex_empty_world, out_heap = ex_empty_world, kern = (),
     pl = set_op (OpPtr 0) ex_wop (zero_poll 0), hup_tasks = [], wfifo = ex_wfifo, wbarriers = [], wforgotten = False\<rparr>"

lemma ex_full_send:
  "f_outputBarrier (wfifo s) = \<lparr>bar_bs = barriercap, bar_ivs = barriercap\<rparr> \<Longrightarrow>
   wf_send_once ex_full_sys txt (set_woutput ex_buffer ex_world s) = Some (None, set_woutput ex_buffer ex_world s)"
  by (simp add: wf_send_once_def set_woutput_def lb_GetBytes_def ex_buffer_def ex_world_def ex_node0_def ex_node1_def
      GetBytes_loop.simps [of "Some 0"] GetBytes_loop.simps [of "Some (Suc 0)"] node_Len_def reslice_def barriercap_def
      writev_def iovecs_def ex_full_sys_def MaxInt32_def EAGAIN_def)

theorem fifo_second_backpressure_fails_witness:
  "\<exists>s1 s4. detachWrite ex_full_sys ex_wstate = Some s1 \<and>
     wf_flush ex_full_sys (\<lambda>_. []) [] [] (set_woutput ex_buffer ex_world s1) =
       Some (Some (Exception (\<lambda>_. []) (Errno EEXIST) ''when flush''), [], s4) \<and> f_outputBuffer (wfifo s4) = ex_buffer"
proof -
  have o: "op_at (pl ex_wstate) (OpPtr (f_operator (wfifo ex_wstate))) = Some ex_wop"
    by (simp add: ex_wstate_def ex_wfifo_def op_at_def set_op_def put_op_def)
  have h: "op_poll ex_wop \<noteq> None" "op_state ex_wop = 1" "detached ex_wop = 1" by (simp_all add: ex_wop_def)
  have ctl: "EpollCtl ex_full_sys ep EPOLL_CTL_ADD fd evt k = (Some (Errno EEXIST), k)" for ep fd evt k
    by (simp add: ex_full_sys_def)
  have wfs: "wfifo ex_wstate = ex_wfifo" by (simp add: ex_wstate_def)
  have pre: "f_writeTrigger (wfifo ex_wstate) = []" "f_operator (wfifo ex_wstate) = 0"
    by (simp_all add: ex_wstate_def ex_wfifo_def)
  obtain s1 where d: "detachWrite ex_full_sys ex_wstate = Some s1" and
    f: "\<And>tx oenv env (s2 :: (nat, unit) wstate) s3. \<not> lb_IsEmpty (f_outputBuffer (wfifo s2)) \<Longrightarrow> wf_send_once ex_full_sys tx s2 = Some (None, s3) \<Longrightarrow>
       \<not> lb_IsEmpty (f_outputBuffer (wfifo s3)) \<Longrightarrow> pl s3 = pl s1 \<Longrightarrow> f_operator (wfifo s3) = 0 \<Longrightarrow>
       \<exists>s4. wf_flush ex_full_sys tx oenv env s2 = Some (Some (Exception tx (Errno EEXIST) ''when flush''), env, s4) \<and>
             f_outputBuffer (wfifo s4) = f_outputBuffer (wfifo s3)"
    using fifo_second_backpressure_fails [where registered = "\<lambda>_ _ _. True" and sys = ex_full_sys, OF o h ctl TrueI pre(1)]
    unfolding pre(2) by metis
  have w: "wfifo s1 = ex_wfifo\<lparr>f_writeTrigger := [None]\<rparr>"
    using d pre(1) unfolding detachWrite_def second_detach_skipped [OF o h(3)]
    by (auto simp: wf_triggerWrite_def wfs)
  let ?s = "set_woutput ex_buffer ex_world s1"
  have s: "wf_send_once ex_full_sys (\<lambda>_. []) ?s = Some (None, ?s)" by (rule ex_full_send) (simp add: w ex_wfifo_def)
  have "\<not> lb_IsEmpty (f_outputBuffer (wfifo ?s))" "pl ?s = pl s1" "f_operator (wfifo ?s) = 0" "f_outputBuffer (wfifo ?s) = ex_buffer"
    by (simp_all add: set_woutput_def lb_IsEmpty_def lb_Len_def ex_buffer_def w ex_wfifo_def)
  then show ?thesis using d f [OF _ s, of "[]" "[]"] by metis
qed

end
