(* ===== verification/Sockets.thy ===== *)
theory Sockets
  imports Poll
begin

section \<open>Sockets and their addresses (sys\_exec.go, net\_sock.go, net\_tcpsock.go, net\_unixsock.go, net\_netfd.go)\<close>

text \<open>
  Making a socket and setting its options, with the system calls as parameters, and the addresses
  of TCP and Unix sockets. An address of the kernel is a value of \<open>Sockaddr\<close>, one of package \<^verbatim>\<open>net\<close> a value
  of \<open>Addr\<close>; a \<^verbatim>\<open>net.IP\<close> is a list of 0, 4 or 16 bytes, \<^verbatim>\<open>nil\<close> being the empty one.
\<close>

subsection \<open>Addresses\<close>

datatype Sockaddr = SockaddrInet4 "byte list" int | SockaddrInet6 "byte list" int nat | SockaddrUnix string

record TCPAddr =
  IP :: "byte list"
  Port :: int
  Zone :: string

datatype Addr = NetTCPAddr TCPAddr | NetUnixAddr string string

text \<open>What the code uses of \<^verbatim>\<open>net.IP\<close>.\<close>

definition v4InV6Prefix :: "byte list" where "v4InV6Prefix = replicate 10 0 @ [0xff, 0xff]"

definition To4 :: "byte list \<Rightarrow> byte list option" where
  "To4 ip =
     (if length ip = 4 then Some ip
      else if length ip = 16 \<and> take 12 ip = v4InV6Prefix then Some (drop 12 ip) else None)"

definition To16 :: "byte list \<Rightarrow> byte list option" where
  "To16 ip = (if length ip = 4 then Some (v4InV6Prefix @ ip) else if length ip = 16 then Some ip else None)"

definition IPv4zero :: "byte list" where "IPv4zero = v4InV6Prefix @ [0, 0, 0, 0]"
definition IPv6zero :: "byte list" where "IPv6zero = replicate 16 0"
definition IPv6loopback :: "byte list" where "IPv6loopback = replicate 15 0 @ [1]"

definition IP_Equal :: "byte list \<Rightarrow> byte list \<Rightarrow> bool" where
  "IP_Equal x y \<longleftrightarrow> x = y \<or>
     (length x = 4 \<and> length y = 16 \<and> y = v4InV6Prefix @ x) \<or> (length x = 16 \<and> length y = 4 \<and> x = v4InV6Prefix @ y)"

definition IsUnspecified :: "byte list \<Rightarrow> bool" where
  "IsUnspecified ip \<longleftrightarrow> IP_Equal ip IPv4zero \<or> IP_Equal ip IPv6zero"

definition AF_UNIX :: int where "AF_UNIX = 1"
definition AF_INET :: int where "AF_INET = 2"
definition AF_INET6 :: int where "AF_INET6 = 10"

text \<open>The methods of \<^verbatim>\<open>*TCPAddr\<close>; the address is \<open>None\<close> when the pointer is \<^verbatim>\<open>nil\<close>.\<close>

definition TCPAddr_isWildcard :: "TCPAddr option \<Rightarrow> bool" where
  "TCPAddr_isWildcard a = (case a of None \<Rightarrow> True | Some a \<Rightarrow> if IP a = [] then True else IsUnspecified (IP a))"

definition TCPAddr_opAddr :: "TCPAddr option \<Rightarrow> Addr option" where
  "TCPAddr_opAddr a = map_option NetTCPAddr a"

definition TCPAddr_family :: "TCPAddr option \<Rightarrow> int" where
  "TCPAddr_family a =
     (case a of
        None \<Rightarrow> AF_INET
      | Some a \<Rightarrow> if length (IP a) \<le> 4 then AF_INET else if To4 (IP a) \<noteq> None then AF_INET else AF_INET6)"

definition loopbackIP :: "string \<Rightarrow> byte list" where
  "loopbackIP network = (if network \<noteq> [] \<and> last network = CHR ''6'' then IPv6loopback else [127, 0, 0, 1])"

definition TCPAddr_toLocal :: "string \<Rightarrow> TCPAddr \<Rightarrow> TCPAddr" where
  "TCPAddr_toLocal network a = \<lparr>IP = loopbackIP network, Port = Port a, Zone = Zone a\<rparr>"

text \<open>\<^verbatim>\<open>ipToSockaddr\<close>; \<^verbatim>\<open>net.AddrError\<close> is given by its text.\<close>

definition ipToSockaddr :: "int \<Rightarrow> byte list \<Rightarrow> int \<Rightarrow> string \<Rightarrow> error + Sockaddr" where
  "ipToSockaddr family ip port zone =
     (if family = AF_INET then
        (let ip = (if length ip = 0 then IPv4zero else ip)
         in case To4 ip of
              None \<Rightarrow> Inl (EText ''non-IPv4 address'')
            | Some ip4 \<Rightarrow> Inr (SockaddrInet4 ip4 port))
      else if family = AF_INET6 then
        (let ip = (if length ip = 0 \<or> IP_Equal ip IPv4zero then IPv6zero else ip)
         in case To16 ip of
              None \<Rightarrow> Inl (EText ''non-IPv6 address'')
            | Some ip6 \<Rightarrow> Inr (SockaddrInet6 ip6 port 0))
      else Inl (EText ''invalid address family''))"

definition TCPAddr_sockaddr :: "int \<Rightarrow> TCPAddr option \<Rightarrow> error + Sockaddr option" where
  "TCPAddr_sockaddr family a =
     (case a of
        None \<Rightarrow> Inr None
      | Some a \<Rightarrow> (case ipToSockaddr family (IP a) (Port a) (Zone a) of Inl e \<Rightarrow> Inl e | Inr sa \<Rightarrow> Inr (Some sa)))"

text \<open>The methods of \<^verbatim>\<open>*UnixAddr\<close>, by name and network.\<close>

record UnixAddr =
  U_Name :: string
  U_Net :: string

definition UnixAddr_isWildcard :: "UnixAddr option \<Rightarrow> bool" where
  "UnixAddr_isWildcard a = (case a of None \<Rightarrow> True | Some a \<Rightarrow> U_Name a = [])"

definition UnixAddr_opAddr :: "UnixAddr option \<Rightarrow> Addr option" where
  "UnixAddr_opAddr a = map_option (\<lambda>a. NetUnixAddr (U_Net a) (U_Name a)) a"

definition UnixAddr_family :: "UnixAddr option \<Rightarrow> int" where
  "UnixAddr_family a = AF_UNIX"

definition UnixAddr_sockaddr :: "int \<Rightarrow> UnixAddr option \<Rightarrow> error + Sockaddr option" where
  "UnixAddr_sockaddr family a = (case a of None \<Rightarrow> Inr None | Some a \<Rightarrow> Inr (Some (SockaddrUnix (U_Name a))))"

definition UnixAddr_toLocal :: "string \<Rightarrow> UnixAddr \<Rightarrow> UnixAddr" where
  "UnixAddr_toLocal network a = a"

text \<open>The interface \<^verbatim>\<open>sockaddr\<close>: a TCP or a Unix address.\<close>

datatype sockaddr = TCPSock TCPAddr | UnixSock UnixAddr

definition sock_family :: "sockaddr \<Rightarrow> int" where
  "sock_family a = (case a of TCPSock t \<Rightarrow> TCPAddr_family (Some t) | UnixSock u \<Rightarrow> UnixAddr_family (Some u))"

definition sock_isWildcard :: "sockaddr \<Rightarrow> bool" where
  "sock_isWildcard a = (case a of TCPSock t \<Rightarrow> TCPAddr_isWildcard (Some t) | UnixSock u \<Rightarrow> UnixAddr_isWildcard (Some u))"

definition sock_sockaddr :: "int \<Rightarrow> sockaddr \<Rightarrow> error + Sockaddr option" where
  "sock_sockaddr family a =
     (case a of TCPSock t \<Rightarrow> TCPAddr_sockaddr family (Some t) | UnixSock u \<Rightarrow> UnixAddr_sockaddr family (Some u))"

definition favoriteAddrFamily :: "string \<Rightarrow> sockaddr option \<Rightarrow> sockaddr option \<Rightarrow> (int \<times> bool) option" where
  "favoriteAddrFamily network laddr raddr =
     (if network = [] then None
      else Some
        (if last network = CHR ''4'' then (AF_INET, False)
         else if last network = CHR ''6'' then (AF_INET6, True)
         else if (case laddr of None \<Rightarrow> True | Some l \<Rightarrow> sock_family l = AF_INET) \<and>
                 (case raddr of None \<Rightarrow> True | Some r \<Rightarrow> sock_family r = AF_INET)
         then (AF_INET, False) else (AF_INET6, False)))"

text \<open>\<^verbatim>\<open>sockaddrToAddr\<close>; \<open>ifname\<close> is \<^verbatim>\<open>net.InterfaceByIndex\<close>.\<close>

definition sockaddrToAddr :: "(nat \<Rightarrow> string option) \<Rightarrow> Sockaddr option \<Rightarrow> Addr option" where
  "sockaddrToAddr ifname sa =
     (case sa of
        None \<Rightarrow> None
      | Some (SockaddrInet4 ip port) \<Rightarrow> Some (NetTCPAddr \<lparr>IP = ip, Port = port, Zone = ''''\<rparr>)
      | Some (SockaddrInet6 ip port zoneid) \<Rightarrow>
          (let zone = (if zoneid \<noteq> 0 then (case ifname zoneid of Some n \<Rightarrow> n | None \<Rightarrow> '''') else '''')
           in Some (NetTCPAddr \<lparr>IP = ip, Port = port, Zone = zone\<rparr>))
      | Some (SockaddrUnix name) \<Rightarrow> Some (NetUnixAddr ''unix'' name))"

text \<open>The address that comes back from the kernel is the one that was dialled, for IPv4 and IPv6.\<close>

lemma To4_length: "To4 ip = Some ip4 \<Longrightarrow> length ip4 = 4"
  by (auto simp: To4_def split: if_splits)

lemma sockaddr_roundtrip:
  assumes "length (IP a) = 4 \<or> length (IP a) = 16" "\<not> IsUnspecified (IP a)"
    and "TCPAddr_sockaddr (TCPAddr_family (Some a)) (Some a) = Inr sa"
  shows "\<exists>b. sockaddrToAddr ifname sa = Some (NetTCPAddr b) \<and> Port b = Port a \<and> IP_Equal (IP b) (IP a)"
proof (cases "To4 (IP a)")
  case None
  then have "length (IP a) = 16" using assms(1) by (auto simp: To4_def)
  then show ?thesis
    using None assms by (auto simp: TCPAddr_sockaddr_def TCPAddr_family_def ipToSockaddr_def sockaddrToAddr_def To16_def
        IP_Equal_def IsUnspecified_def AF_INET_def AF_INET6_def Let_def split: if_splits)
next
  case (Some ip4)
  have "IP_Equal ip4 (IP a)"
    using Some by (auto simp: To4_def IP_Equal_def split: if_splits) (metis append_take_drop_id)
  then show ?thesis
    using Some assms by (auto simp: TCPAddr_sockaddr_def TCPAddr_family_def ipToSockaddr_def sockaddrToAddr_def
        AF_INET_def Let_def split: if_splits)
qed

subsection \<open>Making a socket\<close>

text \<open>
  The system calls. \<open>sys_raw_read\<close> and \<open>sys_raw_write\<close> are \<^verbatim>\<open>syscall.Read\<close> and \<^verbatim>\<open>syscall.Write\<close>.
\<close>

record 'k sock_sys =
  sys_setsockopt :: "int \<Rightarrow> int \<Rightarrow> int \<Rightarrow> int \<Rightarrow> 'k \<Rightarrow> errno option \<times> 'k"
  sys_setsockopt_timeval :: "int \<Rightarrow> int \<Rightarrow> int \<Rightarrow> int \<Rightarrow> int \<Rightarrow> 'k \<Rightarrow> errno option \<times> 'k"
  sys_getsockopt :: "int \<Rightarrow> int \<Rightarrow> int \<Rightarrow> 'k \<Rightarrow> (errno + errno) \<times> 'k"
  sys_set_nonblock :: "int \<Rightarrow> 'k \<Rightarrow> errno option \<times> 'k"
  sys_socket :: "int \<Rightarrow> int \<Rightarrow> int \<Rightarrow> 'k \<Rightarrow> (errno + int) \<times> 'k"
  sys_close_on_exec :: "int \<Rightarrow> 'k \<Rightarrow> 'k"
  sys_bind :: "int \<Rightarrow> Sockaddr \<Rightarrow> 'k \<Rightarrow> errno option \<times> 'k"
  sys_connect :: "int \<Rightarrow> Sockaddr option \<Rightarrow> 'k \<Rightarrow> errno option \<times> 'k"
  sys_getsockname :: "int \<Rightarrow> 'k \<Rightarrow> (errno + Sockaddr) \<times> 'k"
  sys_getpeername :: "int \<Rightarrow> 'k \<Rightarrow> (errno + Sockaddr) \<times> 'k"
  sys_accept :: "int \<Rightarrow> 'k \<Rightarrow> (errno + int \<times> Sockaddr) \<times> 'k"
  sys_raw_read :: "int \<Rightarrow> nat \<Rightarrow> 'k \<Rightarrow> (errno + byte list) \<times> 'k"
  sys_raw_write :: "int \<Rightarrow> byte list \<Rightarrow> 'k \<Rightarrow> (errno + int) \<times> 'k"

definition SOL_SOCKET :: int where "SOL_SOCKET = 1"
definition IPPROTO_TCP :: int where "IPPROTO_TCP = 6"
definition IPPROTO_IPV6 :: int where "IPPROTO_IPV6 = 41"
definition SO_ERROR :: int where "SO_ERROR = 4"
definition SO_BROADCAST :: int where "SO_BROADCAST = 6"
definition SO_KEEPALIVE :: int where "SO_KEEPALIVE = 9"
definition TCP_NODELAY :: int where "TCP_NODELAY = 1"
definition TCP_KEEPIDLE :: int where "TCP_KEEPIDLE = 4"
definition TCP_KEEPINTVL :: int where "TCP_KEEPINTVL = 5"
definition IPV6_V6ONLY :: int where "IPV6_V6ONLY = 26"
definition SO_ZEROCOPY :: int where "SO_ZEROCOPY = 60"
definition SO_ZEROBLOCKTIMEO :: int where "SO_ZEROBLOCKTIMEO = 69"
definition SOCK_STREAM :: int where "SOCK_STREAM = 1"
definition SOCK_DGRAM :: int where "SOCK_DGRAM = 2"
definition SOCK_RAW :: int where "SOCK_RAW = 3"
definition SOCK_SEQPACKET :: int where "SOCK_SEQPACKET = 5"

definition boolint :: "bool \<Rightarrow> int" where "boolint b = (if b then 1 else 0)"

definition setTCPNoDelay :: "'k sock_sys \<Rightarrow> int \<Rightarrow> bool \<Rightarrow> 'k \<Rightarrow> errno option \<times> 'k" where
  "setTCPNoDelay ss fd b k = sys_setsockopt ss fd IPPROTO_TCP TCP_NODELAY (boolint b) k"

definition setZeroCopy :: "'k sock_sys \<Rightarrow> int \<Rightarrow> 'k \<Rightarrow> errno option \<times> 'k" where
  "setZeroCopy ss fd k = sys_setsockopt ss fd SOL_SOCKET SO_ZEROCOPY 1 k"

definition setBlockZeroCopySend :: "'k sock_sys \<Rightarrow> int \<Rightarrow> int \<Rightarrow> int \<Rightarrow> 'k \<Rightarrow> errno option \<times> 'k" where
  "setBlockZeroCopySend ss fd sec usec k = sys_setsockopt_timeval ss fd SOL_SOCKET SO_ZEROBLOCKTIMEO sec usec k"

definition SetKeepAlive :: "'k sock_sys \<Rightarrow> int \<Rightarrow> int \<Rightarrow> 'k \<Rightarrow> errno option \<times> 'k" where
  "SetKeepAlive ss fd secs k =
     (let (err, k) = sys_setsockopt ss fd SOL_SOCKET SO_KEEPALIVE 1 k
      in if err \<noteq> None then (err, k)
         else let (err, k) = sys_setsockopt ss fd IPPROTO_TCP TCP_KEEPINTVL secs k
              in if err \<noteq> None then (err, k)
                 else sys_setsockopt ss fd IPPROTO_TCP TCP_KEEPIDLE secs k)"

text \<open>\<^verbatim>\<open>os.NewSyscallError\<close>.\<close>

definition NewSyscallError :: "string \<Rightarrow> errno option \<Rightarrow> error option" where
  "NewSyscallError syscall err = map_option (SyscallError syscall) err"

definition setDefaultSockopts ::
    "'k sock_sys \<Rightarrow> int \<Rightarrow> int \<Rightarrow> int \<Rightarrow> bool \<Rightarrow> 'k \<Rightarrow> error option \<times> 'k" where
  "setDefaultSockopts ss s family sotype ipv6only k =
     (let k = (if family = AF_INET6 \<and> sotype \<noteq> SOCK_RAW
               then snd (sys_setsockopt ss s IPPROTO_IPV6 IPV6_V6ONLY (boolint ipv6only) k) else k);
          (err, k) = sys_setsockopt ss s SOL_SOCKET SO_BROADCAST 1 k
      in (NewSyscallError ''setsockopt'' err, k))"

definition sysSocket ::
    "'k sys \<Rightarrow> 'k sock_sys \<Rightarrow> int \<Rightarrow> int \<Rightarrow> int \<Rightarrow> 'k \<Rightarrow> (error + int) \<times> 'k" where
  "sysSocket sys ss family sotype proto k =
     (case sys_socket ss family sotype proto k of
        (Inl e, k) \<Rightarrow> (Inl (SyscallError ''socket'' e), k)
      | (Inr s, k) \<Rightarrow>
          (let k = sys_close_on_exec ss s k
           in case sys_set_nonblock ss s k of
                (Some e, k) \<Rightarrow> (Inl (SyscallError ''setnonblock'' e), snd (sys_close sys s k))
              | (None, k) \<Rightarrow> (Inr s, k)))"

subsection \<open>netFD\<close>

record netFD =
  nf_fd :: int
  nf_closed :: "32 word"
  isStream :: bool
  zeroReadIsEOF :: bool
  nf_family :: int
  nf_sotype :: int
  isConnected :: bool
  nf_network :: string
  localAddr :: "Addr option"
  remoteAddr :: "Addr option"
  nf_detaching :: bool

definition zero_netFD :: netFD where
  "zero_netFD = \<lparr>nf_fd = 0, nf_closed = 0, isStream = False, zeroReadIsEOF = False, nf_family = 0, nf_sotype = 0,
     isConnected = False, nf_network = '''', localAddr = None, remoteAddr = None, nf_detaching = False\<rparr>"

definition newNetFD :: "int \<Rightarrow> int \<Rightarrow> int \<Rightarrow> string \<Rightarrow> netFD" where
  "newNetFD fd family sotype net =
     zero_netFD\<lparr>nf_fd := fd, nf_network := net, nf_family := family, nf_sotype := sotype,
       isStream := (sotype = SOCK_STREAM), zeroReadIsEOF := (sotype \<noteq> SOCK_DGRAM \<and> sotype \<noteq> SOCK_RAW)\<rparr>"

text \<open>\<^verbatim>\<open>Read\<close> and \<^verbatim>\<open>Write\<close>: the number, -1 when the call failed, and the error.\<close>

definition nf_Read :: "'k sock_sys \<Rightarrow> nat \<Rightarrow> netFD \<Rightarrow> 'k \<Rightarrow> (byte list \<times> int \<times> error option) \<times> 'k" where
  "nf_Read ss l c k =
     (case sys_raw_read ss (nf_fd c) l k of
        (Inl e, k) \<Rightarrow> (if e = EAGAIN \<or> e = EINTR then ([], 0, None) else ([], -1, Some (Errno e)), k)
      | (Inr bs, k) \<Rightarrow> ((bs, int (length bs), None), k))"

definition nf_Write :: "'k sock_sys \<Rightarrow> byte list \<Rightarrow> netFD \<Rightarrow> 'k \<Rightarrow> (int \<times> error option) \<times> 'k" where
  "nf_Write ss bs c k =
     (case sys_raw_write ss (nf_fd c) bs k of
        (Inl e, k) \<Rightarrow> (if e = EAGAIN then (0, None) else (-1, Some (Errno e)), k)
      | (Inr n, k) \<Rightarrow> ((n, None), k))"

definition nf_Close :: "'k sys \<Rightarrow> netFD \<Rightarrow> 'k \<Rightarrow> (error option \<times> netFD) \<times> 'k" where
  "nf_Close sys c k =
     (let c = c\<lparr>nf_closed := nf_closed c + 1\<rparr>
      in if nf_closed c \<noteq> 1 then ((None, c), k)
         else if \<not> nf_detaching c \<and> nf_fd c > 2
         then (let (err, k) = sys_close sys (nf_fd c) k in ((err, c), k))
         else ((None, c), k))"

definition nf_SetKeepAlive :: "'k sock_sys \<Rightarrow> int \<Rightarrow> string \<Rightarrow> int \<Rightarrow> 'k \<Rightarrow> errno option \<times> 'k" where
  "nf_SetKeepAlive ss second network fd k =
     (if take 3 network \<noteq> ''tcp'' then (None, k)
      else if second > 0 then SetKeepAlive ss fd second k else (None, k))"

definition nf_SetDeadline :: error where "nf_SetDeadline = Exc ErrUnsupported ''SetDeadline''"
definition nf_SetReadDeadline :: error where "nf_SetReadDeadline = Exc ErrUnsupported ''SetReadDeadline''"
definition nf_SetWriteDeadline :: error where "nf_SetWriteDeadline = Exc ErrUnsupported ''SetWriteDeadline''"

lemma nf_Close_once:
  assumes "nf_closed c = 0" "\<not> nf_detaching c" "2 < nf_fd c"
  shows "nf_Close sys c k = ((fst (sys_close sys (nf_fd c) k), c\<lparr>nf_closed := 1\<rparr>), snd (sys_close sys (nf_fd c) k))"
    and "nf_Close sys (c\<lparr>nf_closed := 1\<rparr>) k' = ((None, c\<lparr>nf_closed := 2\<rparr>), k')"
  using assms by (auto simp: nf_Close_def Let_def split: prod.splits)

end
