(* ===== verification/Dial.thy ===== *)
theory Dial
  imports Sockets
begin

section \<open>Dialling (net\_polldesc.go, net\_netfd.go, net\_sock.go, net\_tcpsock.go, net\_unixsock.go)\<close>

text \<open>
  Connecting a non-blocking socket: the first \<^verbatim>\<open>connect\<close>, the wait for the poller, and the retries of
  \<^verbatim>\<open>dialTCP\<close>. A blocked \<^verbatim>\<open>WaitWrite\<close> takes the moves of the others as a script, \<open>DDone\<close> being the end of the
  context; it is \<open>None\<close> when it panics or is still blocked at the end of the script.
\<close>

subsection \<open>pollDesc\<close>

datatype pd_handler = PdOnWrite | PdOnHup

text \<open>The triggers are channels that are only ever closed.\<close>

record pollDesc =
  pd_operator :: addr
  writeTrigger_closed :: bool
  closeTrigger_closed :: bool

record 'k dstate = "(pd_handler, 'k) pstate" +
  pd :: pollDesc

datatype 's dmove = DOther "'s \<Rightarrow> 's" | DDone error

definition context_Canceled :: error where "context_Canceled = EText ''context canceled''"
definition context_DeadlineExceeded :: error where "context_DeadlineExceeded = EText ''context deadline exceeded''"
definition errMissingAddress :: error where "errMissingAddress = EText ''missing address''"
definition errCanceled :: error where "errCanceled = EText ''operation was canceled''"
definition errIOTimeout :: error where "errIOTimeout = EText ''i/o timeout''"

definition mapErr :: "error \<Rightarrow> error" where
  "mapErr err =
     (if err = context_Canceled then errCanceled else if err = context_DeadlineExceeded then errIOTimeout else err)"

definition newPollDesc :: "nat \<Rightarrow> int \<Rightarrow> 'k dstate \<Rightarrow> 'k dstate option" where
  "newPollDesc opSize fd s =
     do {
       (a, p) \<leftarrow> poll_Alloc opSize (pl s);
       op \<leftarrow> op_at p (OpPtr a);
       let op = op\<lparr>op_poll := Some (poll_id p), FD := fd, OnWrite := Some PdOnWrite, OnHup := Some PdOnHup\<rparr>;
       Some (s\<lparr>pl := set_op (OpPtr a) op p,
               pd := \<lparr>pd_operator = a, writeTrigger_closed = False, closeTrigger_closed = False\<rparr>\<rparr>)
     }"

definition pd_detach :: "'k sys \<Rightarrow> 'k dstate \<Rightarrow> 'k dstate option" where
  "pd_detach sys s = map_option snd (operator_Control sys [] (OpPtr (pd_operator (pd s))) PollDetach s)"

definition pd_onwrite :: "'k sys \<Rightarrow> 'k dstate \<Rightarrow> 'k dstate option" where
  "pd_onwrite sys s =
     (if writeTrigger_closed (pd s) then Some s
      else do { s \<leftarrow> pd_detach sys s; Some (s\<lparr>pd := (pd s)\<lparr>writeTrigger_closed := True\<rparr>\<rparr>) })"

definition pd_onhup :: "'k dstate \<Rightarrow> 'k dstate option" where
  "pd_onhup s =
     Some (if closeTrigger_closed (pd s) then s else s\<lparr>pd := (pd s)\<lparr>closeTrigger_closed := True\<rparr>\<rparr>)"

text \<open>The \<^verbatim>\<open>select\<close> of \<^verbatim>\<open>WaitWrite\<close>: which of the three cases it takes.\<close>

datatype pd_event = PdClosed | PdWritable | PdDone error

fun pd_select :: "'k dstate dmove list \<Rightarrow> 'k dstate \<Rightarrow> (pd_event \<times> 'k dstate dmove list \<times> 'k dstate) option" where
  "pd_select (DDone e # ms) s = Some (PdDone e, ms, s)"
| "pd_select env s =
     (if closeTrigger_closed (pd s) then Some (PdClosed, env, s)
      else if writeTrigger_closed (pd s) then Some (PdWritable, env, s)
      else case env of
             [] \<Rightarrow> None
           | DOther f # ms \<Rightarrow> pd_select ms (f s)
           | DDone e # ms \<Rightarrow> None)"

declare pd_select.simps [simp del]

definition WaitWrite ::
    "'k sys \<Rightarrow> (pd_handler FDOperator \<Rightarrow> pd_handler FDOperator) list \<Rightarrow> 'k dstate dmove list \<Rightarrow> 'k dstate \<Rightarrow>
     (error option \<times> 'k dstate dmove list \<times> 'k dstate) option" where
  "WaitWrite sys oenv env s =
     do {
       op \<leftarrow> op_at (pl s) (OpPtr (pd_operator (pd s)));
       (err, s) \<leftarrow> (if op_isUnused op then operator_Control sys oenv (OpPtr (pd_operator (pd s))) PollWritable s
                   else Some (None, s));
       if err \<noteq> None then Some (err, env, s)
       else do {
         (e, env, s) \<leftarrow> pd_select env s;
         case e of
           PdClosed \<Rightarrow> Some (Some (Exc ErrConnClosed ''by peer''), env, s)
         | PdWritable \<Rightarrow>
             Some (if closeTrigger_closed (pd s) then Some (Exc ErrConnClosed ''by peer'') else None, env, s)
         | PdDone ce \<Rightarrow>
             do {
               s \<leftarrow> pd_detach sys s;
               Some (Some (if closeTrigger_closed (pd s) then Exc ErrConnClosed ''by peer'' else mapErr ce), env, s)
             }
       }
     }"

definition pd_handlers :: "'k sys \<Rightarrow> (pd_handler, 'k dstate) handlers" where
  "pd_handlers sys =
     \<lparr>call = (\<lambda>h s. case h of PdOnWrite \<Rightarrow> pd_onwrite sys s | PdOnHup \<Rightarrow> pd_onhup s),
      inputs = (\<lambda>h n s. None), ack = (\<lambda>h n s. None), outputs = (\<lambda>h n s. None)\<rparr>"

subsection \<open>connect and dial\<close>

definition EINPROGRESS :: errno where "EINPROGRESS = 115"
definition EALREADY :: errno where "EALREADY = 114"
definition EISCONN :: errno where "EISCONN = 106"
definition EADDRNOTAVAIL :: errno where "EADDRNOTAVAIL = 99"

text \<open>The loop of \<^verbatim>\<open>connect\<close>. It need not end: a kernel may report the socket writable and not connected for ever.\<close>

partial_function (option) connect_loop ::
    "'k sys \<Rightarrow> 'k sock_sys \<Rightarrow> (pd_handler FDOperator \<Rightarrow> pd_handler FDOperator) list \<Rightarrow> int \<Rightarrow> 'k dstate dmove list \<Rightarrow>
     'k dstate \<Rightarrow> ((error + Sockaddr option) \<times> 'k dstate dmove list \<times> 'k dstate) option" where
  "connect_loop sys ss oenv fd env s =
     do {
       (err, env, s) \<leftarrow> WaitWrite sys oenv env s;
       case err of
         Some e \<Rightarrow> Some (Inl e, env, s)
       | None \<Rightarrow>
           (case sys_getsockopt ss fd SOL_SOCKET SO_ERROR (kern s) of
              (Inl e, k) \<Rightarrow> Some (Inl (SyscallError ''getsockopt'' e), env, s\<lparr>kern := k\<rparr>)
            | (Inr nerr, k) \<Rightarrow>
                if nerr = EINPROGRESS \<or> nerr = EALREADY \<or> nerr = EINTR
                then connect_loop sys ss oenv fd env (s\<lparr>kern := k\<rparr>)
                else if nerr = EISCONN then Some (Inr None, env, s\<lparr>kern := k\<rparr>)
                else if nerr = 0 then
                  (case sys_getpeername ss fd k of
                     (Inr rsa, k) \<Rightarrow> Some (Inr (Some rsa), env, s\<lparr>kern := k\<rparr>)
                   | (Inl _, k) \<Rightarrow> connect_loop sys ss oenv fd env (s\<lparr>kern := k\<rparr>))
                else Some (Inl (SyscallError ''connect'' nerr), env, s\<lparr>kern := k\<rparr>))
     }"

text \<open>\<open>ctx_err\<close> is \<^verbatim>\<open>ctx.Err()\<close> when the context is already done.\<close>

definition connect ::
    "nat \<Rightarrow> 'k sys \<Rightarrow> 'k sock_sys \<Rightarrow> (pd_handler FDOperator \<Rightarrow> pd_handler FDOperator) list \<Rightarrow> error option \<Rightarrow> int \<Rightarrow> Sockaddr option \<Rightarrow>
     'k dstate dmove list \<Rightarrow> 'k dstate \<Rightarrow> ((error + Sockaddr option) \<times> 'k dstate dmove list \<times> 'k dstate) option" where
  "connect opSize sys ss oenv ctx_err fd ra env s =
     (let (err, k) = sys_connect ss fd ra (kern s); s = s\<lparr>kern := k\<rparr>
      in if err = Some EINPROGRESS \<or> err = Some EALREADY \<or> err = Some EINTR
         then do {
           s \<leftarrow> newPollDesc opSize fd s;
           (r, env, s) \<leftarrow> connect_loop sys ss oenv fd env s;
           p \<leftarrow> poll_Free oenv (pd_operator (pd s)) (pl s);
           Some (r, env, s\<lparr>pl := p\<rparr>)
         }
         else if err = None \<or> err = Some EISCONN
         then Some (case ctx_err of Some e \<Rightarrow> Inl (mapErr e) | None \<Rightarrow> Inr None, env, s)
         else Some (Inl (SyscallError ''connect'' (the err)), env, s))"

definition dial ::
    "nat \<Rightarrow> (nat \<Rightarrow> string option) \<Rightarrow> 'k sys \<Rightarrow> 'k sock_sys \<Rightarrow> (pd_handler FDOperator \<Rightarrow> pd_handler FDOperator) list \<Rightarrow> error option \<Rightarrow>
     sockaddr option \<Rightarrow> sockaddr option \<Rightarrow> 'k dstate dmove list \<Rightarrow> netFD \<Rightarrow> 'k dstate \<Rightarrow>
     (error option \<times> netFD \<times> 'k dstate dmove list \<times> 'k dstate) option" where
  "dial opSize ifname sys ss oenv ctx_err laddr raddr env c s =
     (case (case laddr of None \<Rightarrow> Inr None | Some l \<Rightarrow> sock_sockaddr (nf_family c) l) of
        Inl e \<Rightarrow> Some (Some e, c, env, s)
      | Inr lsa \<Rightarrow>
          (let (err, k) = (case lsa of None \<Rightarrow> (None, kern s) | Some sa \<Rightarrow> sys_bind ss (nf_fd c) sa (kern s)); s = s\<lparr>kern := k\<rparr>
           in if err \<noteq> None then Some (NewSyscallError ''bind'' err, c, env, s)
              else case (case raddr of None \<Rightarrow> Inr None | Some r \<Rightarrow> sock_sockaddr (nf_family c) r) of
                     Inl e \<Rightarrow> Some (Some e, c, env, s)
                   | Inr rsa \<Rightarrow>
                       do {
                         (r, env, s) \<leftarrow> connect opSize sys ss oenv ctx_err (nf_fd c) rsa env s;
                         case r of
                           Inl e \<Rightarrow> Some (Some e, c, env, s)
                         | Inr crsa \<Rightarrow>
                             let (ln, k) = sys_getsockname ss (nf_fd c) (kern s);
                                 la = sockaddrToAddr ifname (case ln of Inl _ \<Rightarrow> None | Inr sa \<Rightarrow> Some sa);
                                 (ra, k) = (case crsa of
                                              Some sa \<Rightarrow> (Some sa, k)
                                            | None \<Rightarrow> (case sys_getpeername ss (nf_fd c) k of
                                                        (Inr sa, k) \<Rightarrow> (Some sa, k)
                                                      | (Inl _, k) \<Rightarrow> (rsa, k)))
                             in Some (None, c\<lparr>isConnected := True, localAddr := la, remoteAddr := sockaddrToAddr ifname ra\<rparr>,
                                      env, s\<lparr>kern := k\<rparr>)
                       }))"

definition socket ::
    "nat \<Rightarrow> (nat \<Rightarrow> string option) \<Rightarrow> 'k sys \<Rightarrow> 'k sock_sys \<Rightarrow> (pd_handler FDOperator \<Rightarrow> pd_handler FDOperator) list \<Rightarrow> error option \<Rightarrow>
     string \<Rightarrow> int \<Rightarrow> int \<Rightarrow> int \<Rightarrow> bool \<Rightarrow> sockaddr option \<Rightarrow> sockaddr option \<Rightarrow> 'k dstate dmove list \<Rightarrow> 'k dstate \<Rightarrow>
     ((error + netFD) \<times> 'k dstate dmove list \<times> 'k dstate) option" where
  "socket opSize ifname sys ss oenv ctx_err net family sotype proto ipv6only laddr raddr env s =
     (case sysSocket sys ss family sotype proto (kern s) of
        (Inl e, k) \<Rightarrow> Some (Inl e, env, s\<lparr>kern := k\<rparr>)
      | (Inr fd, k) \<Rightarrow>
          (case setDefaultSockopts ss fd family sotype ipv6only k of
             (Some e, k) \<Rightarrow> Some (Inl e, env, s\<lparr>kern := snd (sys_close sys fd k)\<rparr>)
           | (None, k) \<Rightarrow>
               do {
                 (err, c, env, s) \<leftarrow> dial opSize ifname sys ss oenv ctx_err laddr raddr env (newNetFD fd family sotype net) (s\<lparr>kern := k\<rparr>);
                 case err of
                   None \<Rightarrow> Some (Inr c, env, s)
                 | Some e \<Rightarrow> let (_, k) = nf_Close sys c (kern s) in Some (Inl e, env, s\<lparr>kern := k\<rparr>)
               }))"

text \<open>\<^verbatim>\<open>internetSocket\<close> on Linux, where wildcard addresses are not replaced.\<close>

definition internetSocket where
  "internetSocket opSize ifname sys ss oenv ctx_err net laddr raddr sotype proto env s =
     do {
       (family, ipv6only) \<leftarrow> favoriteAddrFamily net laddr raddr;
       socket opSize ifname sys ss oenv ctx_err net family sotype proto ipv6only laddr raddr env s
     }"

definition unixSocket where
  "unixSocket opSize ifname sys ss oenv ctx_err network laddr raddr md env s =
     (case (if network = ''unix'' then Some SOCK_STREAM else if network = ''unixgram'' then Some SOCK_DGRAM
            else if network = ''unixpacket'' then Some SOCK_SEQPACKET else None) of
        None \<Rightarrow> Some (Inl (EText (''unknown network '' @ network)), env, s)
      | Some sotype \<Rightarrow>
          if md = ''dial'' then
            (let laddr = (case laddr of Some l \<Rightarrow> if sock_isWildcard l then None else Some l | None \<Rightarrow> None);
                 raddr = (case raddr of Some r \<Rightarrow> if sock_isWildcard r then None else Some r | None \<Rightarrow> None)
             in if raddr = None \<and> (sotype \<noteq> SOCK_DGRAM \<or> laddr = None) then Some (Inl errMissingAddress, env, s)
                else socket opSize ifname sys ss oenv ctx_err network AF_UNIX sotype 0 False laddr raddr env s)
          else if md = ''listen''
          then socket opSize ifname sys ss oenv ctx_err network AF_UNIX sotype 0 False laddr raddr env s
          else Some (Inl (EText (''unknown mode: '' @ md)), env, s))"

subsection \<open>The retries of dialTCP\<close>

text \<open>
  The descriptor that \<^verbatim>\<open>dialTCP\<close> gives is turned into a connection by \<^verbatim>\<open>newTCPConnection\<close> of theory \<open>ConnInit\<close>,
  whose state is the one of the poller the connection is given to.
\<close>

text \<open>A self-connection; \<open>None\<close> when an address is not a TCP address, whose type assertion panics.\<close>

definition selfConnect :: "error + netFD \<Rightarrow> bool option" where
  "selfConnect r =
     (case r of
        Inl _ \<Rightarrow> Some False
      | Inr c \<Rightarrow>
          (case (localAddr c, remoteAddr c) of
             (Some (NetTCPAddr l), Some (NetTCPAddr r)) \<Rightarrow> Some (Port l = Port r \<and> IP_Equal (IP l) (IP r))
           | (Some _, Some _) \<Rightarrow> None
           | _ \<Rightarrow> Some True))"

definition spuriousENOTAVAIL :: "error + netFD \<Rightarrow> bool" where
  "spuriousENOTAVAIL r \<longleftrightarrow>
     (case r of Inl (SyscallError _ e) \<Rightarrow> e = EADDRNOTAVAIL | Inl (Errno e) \<Rightarrow> e = EADDRNOTAVAIL | _ \<Rightarrow> False)"

fun dialTCP_loop ::
    "nat \<Rightarrow> ('e \<Rightarrow> 'k dstate \<Rightarrow> ((error + netFD) \<times> 'e \<times> 'k dstate) option) \<Rightarrow> 'k sys \<Rightarrow> bool \<Rightarrow> error + netFD \<Rightarrow> 'e \<Rightarrow> 'k dstate \<Rightarrow>
     ((error + netFD) \<times> 'e \<times> 'k dstate) option" where
  "dialTCP_loop 0 again sys anyport r env s = Some (r, env, s)"
| "dialTCP_loop (Suc i) again sys anyport r env s =
     (if \<not> anyport then Some (r, env, s)
      else do {
        self \<leftarrow> selfConnect r;
        if self \<or> spuriousENOTAVAIL r
        then do {
          let s = (case r of Inr c \<Rightarrow> s\<lparr>kern := snd (nf_Close sys c (kern s))\<rparr> | Inl _ \<Rightarrow> s);
          (r, env, s) \<leftarrow> again env s;
          dialTCP_loop i again sys anyport r env s
        }
        else Some (r, env, s)
      })"

definition dialTCP ::
    "nat \<Rightarrow> (nat \<Rightarrow> string option) \<Rightarrow> 'k sys \<Rightarrow> 'k sock_sys \<Rightarrow> (pd_handler FDOperator \<Rightarrow> pd_handler FDOperator) list \<Rightarrow> error option \<Rightarrow>
     string \<Rightarrow> TCPAddr option \<Rightarrow> TCPAddr option \<Rightarrow> 'k dstate dmove list \<Rightarrow> 'k dstate \<Rightarrow>
     ((error + netFD) \<times> 'k dstate dmove list \<times> 'k dstate) option" where
  "dialTCP opSize ifname sys ss oenv ctx_err network laddr raddr env s =
     do {
       let again = (\<lambda>env s. internetSocket opSize ifname sys ss oenv ctx_err network (map_option TCPSock laddr)
                              (map_option TCPSock raddr) SOCK_STREAM 0 env s);
       (r, env, s) \<leftarrow> again env s;
       dialTCP_loop 2 again sys (case laddr of None \<Rightarrow> True | Some l \<Rightarrow> Port l = 0) r env s
     }"

text \<open>The errors of \<^verbatim>\<open>DialTCP\<close> are wrapped in a \<^verbatim>\<open>net.OpError\<close>; the model gives what is wrapped.\<close>

definition DialTCP where
  "DialTCP opSize ifname sys ss oenv ctx_err network laddr raddr env s =
     (if network \<noteq> ''tcp'' \<and> network \<noteq> ''tcp4'' \<and> network \<noteq> ''tcp6''
      then Some (Inl (EText (''unknown network '' @ network)), env, s)
      else if raddr = None then Some (Inl errMissingAddress, env, s)
      else dialTCP opSize ifname sys ss oenv ctx_err network laddr raddr env s)"

subsection \<open>Waiting\<close>

lemma pd_select_cases:
  "pd_select env s = Some (e, env', s') \<Longrightarrow>
     (e = PdClosed \<longrightarrow> closeTrigger_closed (pd s')) \<and>
     (e = PdWritable \<longrightarrow> writeTrigger_closed (pd s') \<and> \<not> closeTrigger_closed (pd s'))"
proof (induction env arbitrary: s)
  case (Cons m ms)
  then show ?case by (cases m) (auto simp: pd_select.simps split: if_splits)
qed (auto simp: pd_select.simps split: if_splits)

text \<open>\<^verbatim>\<open>WaitWrite\<close> returns no error only when the poller reported the socket writable and did not report a hang-up.\<close>

lemma WaitWrite_ok:
  assumes "WaitWrite sys oenv env s = Some (None, env', s')"
  shows "writeTrigger_closed (pd s') \<and> \<not> closeTrigger_closed (pd s')"
proof -
  from assms obtain s1 e env1 s2 where sel: "pd_select env s1 = Some (e, env1, s2)" and
    r: "(case e of PdClosed \<Rightarrow> Some (Some (Exc ErrConnClosed ''by peer''), env1, s2)
       | PdWritable \<Rightarrow> Some (if closeTrigger_closed (pd s2) then Some (Exc ErrConnClosed ''by peer'') else None, env1, s2)
       | PdDone ce \<Rightarrow> do { s \<leftarrow> pd_detach sys s2;
           Some (Some (if closeTrigger_closed (pd s) then Exc ErrConnClosed ''by peer'' else mapErr ce), env1, s) }) = Some (None, env', s')"
    by (auto simp: WaitWrite_def bind_eq_Some_conv split: if_splits)
  with pd_select_cases [OF sel] show ?thesis by (cases e) (auto simp: bind_eq_Some_conv split: if_splits)
qed

end
