(* ===== verification/ConnInit.thy ===== *)
theory ConnInit
  imports ConnPoll LinkBufferQueue Sockets Options
begin

section \<open>Making a connection (connection\_impl.go, connection\_onevent.go)\<close>

text \<open>
  \<^verbatim>\<open>init\<close> gives a connection its buffers, its barrier and its operator, sets the options of the socket,
  prepares the callbacks and registers it with a poller. The theorem says that it establishes the
  invariant on which the poller and the connection rely.
\<close>

subsection \<open>Callbacks\<close>

definition SetOnConnect :: "'f option \<Rightarrow> 'f connection \<Rightarrow> 'f connection" where
  "SetOnConnect f c = (if f \<noteq> None then c\<lparr>onConnectCallback := f\<rparr> else c)"

definition SetOnDisconnect :: "'f option \<Rightarrow> 'f connection \<Rightarrow> 'f connection" where
  "SetOnDisconnect f c = (if f \<noteq> None then c\<lparr>onDisconnectCallback := f\<rparr> else c)"

definition SetOnRequest :: "'f option \<Rightarrow> ('f, 'k) cstate \<Rightarrow> ('f, 'k) cstate" where
  "SetOnRequest f s =
     (if f = None then s
      else let s = upd_conn (\<lambda>c. c\<lparr>onRequestCallback := f\<rparr>) s
           in if \<not> lb_IsEmpty (inputBuffer (conn s)) then snd (onRequest s) else s)"

definition AddCloseCallback :: "'f callback option \<Rightarrow> 'f connection \<Rightarrow> 'f connection" where
  "AddCloseCallback cb c = (case cb of None \<Rightarrow> c | Some cb \<Rightarrow> c\<lparr>closeCallbacks := cb # closeCallbacks c\<rparr>)"

text \<open>\<open>timeout\<close> is in nanoseconds.\<close>

definition SetIdleTimeout :: "'k sock_sys \<Rightarrow> int \<Rightarrow> ('f, 'k) cstate \<Rightarrow> errno option \<times> ('f, 'k) cstate" where
  "SetIdleTimeout ss timeout s =
     (if timeout > 0
      then let (err, k) = nf_SetKeepAlive ss (timeout div 1000000000) (c_network (conn s)) (c_fd (conn s)) (kern s)
           in (err, s\<lparr>kern := k\<rparr>)
      else (None, s))"

definition conn_register ::
    "'k sys \<Rightarrow> (error \<Rightarrow> string) \<Rightarrow> ('f \<Rightarrow> ('f, 'k) cstate \<Rightarrow> ('f, 'k) cstate option) \<Rightarrow> ('f connection \<Rightarrow> 'f connection) list \<Rightarrow>
     (conn_handler FDOperator \<Rightarrow> conn_handler FDOperator) list \<Rightarrow> ('f, 'k) cstate \<Rightarrow> (error option \<times> ('f, 'k) cstate) option" where
  "conn_register sys txt U fenv oenv s =
     do {
       (err, s) \<leftarrow> operator_Control sys oenv (OpPtr (c_operator (conn s))) PollReadable s;
       case err of
         None \<Rightarrow> Some (None, s)
       | Some e \<Rightarrow> do { s \<leftarrow> conn_Close sys U fenv oenv s; Some (Some (Exc ErrConnClosed (txt e)), s) }
     }"

text \<open>\<^verbatim>\<open>onPrepare\<close>; the \<^verbatim>\<open>OnPrepare\<close> of the user may close the connection.\<close>

definition conn_onPrepare ::
    "'k sys \<Rightarrow> 'k sock_sys \<Rightarrow> (error \<Rightarrow> string) \<Rightarrow> ('f \<Rightarrow> ('f, 'k) cstate \<Rightarrow> ('f, 'k) cstate option) \<Rightarrow> ('f connection \<Rightarrow> 'f connection) list \<Rightarrow>
     (conn_handler FDOperator \<Rightarrow> conn_handler FDOperator) list \<Rightarrow> 'f options option \<Rightarrow> ('f, 'k) cstate \<Rightarrow>
     (error option \<times> ('f, 'k) cstate) option" where
  "conn_onPrepare sys ss txt U fenv oenv opts s =
     do {
       s \<leftarrow> (case opts of
               None \<Rightarrow> Some s
             | Some opt \<Rightarrow>
                 do {
                   let s = upd_conn (SetOnConnect (o_onConnect opt)) s;
                   let s = upd_conn (SetOnDisconnect (o_onDisconnect opt)) s;
                   let s = SetOnRequest (o_onRequest opt) s;
                   let s = upd_conn (SetReadTimeout (o_readTimeout opt)) s;
                   let s = upd_conn (SetWriteTimeout (o_writeTimeout opt)) s;
                   let s = snd (SetIdleTimeout ss (o_idleTimeout opt) s);
                   case o_onPrepare opt of
                     None \<Rightarrow> Some s
                   | Some f \<Rightarrow> U f s
                 });
       let s = upd_conn (\<lambda>c. c\<lparr>ctx_set := True\<rparr>) s;
       if IsActive (conn s) then conn_register sys txt U fenv oenv s else Some (None, s)
     }"

subsection \<open>init\<close>

definition zero_connection :: "'f connection" where
  "zero_connection =
     \<lparr>keychain = replicate total 0, c_fd = 0, c_network = '''', c_remote = '''', c_closed = 0, detaching = False, ctx_set = False,
      onConnectCallback = None, onDisconnectCallback = None, onRequestCallback = None, closeCallbacks = [],
      c_operator = 0, readTimeout = 0, readTrigger = [], waitReadSize = 0, writeTimeout = 0, writeTrigger = [],
      inputBuffer = zero_LinkBuffer, outputBuffer = zero_LinkBuffer, outputBarrier = \<lparr>bar_bs = 0, bar_ivs = 0\<rparr>,
      supportZeroCopy = False, maxSize = 0, bookSize = 0, c_state = connStateNone\<rparr>"

text \<open>The argument of \<^verbatim>\<open>init\<close>: a \<^verbatim>\<open>*netFD\<close>, or another \<^verbatim>\<open>Conn\<close> with its descriptor; \<open>show_addr\<close> is \<^verbatim>\<open>Addr.String\<close>.\<close>

datatype Conn = NetConn netFD | OtherConn int "Addr option"

definition initNetFD :: "(Addr option \<Rightarrow> string) \<Rightarrow> Conn \<Rightarrow> 'f connection \<Rightarrow> 'f connection" where
  "initNetFD show_addr cn c =
     (case cn of
        NetConn n \<Rightarrow> c\<lparr>c_fd := nf_fd n, c_network := nf_network n, c_remote := show_addr (remoteAddr n),
                       c_closed := nf_closed n, detaching := nf_detaching n\<rparr>
      | OtherConn fd remote \<Rightarrow> c\<lparr>c_fd := fd, c_network := '''', c_remote := show_addr remote, c_closed := 0, detaching := False\<rparr>)"

definition initFDOperator :: "nat \<Rightarrow> ('f, 'k) cstate \<Rightarrow> ('f, 'k) cstate option" where
  "initFDOperator opSize s =
     do {
       (a, p) \<leftarrow> poll_Alloc opSize (pl s);
       op \<leftarrow> op_at p (OpPtr a);
       let op = op\<lparr>FD := c_fd (conn s), OnRead := None, OnWrite := None, OnHup := Some COnHup,
                   Inputs := Some CInputs, InputAck := Some CInputAck, Outputs := Some COutputs, OutputAck := Some COutputAck\<rparr>;
       Some (upd_conn (\<lambda>c. c\<lparr>c_operator := a\<rparr>) (s\<lparr>pl := set_op (OpPtr a) op p\<rparr>))
     }"

definition initFinalizer :: "('f, 'k) cstate \<Rightarrow> ('f, 'k) cstate" where
  "initFinalizer s = upd_conn (AddCloseCallback (Some Finalizer)) s"

definition defaultZeroCopyTimeoutSec :: int where "defaultZeroCopyTimeoutSec = 60"

text \<open>The socket options that \<^verbatim>\<open>init\<close> sets.\<close>

definition init_sockopts :: "'k sock_sys \<Rightarrow> ('f, 'k) cstate \<Rightarrow> ('f, 'k) cstate" where
  "init_sockopts ss s =
     (let fd = c_fd (conn s);
          k = snd (sys_set_nonblock ss fd (kern s));
          k = (if c_network (conn s) \<in> {''tcp'', ''tcp4'', ''tcp6''} then snd (setTCPNoDelay ss fd True k) else k);
          (e1, k) = setZeroCopy ss fd k;
          (e2, k) = (if e1 = None then setBlockZeroCopySend ss fd defaultZeroCopyTimeoutSec 0 k else (e1, k));
          s = s\<lparr>kern := k\<rparr>
      in if e1 = None \<and> e2 = None then upd_conn (\<lambda>c. c\<lparr>supportZeroCopy := True\<rparr>) s else s)"

definition conn_init ::
    "globals \<Rightarrow> nat \<Rightarrow> 'k sys \<Rightarrow> 'k sock_sys \<Rightarrow> (Addr option \<Rightarrow> string) \<Rightarrow> (error \<Rightarrow> string) \<Rightarrow>
     ('f \<Rightarrow> ('f, 'k) cstate \<Rightarrow> ('f, 'k) cstate option) \<Rightarrow> ('f connection \<Rightarrow> 'f connection) list \<Rightarrow>
     (conn_handler FDOperator \<Rightarrow> conn_handler FDOperator) list \<Rightarrow> Conn \<Rightarrow> 'f options option \<Rightarrow> ('f, 'k) cstate \<Rightarrow>
     (error option \<times> ('f, 'k) cstate) option" where
  "conn_init g opSize sys ss show_addr txt U fenv oenv cn opts s =
     do {
       let s = upd_conn (\<lambda>c. c\<lparr>readTrigger := [], writeTrigger := [],
                            bookSize := defaultLinkBufferSize g, maxSize := defaultLinkBufferSize g\<rparr>) s;
       (b, w) \<leftarrow> NewLinkBuffer g (Some (defaultLinkBufferSize g)) (in_heap s);
       let s = set_input b w s;
       (b, w) \<leftarrow> NewLinkBuffer g None (out_heap s);
       let s = set_output b w s;
       let (br, bp) = barrierPool_Get (barrierPool s);
       let s = upd_conn (\<lambda>c. c\<lparr>outputBarrier := br, c_state := connStateNone\<rparr>) (s\<lparr>barrierPool := bp\<rparr>);
       let s = upd_conn (initNetFD show_addr cn) s;
       s \<leftarrow> initFDOperator opSize s;
       let s = init_sockopts ss (initFinalizer s);
       conn_onPrepare sys ss txt U fenv oenv opts s
     }"

text \<open>\<^verbatim>\<open>NewFDConnection(fd)\<close>, \<^verbatim>\<open>newTCPConnection\<close> and \<^verbatim>\<open>newUnixConnection\<close>.\<close>

definition NewFDConnection where
  "NewFDConnection g opSize sys ss show_addr txt U fenv oenv fd s =
     conn_init g opSize sys ss show_addr txt U fenv oenv (NetConn (zero_netFD\<lparr>nf_fd := fd\<rparr>)) None (s\<lparr>conn := zero_connection\<rparr>)"

definition newTCPConnection where
  "newTCPConnection g opSize sys ss show_addr txt U fenv oenv n s =
     conn_init g opSize sys ss show_addr txt U fenv oenv (NetConn n) None (s\<lparr>conn := zero_connection\<rparr>)"

definition newUnixConnection where
  "newUnixConnection g opSize sys ss show_addr txt U fenv oenv n s =
     conn_init g opSize sys ss show_addr txt U fenv oenv (NetConn n) None (s\<lparr>conn := zero_connection\<rparr>)"

subsection \<open>The operator of a new connection\<close>

definition idle_cache :: "'h operatorCache \<Rightarrow> bool" where
  "idle_cache c \<longleftrightarrow> (\<forall>a op. ops c a = Some op \<longrightarrow> op_state op = 0)"

lemma alloc_loop_idle: "idle_cache c \<Longrightarrow> idle_cache (alloc_loop n i c)"
proof (induction n arbitrary: i c)
  case (Suc n)
  have "idle_cache ((put_op (next_op c) (zero_FDOperator\<lparr>op_index := i, op_next := first c\<rparr>) c)
      \<lparr>next_op := x, op_cache := xs, first := f\<rparr>)" for x xs f
    using Suc.prems by (auto simp: idle_cache_def zero_FDOperator_def)
  then show ?case using Suc.IH by (simp add: Let_def)
qed simp

lemma cache_alloc_idle:
  assumes "idle_cache c" "cache_alloc opSize c = Some (a, c')"
  shows "idle_cache c'" "\<exists>op. ops c' a = Some op \<and> op_state op = 0"
proof -
  let ?d = "\<lambda>x. if first (c\<lparr>locked := x\<rparr>) = None then alloc_loop (alloc_count opSize) (of_nat (length (op_cache (c\<lparr>locked := x\<rparr>)))) (c\<lparr>locked := x\<rparr>) else c\<lparr>locked := x\<rparr>"
  have "idle_cache (c\<lparr>locked := x\<rparr>)" for x using assms(1) by (simp add: idle_cache_def)
  then have d: "idle_cache (?d x)" for x by (simp add: alloc_loop_idle)
  from assms(2) obtain x nd where x: "ops (?d x) a = Some nd" "c' = (?d x)\<lparr>first := op_next nd, locked := spin_unlock (locked (?d x))\<rparr>"
    by (auto simp: cache_alloc_def bind_eq_Some_conv Let_def simp del: alloc_loop.simps)
  have "ops c' = ops (?d x)" unfolding x(2) by simp
  then show "idle_cache c'" "\<exists>op. ops c' a = Some op \<and> op_state op = 0"
    using d [of x] x(1) unfolding idle_cache_def by simp_all
qed

lemma put_op_cache_inv:
  assumes "cache_inv c fs used" "ops c a = Some op" "op_next op' = op_next op" "op_index op' = op_index op"
  shows "cache_inv (put_op a op' c) fs used"
proof -
  have ch: "op_chain (ops (put_op a op' c)) p as = op_chain (ops c) p as" for p as
    by (rule op_chain_cong) (simp add: assms)
  have fr: "frees (put_op a op' c) = frees c" by (rule frees_cong) simp_all
  have at: "cache_at (put_op a op' c) = cache_at c" by (simp add: fun_eq_iff cache_at_frame [of "put_op a op' c" c])
  have "\<exists>x. ops (put_op a op' c) b = Some x \<and> op_index x = j" if "\<exists>x. ops c b = Some x \<and> op_index x = j" for b j
    using that assms(2,4) by auto
  then show ?thesis using assms(1) unfolding cache_inv_def cache_core_def put_op_simps(2-7) ch fr at by blast
qed

lemma poll_Alloc_idle:
  assumes "cache_inv (opcache p) fs used" "length (op_cache (opcache p)) + alloc_count opSize < 2 ^ 31" "idle_cache (opcache p)"
  obtains a p' op fs' where "poll_Alloc opSize p = Some (a, p')" "op_at p' (OpPtr a) = Some op" "op_state op = 0"
    "op_poll op \<noteq> None" "cache_inv (opcache p') fs' (insert a used)" "idle_cache (opcache p')" "poll_fd p' = poll_fd p"
proof -
  obtain a c fs' where c: "cache_alloc opSize (opcache p) = Some (a, c)" "cache_inv c fs' (insert a used)"
    using cache_alloc_ok [OF assms(1,2)] by blast
  obtain op where op: "ops c a = Some op" "op_state op = 0" and id: "idle_cache c"
    using cache_alloc_idle [OF assms(3) c(1)] by blast
  let ?op = "op\<lparr>op_poll := Some (poll_id p)\<rparr>"
  have "poll_Alloc opSize p = Some (a, p\<lparr>opcache := put_op a ?op c\<rparr>)" using c(1) op(1) by (simp add: poll_Alloc_def)
  moreover have "cache_inv (put_op a ?op c) fs' (insert a used)" by (rule put_op_cache_inv [OF c(2) op(1)]) simp_all
  moreover have "idle_cache (put_op a ?op c)" using id op(2) by (auto simp: idle_cache_def)
  ultimately show thesis
    by (intro that [of a "p\<lparr>opcache := put_op a ?op c\<rparr>" ?op fs']) (simp_all add: op_at_def op(2))
qed

text \<open>A connection that is set up and not yet registered.\<close>

definition prepared :: "globals \<Rightarrow> int \<Rightarrow> ('f, 'k) cstate \<Rightarrow> bool" where
  "prepared g fd s \<longleftrightarrow>
     in_inv (in_heap s) (inputBuffer (conn s)) \<and> out_inv (out_heap s) (outputBuffer (conn s)) \<and>
     lb_Len (inputBuffer (conn s)) = 0 \<and> lb_Len (outputBuffer (conn s)) = 0 \<and>
     bookSize (conn s) = defaultLinkBufferSize g \<and> maxSize (conn s) = defaultLinkBufferSize g \<and>
     IsActive (conn s) \<and> closeCallbacks (conn s) = [Finalizer] \<and> c_fd (conn s) = fd \<and>
     (\<exists>fs used op. cache_inv (opcache (pl s)) fs used \<and> c_operator (conn s) \<in> used \<and>
        op_at (pl s) (OpPtr (c_operator (conn s))) = Some op \<and> conn_op (conn s) op) \<and> idle_cache (opcache (pl s))"

lemma prepared_cong:
  assumes "prepared g fd s" "in_heap s' = in_heap s" "out_heap s' = out_heap s" "pl s' = pl s" "core (conn s') = core (conn s)"
    "bookSize (conn s') = bookSize (conn s)" "maxSize (conn s') = maxSize (conn s)" "keychain (conn s') = keychain (conn s)"
    "closeCallbacks (conn s') = closeCallbacks (conn s)"
  shows "prepared g fd s'"
proof -
  have e: "inputBuffer (conn s') = inputBuffer (conn s)" "outputBuffer (conn s') = outputBuffer (conn s)"
    "c_operator (conn s') = c_operator (conn s)" "conn_op (conn s') = conn_op (conn s)" "c_fd (conn s') = c_fd (conn s)"
    "IsActive (conn s') = IsActive (conn s)"
    using assms(5,8) by (auto simp: core_def conn_op_def fun_eq_iff IsActive_def isCloseBy_def)
  show ?thesis using assms(1) unfolding prepared_def assms(2-4,6,7,9) e by blast
qed

subsection \<open>init establishes the invariant\<close>

definition conn_fd :: "Conn \<Rightarrow> int" where
  "conn_fd cn = (case cn of NetConn n \<Rightarrow> nf_fd n | OtherConn fd _ \<Rightarrow> fd)"

lemma initNetFD_sel [simp]:
  "keychain (initNetFD sa cn c) = keychain c" "inputBuffer (initNetFD sa cn c) = inputBuffer c"
  "outputBuffer (initNetFD sa cn c) = outputBuffer c" "bookSize (initNetFD sa cn c) = bookSize c"
  "maxSize (initNetFD sa cn c) = maxSize c" "closeCallbacks (initNetFD sa cn c) = closeCallbacks c"
  "c_fd (initNetFD sa cn c) = conn_fd cn"
  by (cases cn; simp add: initNetFD_def conn_fd_def)+

lemma initFDOperator_prepared:
  assumes "cache_inv (opcache (pl s)) fs used" "length (op_cache (opcache (pl s))) + alloc_count opSize < 2 ^ 31"
    "idle_cache (opcache (pl s))"
    and "in_inv (in_heap s) (inputBuffer (conn s))" "out_inv (out_heap s) (outputBuffer (conn s))"
    "lb_Len (inputBuffer (conn s)) = 0" "lb_Len (outputBuffer (conn s)) = 0" "bookSize (conn s) = defaultLinkBufferSize g"
    "maxSize (conn s) = defaultLinkBufferSize g" "IsActive (conn s)" "closeCallbacks (conn s) = []" "c_fd (conn s) = fd"
  shows "\<exists>s'. initFDOperator opSize s = Some s' \<and> prepared g fd (initFinalizer s') \<and> poll_fd (pl s') = poll_fd (pl s)"
proof -
  obtain a p op fs' where a: "poll_Alloc opSize (pl s) = Some (a, p)" "op_at p (OpPtr a) = Some op" "op_state op = 0"
    "op_poll op \<noteq> None" "cache_inv (opcache p) fs' (insert a used)" "idle_cache (opcache p)" "poll_fd p = poll_fd (pl s)"
    by (rule poll_Alloc_idle [OF assms(1-3)]) blast
  let ?op = "op\<lparr>FD := c_fd (conn s), OnRead := None, OnWrite := None, OnHup := Some COnHup,
    Inputs := Some CInputs, InputAck := Some CInputAck, Outputs := Some COutputs, OutputAck := Some COutputAck\<rparr>"
  let ?s = "upd_conn (\<lambda>c. c\<lparr>c_operator := a\<rparr>) (s\<lparr>pl := set_op (OpPtr a) ?op p\<rparr>)"
  have run: "initFDOperator opSize s = Some ?s" using a(1,2) by (simp add: initFDOperator_def)
  have o: "ops (opcache p) a = Some op" using a(2) by (simp add: op_at_def)
  have "cache_inv (put_op a ?op (opcache p)) fs' (insert a used)" by (rule put_op_cache_inv [OF a(5) o]) simp_all
  moreover have "idle_cache (put_op a ?op (opcache p))" using a(3,6) by (auto simp: idle_cache_def)
  moreover have "conn_op (conn (initFinalizer ?s)) ?op"
    using a(4) by (simp add: conn_op_def initFinalizer_def upd_conn_def AddCloseCallback_def)
  ultimately have "prepared g fd (initFinalizer ?s)"
    using assms(4-12)
    by (simp add: prepared_def initFinalizer_def upd_conn_def AddCloseCallback_def op_at_def set_op_def IsActive_def isCloseBy_def) blast
  then show ?thesis using run a(7) by (auto simp: upd_conn_def set_op_def)
qed

lemma init_sockopts_frame:
  "\<exists>k z. init_sockopts ss s = upd_conn (\<lambda>c. c\<lparr>supportZeroCopy := z\<rparr>) (s\<lparr>kern := k\<rparr>)"
proof -
  have "upd_conn (\<lambda>c. c\<lparr>supportZeroCopy := supportZeroCopy (conn s)\<rparr>) (s\<lparr>kern := k\<rparr>) = s\<lparr>kern := k\<rparr>" for k
    by (simp add: upd_conn_def)
  then show ?thesis unfolding init_sockopts_def Let_def split_beta by (metis (no_types))
qed

lemma init_sockopts_prepared:
  assumes "prepared g fd s"
  shows "prepared g fd (init_sockopts ss s)" "pl (init_sockopts ss s) = pl s"
proof -
  obtain k z where e: "init_sockopts ss s = upd_conn (\<lambda>c. c\<lparr>supportZeroCopy := z\<rparr>) (s\<lparr>kern := k\<rparr>)"
    using init_sockopts_frame [of ss s] by (elim exE)
  show "prepared g fd (init_sockopts ss s)" by (rule prepared_cong [OF assms]) (simp_all add: e upd_conn_def core_def)
  show "pl (init_sockopts ss s) = pl s" by (simp add: e upd_conn_def)
qed

lemma prepared_upd:
  assumes "prepared g fd s" "\<And>c. core (f c) = core c" "\<And>c. bookSize (f c) = bookSize c" "\<And>c. maxSize (f c) = maxSize c"
    "\<And>c. keychain (f c) = keychain c" "\<And>c. closeCallbacks (f c) = closeCallbacks c"
  shows "prepared g fd (upd_conn f s) \<and> pl (upd_conn f s) = pl s"
  using prepared_cong [OF assms(1), of "upd_conn f s"] assms(2-6) by (simp add: upd_conn_def)

lemma prepared_callbacks:
  assumes "prepared g fd s"
  shows "prepared g fd (upd_conn (SetOnConnect f) s) \<and> pl (upd_conn (SetOnConnect f) s) = pl s"
    "prepared g fd (upd_conn (SetOnDisconnect f) s) \<and> pl (upd_conn (SetOnDisconnect f) s) = pl s"
    "prepared g fd (upd_conn (SetReadTimeout n) s) \<and> pl (upd_conn (SetReadTimeout n) s) = pl s"
    "prepared g fd (upd_conn (SetWriteTimeout n) s) \<and> pl (upd_conn (SetWriteTimeout n) s) = pl s"
    "prepared g fd (upd_conn (\<lambda>c. c\<lparr>ctx_set := True\<rparr>) s) \<and> pl (upd_conn (\<lambda>c. c\<lparr>ctx_set := True\<rparr>) s) = pl s"
  by (rule prepared_upd [OF assms]; simp add: core_def SetOnConnect_def SetOnDisconnect_def SetReadTimeout_def SetWriteTimeout_def)+

lemma prepared_request:
  assumes "prepared g fd s"
  shows "prepared g fd (SetOnRequest f s) \<and> pl (SetOnRequest f s) = pl s"
proof (cases "f = None")
  case False
  have "lb_IsEmpty (inputBuffer (conn s))" using assms by (simp add: prepared_def lb_IsEmpty_def)
  then have "SetOnRequest f s = upd_conn (\<lambda>c. c\<lparr>onRequestCallback := f\<rparr>) s"
    using False by (auto simp: SetOnRequest_def upd_conn_def Let_def)
  moreover have "prepared g fd (upd_conn (\<lambda>c. c\<lparr>onRequestCallback := f\<rparr>) s) \<and> pl (upd_conn (\<lambda>c. c\<lparr>onRequestCallback := f\<rparr>) s) = pl s"
    by (rule prepared_upd [OF assms]) (simp_all add: core_def)
  ultimately show ?thesis by simp
qed (simp add: SetOnRequest_def assms)

lemma prepared_idle:
  assumes "prepared g fd s"
  shows "prepared g fd (snd (SetIdleTimeout ss n s)) \<and> pl (snd (SetIdleTimeout ss n s)) = pl s"
proof -
  have "\<exists>k. snd (SetIdleTimeout ss n s) = s\<lparr>kern := k\<rparr>"
    by (cases "n > 0") (auto simp: SetIdleTimeout_def split_beta intro: exI [of _ "kern s"])
  then obtain k where e: "snd (SetIdleTimeout ss n s) = s\<lparr>kern := k\<rparr>" by (elim exE)
  show ?thesis unfolding e using prepared_cong [OF assms, of "s\<lparr>kern := k\<rparr>"] by simp
qed

lemma register_ok:
  assumes p: "prepared g fd s" and g: "mcache_ok g" "kernel_ok sys left" "0 < defaultLinkBufferSize g" "defaultLinkBufferSize g < MaxInt32"
    and ctl: "\<And>evt k. fst (EpollCtl sys (poll_fd (pl s)) EPOLL_CTL_ADD fd evt k) = None"
  shows "\<exists>s'. conn_register sys txt U fenv oenv s = Some (None, s') \<and> conn_ok g sys left s' \<and> IsActive (conn s') \<and>
    lb_Len (inputBuffer (conn s')) = 0 \<and> lb_Len (outputBuffer (conn s')) = 0 \<and>
    (\<exists>op. op_at (pl s') (OpPtr (c_operator (conn s'))) = Some op \<and> op_state op = 1 \<and> conn_op (conn s') op)"
proof -
  let ?a = "c_operator (conn s)" let ?p = "OpPtr ?a"
  obtain fs used op where o: "cache_inv (opcache (pl s)) fs used" "?a \<in> used" "op_at (pl s) ?p = Some op" "conn_op (conn s) op"
    using p by (auto simp: prepared_def)
  have id: "idle_cache (opcache (pl s))" and fd: "c_fd (conn s) = fd" using p by (simp_all add: prepared_def)
  have st: "op_state op = 0" using id o(3) by (auto simp: idle_cache_def op_at_def)
  let ?op = "op\<lparr>op_state := 1\<rparr>"
  have inuse: "op_inuse oenv op = Some ?op" using st by (subst op_inuse.simps) simp
  have set: "upd_op ?p op s = s" using o(3) by (cases s) (simp add: upd_op_def set_op_def op_at_def put_op_def fun_upd_idem)
  let ?evt = "setOperator ?p \<lparr>ev_events = snd (control_op PollReadable), ev_data = None\<rparr>"
  let ?k = "snd (EpollCtl sys (poll_fd (pl s)) EPOLL_CTL_ADD fd ?evt (kern s))"
  let ?s = "(upd_op ?p ?op s)\<lparr>kern := ?k\<rparr>"
  have pfd: "poll_fd (pl (upd_op ?p ?op s)) = poll_fd (pl s)" by (simp add: upd_op_def set_op_def)
  have "poll_Control sys oenv ?p PollReadable s = Some (None, ?s)"
    using o(3,4) ctl [of ?evt "kern s"] fd pfd inuse
    by (simp add: poll_Control_def control_op_def conn_op_def split_beta upd_op_def)
  then have run: "conn_register sys txt U fenv oenv s = Some (None, ?s)"
    using o(3,4) set by (simp add: conn_register_def operator_Control_def op_Control_def conn_op_def)
  have c: "conn ?s = conn s" "in_heap ?s = in_heap s" "out_heap ?s = out_heap s" "opcache (pl ?s) = put_op ?a ?op (opcache (pl s))"
    by (simp_all add: upd_op_def set_op_def)
  have op1: "conn_op (conn s) ?op" using o(4) by (simp add: conn_op_def)
  have "cache_inv (put_op ?a ?op (opcache (pl s))) fs used"
    by (rule put_op_cache_inv [OF o(1)]) (use o(3) in \<open>simp_all add: op_at_def\<close>)
  moreover have "\<forall>a x. ops (put_op ?a ?op (opcache (pl s))) a = Some x \<longrightarrow> op_state x \<noteq> 0 \<longrightarrow> a = ?a \<and> conn_op (conn s) x"
    using id op1 by (auto simp: idle_cache_def)
  ultimately have ops: "\<exists>fs used. cache_inv (put_op ?a ?op (opcache (pl s))) fs used \<and> ?a \<in> used"
    "\<forall>a x. ops (put_op ?a ?op (opcache (pl s))) a = Some x \<longrightarrow> op_state x \<noteq> 0 \<longrightarrow> a = ?a \<and> conn_op (conn s) x"
    using o(2) by blast+
  have i: "in_inv (in_heap s) (inputBuffer (conn s))" "out_inv (out_heap s) (outputBuffer (conn s))"
    "bookSize (conn s) = defaultLinkBufferSize g" "maxSize (conn s) = defaultLinkBufferSize g"
    using p unfolding prepared_def by blast+
  have ok: "conn_ok g sys left ?s" unfolding conn_ok_def c i(3,4) by (intro conjI g i ops)
  have at: "op_at (pl ?s) ?p = Some ?op" by (simp add: upd_op_def set_op_def op_at_def)
  have act: "IsActive (conn s)" "lb_Len (inputBuffer (conn s)) = 0" "lb_Len (outputBuffer (conn s)) = 0"
    using p unfolding prepared_def by blast+
  have one: "op_state ?op = 1" by simp
  show ?thesis
    by (rule exI [of _ ?s], unfold c(1), intro conjI run ok act exI [of _ ?op] at one op1)
qed

lemma onPrepare_ok:
  assumes p: "prepared g fd s" and g: "mcache_ok g" "kernel_ok sys left" "0 < defaultLinkBufferSize g" "defaultLinkBufferSize g < MaxInt32"
    and ctl: "\<And>evt k. fst (EpollCtl sys (poll_fd (pl s)) EPOLL_CTL_ADD fd evt k) = None"
    and opt: "\<And>opt. opts = Some opt \<Longrightarrow> o_onPrepare opt = None"
  shows "\<exists>s'. conn_onPrepare sys ss txt U fenv oenv opts s = Some (None, s') \<and> conn_ok g sys left s' \<and> IsActive (conn s') \<and>
    lb_Len (inputBuffer (conn s')) = 0 \<and> lb_Len (outputBuffer (conn s')) = 0 \<and>
    (\<exists>op. op_at (pl s') (OpPtr (c_operator (conn s'))) = Some op \<and> op_state op = 1 \<and> conn_op (conn s') op)"
proof -
  have "\<exists>s1. prepared g fd s1 \<and> pl s1 = pl s \<and>
      conn_onPrepare sys ss txt U fenv oenv opts s = conn_register sys txt U fenv oenv s1"
  proof (cases opts)
    case None
    let ?s = "upd_conn (\<lambda>c. c\<lparr>ctx_set := True\<rparr>) s"
    have q: "prepared g fd ?s \<and> pl ?s = pl s" by (rule prepared_callbacks(5) [OF p])
    then have "IsActive (conn ?s)" unfolding prepared_def by blast
    then show ?thesis using None q by (intro exI [of _ ?s]) (simp add: conn_onPrepare_def)
  next
    case (Some opt)
    let ?s1 = "upd_conn (SetOnConnect (o_onConnect opt)) s"
    let ?s2 = "upd_conn (SetOnDisconnect (o_onDisconnect opt)) ?s1" let ?s3 = "SetOnRequest (o_onRequest opt) ?s2"
    let ?s4 = "upd_conn (SetReadTimeout (o_readTimeout opt)) ?s3" let ?s5 = "upd_conn (SetWriteTimeout (o_writeTimeout opt)) ?s4"
    let ?s6 = "snd (SetIdleTimeout ss (o_idleTimeout opt) ?s5)" let ?s7 = "upd_conn (\<lambda>c. c\<lparr>ctx_set := True\<rparr>) ?s6"
    note a = prepared_callbacks(1) [OF p, of "o_onConnect opt"]
    note b = prepared_callbacks(2) [OF conjunct1 [OF a], of "o_onDisconnect opt"]
    note c = prepared_request [OF conjunct1 [OF b], of "o_onRequest opt"]
    note d = prepared_callbacks(3) [OF conjunct1 [OF c], of "o_readTimeout opt"]
    note e = prepared_callbacks(4) [OF conjunct1 [OF d], of "o_writeTimeout opt"]
    note f = prepared_idle [OF conjunct1 [OF e], of ss "o_idleTimeout opt"]
    note h = prepared_callbacks(5) [OF conjunct1 [OF f]]
    have q: "prepared g fd ?s7" "pl ?s7 = pl s" using h f e d c b a by simp_all
    then have "IsActive (conn ?s7)" unfolding prepared_def by blast
    then show ?thesis using q Some opt [OF Some] by (intro exI [of _ ?s7]) (simp add: conn_onPrepare_def)
  qed
  then obtain s1 where s1: "prepared g fd s1" "pl s1 = pl s"
    "conn_onPrepare sys ss txt U fenv oenv opts s = conn_register sys txt U fenv oenv s1" by blast
  show ?thesis unfolding s1(3) by (rule register_ok [OF s1(1) g]) (simp add: s1(2) ctl)
qed

lemma conn_init_ok:
  assumes "mcache_ok g" "kernel_ok sys left" "0 < defaultLinkBufferSize g" "defaultLinkBufferSize g < MaxInt32"
    and "world_ok (in_heap s) own" "world_ok (out_heap s) own'" "conn s = zero_connection"
    and "cache_inv (opcache (pl s)) fs used" "length (op_cache (opcache (pl s))) + alloc_count opSize < 2 ^ 31"
    and "idle_cache (opcache (pl s))" "\<And>opt. opts = Some opt \<Longrightarrow> o_onPrepare opt = None"
    and "\<And>evt k. fst (EpollCtl sys (poll_fd (pl s)) EPOLL_CTL_ADD (conn_fd cn) evt k) = None"
  shows "\<exists>s'. conn_init g opSize sys ss show_addr txt U fenv oenv cn opts s = Some (None, s') \<and> conn_ok g sys left s' \<and>
    IsActive (conn s') \<and> lb_Len (inputBuffer (conn s')) = 0 \<and> lb_Len (outputBuffer (conn s')) = 0 \<and>
    (\<exists>op. op_at (pl s') (OpPtr (c_operator (conn s'))) = Some op \<and> op_state op = 1 \<and> conn_op (conn s') op)"
proof -
  obtain bi wi x where bi: "NewLinkBuffer g (Some (defaultLinkBufferSize g)) (in_heap s) = Some (bi, wi)"
    "ready wi (insert x own) bi [] [] [] [x]" "lb_Len bi = 0" "lb_MallocLen bi = 0" "bookable wi bi"
    by (rule NewLinkBuffer_ready [OF assms(5,1)]) blast
  obtain bo wo y where bo: "NewLinkBuffer g None (out_heap s) = Some (bo, wo)"
    "ready wo (insert y own') bo [] [] [] [y]" "write_n bo = Some y" "lb_Len bo = 0"
    by (rule NewLinkBuffer_ready [OF assms(6,1)]) blast
  have inv: "in_inv wi bi" "out_inv wo bo"
    using bi bo ready_iff [of wi "insert x own" bi] ready_iff [of wo "insert y own'" bo] unfolding in_inv_def out_inv_def by auto
  obtain br bp where br: "barrierPool_Get (barrierPool s) = (br, bp)" by fastforce
  define s1 where "s1 = s\<lparr>in_heap := wi, out_heap := wo, barrierPool := bp,
    conn := initNetFD show_addr cn (zero_connection\<lparr>readTrigger := [], writeTrigger := [], bookSize := defaultLinkBufferSize g,
      maxSize := defaultLinkBufferSize g, inputBuffer := bi, outputBuffer := bo, outputBarrier := br, c_state := connStateNone\<rparr>)\<rparr>"
  have run: "conn_init g opSize sys ss show_addr txt U fenv oenv cn opts s =
      do { s \<leftarrow> initFDOperator opSize s1; conn_onPrepare sys ss txt U fenv oenv opts (init_sockopts ss (initFinalizer s)) }"
    using bi(1) bo(1) br assms(7)
    by (simp add: conn_init_def upd_conn_def set_input_def set_output_def s1_def)
  have p1: "pl s1 = pl s" by (simp add: s1_def)
  have "\<exists>s'. initFDOperator opSize s1 = Some s' \<and> prepared g (conn_fd cn) (initFinalizer s') \<and> poll_fd (pl s') = poll_fd (pl s1)"
    by (rule initFDOperator_prepared [OF assms(8,9,10) [folded p1]])
      (use inv bi(3) bo(4) in \<open>simp_all add: s1_def IsActive_def isCloseBy_def zero_connection_def none_def closing_def total_def\<close>)
  then obtain s2 where s2: "initFDOperator opSize s1 = Some s2" "prepared g (conn_fd cn) (initFinalizer s2)"
    "poll_fd (pl s2) = poll_fd (pl s)" unfolding p1 by blast
  note q = init_sockopts_prepared [OF s2(2), of ss]
  have pf: "poll_fd (pl (init_sockopts ss (initFinalizer s2))) = poll_fd (pl s)"
    unfolding q(2) using s2(3) by (simp add: initFinalizer_def upd_conn_def)
  show ?thesis
    unfolding run s2(1) bind.bind_lunit
    by (rule onPrepare_ok [OF q(1) assms(1-4)]) (use assms(11,12) in \<open>simp_all add: pf\<close>)
qed


definition ex_sockets :: "'k sock_sys" where
  "ex_sockets = \<lparr>sys_setsockopt = (\<lambda>_ _ _ _ k. (None, k)), sys_setsockopt_timeval = (\<lambda>_ _ _ _ _ k. (None, k)),
     sys_getsockopt = (\<lambda>_ _ _ k. (Inr 0, k)), sys_set_nonblock = (\<lambda>_ k. (None, k)), sys_socket = (\<lambda>_ _ _ k. (Inr 5, k)),
     sys_close_on_exec = (\<lambda>_ k. k), sys_bind = (\<lambda>_ _ k. (None, k)), sys_connect = (\<lambda>_ _ k. (None, k)),
     sys_getsockname = (\<lambda>_ k. (Inl 22, k)), sys_getpeername = (\<lambda>_ k. (Inl 22, k)), sys_accept = (\<lambda>_ k. (Inl EAGAIN, k)),
     sys_raw_read = (\<lambda>_ _ k. (Inl EAGAIN, k)), sys_raw_write = (\<lambda>_ bs k. (Inr (int (length bs)), k))\<rparr>"

definition ex_blank :: "(nat, byte list \<times> byte list) cstate" where
  "ex_blank = \<lparr>in_heap = ex_empty_world\<lparr>nodes := Map.empty\<rparr>, out_heap = ex_empty_world\<lparr>nodes := Map.empty\<rparr>,
     kern = ([7, 8, 9], []), pl = zero_poll 0, hup_tasks = [], conn = zero_connection, tasks = [], barrierPool = [],
     connections = Map.empty\<rparr>"


end
