(* ===== verification/ConnClose.thy ===== *)
theory ConnClose
  imports ConnInit
begin

section \<open>Closing (nocopy\_linkbuffer.go, connection\_impl.go, connection\_reactor.go)\<close>

text \<open>
  What closing a buffer and a connection gives back: every node of the buffers, the operator and the
  descriptor.
\<close>

subsection \<open>Close of a buffer\<close>

declare WriteBuffer_tail_loop.simps [simp del]

lemma tail_loop_ok:
  assumes "world_ok w own" "lseg (nodes w) p as None" "set as \<subseteq> own" "distinct as" "set as \<subseteq> S"
    "\<And>a r. a \<in> set as \<Longrightarrow> origin (nd_at w a) = Some r \<Longrightarrow> r \<in> S \<Longrightarrow> False"
  shows "\<exists>w'. WriteBuffer_tail_loop p w = Some w' \<and> world_ok w' (own - set as) \<and> cells w' = cells w"
  using assms
proof (induction as arbitrary: p w own S)
  case Nil
  then show ?case by (simp add: WriteBuffer_tail_loop.simps)
next
  case (Cons a as)
  then obtain nd where hd: "p = Some a" and nd: "nodes w a = Some nd"
    and seg: "lseg (nodes w) (next_n nd) as None" and own: "a \<in> own"
    by (auto split: option.splits)
  obtain w1 where w1: "node_Release a w = Some w1" "world_ok w1 (own - {a})" "cells w1 = cells w"
    "\<And>c. c \<noteq> a \<Longrightarrow> origin (nd_at w a) \<noteq> Some c \<Longrightarrow> nodes w1 c = nodes w c"
    by (rule node_Release_ok [OF Cons.prems(1) own]) blast
  have keep: "nodes w1 c = nodes w c" if "c \<in> S - {a}" for c
    using w1(4) [of c] Cons.prems(6) [of a c] that by auto
  have sub: "c \<in> S - {a}" if "c \<in> set as" for c using Cons.prems(4,5) that by auto
  have at: "nd_at w1 c = nd_at w c" if "c \<in> S - {a}" for c using keep [OF that] by (simp add: nd_at_def)
  have step: "WriteBuffer_tail_loop p w = WriteBuffer_tail_loop (next_n nd) w1"
    using hd nd w1(1) by (subst WriteBuffer_tail_loop.simps) simp
  have "\<exists>w'. WriteBuffer_tail_loop (next_n nd) w1 = Some w' \<and> world_ok w' (own - {a} - set as) \<and> cells w' = cells w1"
  proof (rule Cons.IH [OF w1(2)])
    show "lseg (nodes w1) (next_n nd) as None"
      using seg lseg_cong [of as "nodes w1" "nodes w" "next_n nd" None] keep sub by simp
    show False if "c \<in> set as" "origin (nd_at w1 c) = Some r" "r \<in> S - {a}" for c r
      using Cons.prems(6) [of c r] that at [OF sub] by auto
  qed (use Cons.prems sub in auto)
  then show ?case using step w1(3) by (auto simp: Diff_insert2 [symmetric])
qed

text \<open>After \<^verbatim>\<open>Close\<close> the buffer is the zero value, and none of its nodes is referred to by it any more.\<close>

lemma lb_Close_ok:
  assumes inv: "lb_inv w own b" "submitted w b"
  obtains w' where "lb_Close b w = Some (zero_LinkBuffer, w')" "cells w' = cells w"
    "world_ok w' (own - set (chain (next_addr w) (nodes w) (head b)))"
proof -
  obtain hs rs ws ts where rd: "ready w own b hs rs ws ts" by (rule readyE [OF inv])
  note i = readyD [OF rd] and R = lb_repD [OF readyD(1) [OF rd]]
  let ?b = "b\<lparr>length_b := 0, mallocSize := 0\<rparr>" and ?S = "set (hs @ rs @ ws @ ts)"
  have flush: "flush b \<noteq> Some a" if "a \<in> set rs" for a
    using lb_rep_chain(2) [OF i(1)] R(5) that by (cases "ws @ ts") auto
  obtain xs ys m where x: "rs = xs @ ys" "Release_read_loop ?b w = Some (?b\<lparr>read := m\<rparr>)"
    "lseg (nodes w) (read b) xs m" "lseg (nodes w) m ys (flush b)"
    using Release_read_loop_ok [of w ?b rs] R(2) flush by auto
  let ?b1 = "?b\<lparr>read := m\<rparr>"
  have ylist: "lseg (nodes w) m (ys @ ws @ ts) None" using x(4) lb_rep_chain(2) [OF i(1)]
    unfolding lseg_append [of _ _ ys] by blast
  have apart: False if "a \<in> ?S" "origin (nd_at w a) = Some r" "r \<in> ?S" for a r using i(6) that by blast
  have "\<exists>w1. Release_head_loop ?b1 w = Some (?b1\<lparr>head := read ?b1\<rparr>, w1) \<and> world_ok w1 (own - set (hs @ xs)) \<and>
      cells w1 = cells w \<and> next_arr w1 = next_arr w \<and> next_addr w1 = next_addr w \<and>
      (\<forall>c\<in>?S - set (hs @ xs). nodes w1 c = nodes w c)"
  proof (rule Release_head_loop_ok [OF i(3)])
    show "lseg (nodes w) (head ?b1) (hs @ xs) (read ?b1)" unfolding lseg_append using R(1) x(3) by auto
    show "set (hs @ xs) \<subseteq> own" "distinct (hs @ xs)" "set (hs @ xs) \<subseteq> ?S" using i(5) R(5) x(1) by auto
    show "read ?b1 \<noteq> Some a" if "a \<in> set (hs @ xs)" for a
      using ylist R(5) x(1) that by (cases "ys @ ws @ ts") auto
    show False if "a \<in> set (hs @ xs)" "origin (nd_at w a) = Some r" "r \<in> ?S" for a r
      by (rule apart [of a r]) (use that x(1) in auto)
  qed
  then obtain w1 where w1: "Release_head_loop ?b1 w = Some (?b1\<lparr>head := m\<rparr>, w1)"
    "world_ok w1 (own - set (hs @ xs))" "cells w1 = cells w" "next_arr w1 = next_arr w"
    "next_addr w1 = next_addr w" "\<And>c. c \<in> ?S - set (hs @ xs) \<Longrightarrow> nodes w1 c = nodes w c"
    by auto
  define w2 where "w2 = (case cachePeek b of None \<Rightarrow> fold free (caches b) w1 | Some c \<Rightarrow> free c (fold free (caches b) w1))"
  have w2: "nodes w2 = nodes w1" "cells w2 = cells w" "next_arr w2 = next_arr w1" "next_addr w2 = next_addr w1"
    "pool w2 = pool w1"
    using w1 by (simp_all add: w2_def fold_free split: option.splits)
  have keep: "nodes w2 c = nodes w c" if "c \<in> set (ys @ ws @ ts)" for c
    unfolding w2(1) by (rule w1(6)) (use R(5) x(1) that in auto)
  have "\<exists>w'. WriteBuffer_tail_loop m w2 = Some w' \<and> world_ok w' (own - set (hs @ xs) - set (ys @ ws @ ts)) \<and> cells w' = cells w2"
  proof (rule tail_loop_ok [OF world_ok_cong [OF w1(2)], where S = "set (ys @ ws @ ts)"])
    show "lseg (nodes w2) m (ys @ ws @ ts) None"
    proof -
      have "lseg (nodes w2) m (ys @ ws @ ts) None = lseg (nodes w) m (ys @ ws @ ts) None" by (rule lseg_cong) (simp only: keep)
      then show ?thesis using ylist by simp
    qed
    show False if "a \<in> set (ys @ ws @ ts)" "origin (nd_at w2 a) = Some r" "r \<in> set (ys @ ws @ ts)" for a r
      by (rule apart [of a r]) (use that keep [OF that(1)] x(1) in \<open>auto simp: nd_at_def\<close>)
  qed (use w2 i(5) R(5) x(1) in auto)
  then obtain w' where w': "WriteBuffer_tail_loop m w2 = Some w'" "cells w' = cells w"
    "world_ok w' (own - set (hs @ xs) - set (ys @ ws @ ts))" using w2(2) by auto
  have "lb_Release ?b w = Some (?b\<lparr>read := m, head := m, caches := [], cachePeek := None\<rparr>, w2)"
    using x(2) w1(1) by (simp add: lb_Release_def w2_def split: option.splits)
  then have run: "lb_Close b w = Some (zero_LinkBuffer, w')"
    using w'(1) by (simp add: lb_Close_def zero_LinkBuffer_def)
  have "chain (next_addr w) (nodes w) (head b) = hs @ rs @ ws @ ts"
    by (rule chain_rep [OF i(4) lb_rep_chain(3) [OF i(1)] R(5)])
  moreover have "own - set (hs @ xs) - set (ys @ ws @ ts) = own - set (hs @ rs @ ws @ ts)" using x(1) by auto
  ultimately show thesis using that [OF run w'(2)] w'(3) by metis
qed

subsection \<open>Close of a connection\<close>

definition has_callbacks :: "'f connection \<Rightarrow> bool" where
  "has_callbacks c \<longleftrightarrow> onConnectCallback c \<noteq> None \<or> onRequestCallback c \<noteq> None"

text \<open>What closing leaves of a connection that had \<open>c\<close>: a buffer with unread bytes stays for a user without callbacks.\<close>

definition closed_from :: "'f connection \<Rightarrow> 'f connection \<Rightarrow> bool" where
  "closed_from c c' \<longleftrightarrow>
     (\<exists>bi bo. c' = c\<lparr>inputBuffer := bi, outputBuffer := bo\<rparr> \<and>
        bi = (if lb_Len (inputBuffer c) = 0 \<or> has_callbacks c then zero_LinkBuffer else inputBuffer c) \<and>
        bo = (if lb_Len (outputBuffer c) = 0 \<or> has_callbacks c then zero_LinkBuffer else outputBuffer c))"

lemma closeBuffer_ok:
  assumes "in_inv (in_heap s) (inputBuffer (conn s))" "out_inv (out_heap s) (outputBuffer (conn s))"
  obtains s' where "closeBuffer s = Some s'" "closed_from (conn s) (conn s')" "kern s' = kern s" "pl s' = pl s"
    "connections s' = connections s"
proof -
  obtain wi where wi: "lb_Close (inputBuffer (conn s)) (in_heap s) = Some (zero_LinkBuffer, wi)"
    using assms(1) unfolding in_inv_def by (elim exE conjE) (erule lb_Close_ok, assumption, blast)
  obtain wo where wo: "lb_Close (outputBuffer (conn s)) (out_heap s) = Some (zero_LinkBuffer, wo)"
    using assms(2) unfolding out_inv_def by (elim exE conjE) (erule lb_Close_ok, assumption, blast)
  let ?ci = "lb_Len (inputBuffer (conn s)) = 0 \<or> has_callbacks (conn s)" and ?co = "lb_Len (outputBuffer (conn s)) = 0 \<or> has_callbacks (conn s)"
  let ?s1 = "if ?ci then set_input zero_LinkBuffer wi s else s"
  let ?s2 = "if ?co then (set_output zero_LinkBuffer wo ?s1)\<lparr>barrierPool := outputBarrier (conn s) # barrierPool s\<rparr> else ?s1"
  have run: "closeBuffer s = Some ?s2"
    unfolding closeBuffer_def has_callbacks_def [symmetric] Let_def using wi wo by (simp add: set_input_def set_output_def)
  have "closed_from (conn s) (conn ?s2)" by (auto simp: closed_from_def set_input_def set_output_def)
  moreover have "kern ?s2 = kern s" "pl ?s2 = pl s" "connections ?s2 = connections s"
    by (auto simp: set_input_def set_output_def)
  ultimately show thesis using that [OF run] by blast
qed

lemma finalizer_ok:
  assumes inv: "cache_inv (opcache (pl s)) fs used" "c_operator (conn s) \<in> used"
    and op: "op_at (pl s) (OpPtr (c_operator (conn s))) = Some op" "op_state op = 1"
    and c: "keychain (conn s) ! flushing = 0" "c_closed (conn s) = 0" "\<not> detaching (conn s)" "2 < c_fd (conn s)"
    and b: "in_inv (in_heap s) (inputBuffer (conn s))" "out_inv (out_heap s) (outputBuffer (conn s))"
  obtains s' where "finalizer sys fenv oenv s = Some s'"
    "closed_from ((conn s)\<lparr>keychain := (keychain (conn s))[flushing := 2], c_closed := 1\<rparr>) (conn s')"
    "kern s' = snd (sys_close sys (c_fd (conn s)) (kern s))" "connections s' = connections s"
    "cache_inv (opcache (pl s')) fs (used - {c_operator (conn s)})" "c_operator (conn s) \<in> frees (opcache (pl s'))"
proof -
  have o: "ops (opcache (pl s)) (c_operator (conn s)) = Some op" using op(1) by (simp add: op_at_def)
  have u: "op_unused env op = Some (op\<lparr>op_state := 0\<rparr>)" for env using op(2) by (subst op_unused.simps) simp
  have "\<exists>c'. cache_freeable [] (c_operator (conn s)) (opcache (pl s)) = Some c' \<and>
      cache_inv c' fs (used - {c_operator (conn s)}) \<and> c_operator (conn s) \<in> frees c'"
    by (rule cache_freeable_ok [OF inv o u]) simp
  then obtain c' where c': "cache_freeable [] (c_operator (conn s)) (opcache (pl s)) = Some c'"
    "cache_inv c' fs (used - {c_operator (conn s)})" "c_operator (conn s) \<in> frees c'" by blast
  have free: "poll_Free oenv (c_operator (conn s)) (pl s) = Some ((pl s)\<lparr>opcache := c'\<rparr>)"
    using c'(1) o u by (simp add: poll_Free_def cache_freeable_def)
  let ?c = "(conn s)\<lparr>keychain := (keychain (conn s))[flushing := 2], c_closed := 1\<rparr>"
  let ?s = "s\<lparr>pl := (pl s)\<lparr>opcache := c'\<rparr>, conn := ?c, kern := snd (sys_close sys (c_fd (conn s)) (kern s))\<rparr>"
  have stop: "stop flushing fenv (conn s) = Some ((conn s)\<lparr>keychain := (keychain (conn s))[flushing := 2]\<rparr>)"
    using c(1) by (subst stop.simps) (simp add: CompareAndSwap_def)
  have run: "finalizer sys fenv oenv s = closeBuffer ?s"
    using stop free c(2-4) by (simp add: finalizer_def netFD_Close_def upd_conn_def split_beta)
  obtain s' where s': "closeBuffer ?s = Some s'" "closed_from (conn ?s) (conn s')" "kern s' = kern ?s" "pl s' = pl ?s"
    "connections s' = connections ?s"
    by (rule closeBuffer_ok [of ?s]) (use b in simp_all)
  show thesis by (rule that [of s']) (use run s' c' in simp_all)
qed

lemma detach_first:
  assumes "op_at (pl s) ptr = Some op" "op_poll op \<noteq> None" "detached op = 0"
  shows "operator_Control sys [] ptr PollDetach s =
    (case EpollCtl sys (poll_fd (pl s)) EPOLL_CTL_DEL (FD op)
       (setOperator ptr \<lparr>ev_events = snd (control_op PollDetach), ev_data = None\<rparr>) (kern s) of
       (err, k) \<Rightarrow> Some (err, (upd_op ptr (op\<lparr>detached := 1\<rparr>) s)\<lparr>kern := k\<rparr>))"
proof -
  let ?op = "op\<lparr>detached := 1\<rparr>"
  have c: "op_Control (\<lambda>_. None) PollDetach op = Some (None, True, ?op)" using assms(2,3) by (simp add: op_Control_def)
  have at: "op_at (pl (upd_op ptr ?op s)) ptr = Some ?op"
    by (cases ptr) (simp_all add: upd_op_def set_op_def op_at_def)
  have u: "upd_op ptr ?op (upd_op ptr ?op s) = upd_op ptr ?op s" by (rule upd_op_same [OF at])
  have p: "poll_fd (pl (upd_op ptr ?op s)) = poll_fd (pl s)" "kern (upd_op ptr ?op s) = kern s"
    by (cases ptr; simp add: upd_op_def set_op_def)+
  show ?thesis
    using assms(1) c at u p
    by (simp add: operator_Control_def poll_Control_def delOperator_def control_op_def split_beta Let_def)
qed

lemma run_deletes:
  "run_callbacks sys U fenv oenv (map DeleteConn fds @ cs) s =
     run_callbacks sys U fenv oenv cs (s\<lparr>connections := connections s |` (- set fds)\<rparr>)"
proof (induction fds arbitrary: s)
  case (Cons fd fds)
  have "(\<lambda>a. if a = fd then None else connections s a) |` (- set fds) = connections s |` (- insert fd (set fds))"
    by (auto simp: restrict_map_def fun_eq_iff)
  then show ?case by (simp add: Cons fun_upd_def)
next
  case Nil
  have "connections s |` UNIV = connections s" by (simp add: restrict_map_def)
  then show ?case by simp
qed

text \<open>The state in which \<^verbatim>\<open>Close\<close> calls the callbacks.\<close>

lemma closing_run:
  assumes act: "IsActive (conn s)" and un: "isUnlock processing (conn s)"
    and op: "op_at (pl s) (OpPtr (c_operator (conn s))) = Some op" "op_poll op \<noteq> None" "detached op = 0" "FD op = c_fd (conn s)"
  obtains s1 evt where
    "conn_Close sys U fenv oenv s = run_callbacks sys U fenv oenv (closeCallbacks (conn s)) s1"
    "keychain (conn s1) = (keychain (conn s))[closing := user, processing := 1]"
    "core (conn s1) = core (conn s)" "has_callbacks (conn s1) = has_callbacks (conn s)"
    "c_closed (conn s1) = c_closed (conn s)" "detaching (conn s1) = detaching (conn s)"
    "in_heap s1 = in_heap s" "out_heap s1 = out_heap s" "connections s1 = connections s"
    "kern s1 = snd (EpollCtl sys (poll_fd (pl s)) EPOLL_CTL_DEL (c_fd (conn s)) evt (kern s))"
    "pl s1 = set_op (OpPtr (c_operator (conn s))) (op\<lparr>detached := 1\<rparr>) (pl s)"
proof -
  define c where "c = triggerWrite (Some (Exc ErrConnClosed ''self close'')) (triggerRead (Some (Exc ErrConnClosed ''self close''))
     ((conn s)\<lparr>keychain := (keychain (conn s))[closing := user]\<rparr>))"
  define c2 where "c2 = c\<lparr>keychain := (keychain c)[processing := 1]\<rparr>"
  have kc: "keychain c = (keychain (conn s))[closing := user]" by (simp add: c_def triggerRead_def triggerWrite_def)
  have cl: "closeBy user (conn s) = (True, (conn s)\<lparr>keychain := (keychain (conn s))[closing := user]\<rparr>)"
    using act by (simp add: closeBy_def CompareAndSwap_def IsActive_def isCloseBy_def none_def)
  have "processing \<noteq> closing" by (simp add: processing_def closing_def)
  then have lk: "lock processing c = (True, c2)"
    using un unfolding lock_def CompareAndSwap_def kc isUnlock_def by (simp add: c2_def kc)
  have c2: "keychain c2 = (keychain (conn s))[closing := user, processing := 1]" "core c2 = core (conn s)" "has_callbacks c2 = has_callbacks (conn s)"
    "c_closed c2 = c_closed (conn s)" "detaching c2 = detaching (conn s)" "c_operator c2 = c_operator (conn s)"
    "closeCallbacks c2 = closeCallbacks (conn s)"
    by (simp_all add: c2_def c_def triggerRead_def triggerWrite_def core_def has_callbacks_def)
  let ?evt = "setOperator (OpPtr (c_operator (conn s))) \<lparr>ev_events = snd (control_op PollDetach), ev_data = None\<rparr>"
  let ?s2 = "s\<lparr>conn := c2\<rparr>"
  define s1 where "s1 = (upd_op (OpPtr (c_operator (conn s))) (op\<lparr>detached := 1\<rparr>) ?s2)\<lparr>kern :=
      snd (EpollCtl sys (poll_fd (pl s)) EPOLL_CTL_DEL (c_fd (conn s)) ?evt (kern s))\<rparr>"
  obtain e where d: "operator_Control sys [] (OpPtr (c_operator (conn s))) PollDetach ?s2 = Some (e, s1)"
    using detach_first [of ?s2 "OpPtr (c_operator (conn s))" op sys] op by (simp add: split_beta s1_def)
  have s1: "conn s1 = c2" by (simp add: s1_def upd_op_def)
  have "closeCallback sys U fenv oenv True True (s\<lparr>conn := c\<rparr>) = run_callbacks sys U fenv oenv (closeCallbacks (conn s)) s1"
    unfolding closeCallback_def using lk op(1,2) c2 d s1 by simp
  then have run: "conn_Close sys U fenv oenv s = run_callbacks sys U fenv oenv (closeCallbacks (conn s)) s1"
    by (simp add: conn_Close_def onClose_def cl upd_conn_def c_def)
  show thesis
    by (rule that [OF run, of ?evt]) (simp_all add: s1 c2, simp_all add: s1_def upd_op_def)
qed

lemma closed_again:
  assumes "processing < length (keychain (conn s))" "keychain (conn s) ! processing = 1" "keychain (conn s) ! closing \<noteq> 0"
  shows "conn_Close sys U fenv oenv s = Some (upd_conn (force closing user) s)"
proof -
  have "closeBy user (conn s) = (False, conn s)" using assms(3) by (simp add: closeBy_def CompareAndSwap_def)
  moreover have "lock processing (force closing user (conn s)) = (False, force closing user (conn s))"
    using assms(1,2) by (simp add: lock_def CompareAndSwap_def force_def closing_def processing_def)
  ultimately show ?thesis by (simp add: conn_Close_def onClose_def closeCallback_def upd_conn_def)
qed

lemma conn_Close_ok:
  assumes ok: "conn_ok g sys left s" and act: "IsActive (conn s)" "length (keychain (conn s)) = total"
    and un: "isUnlock processing (conn s)" "isUnlock flushing (conn s)"
    and cb: "closeCallbacks (conn s) = map DeleteConn fds @ [Finalizer]"
    and op: "op_at (pl s) (OpPtr (c_operator (conn s))) = Some op" "op_state op = 1" "detached op = 0"
    and fd: "c_closed (conn s) = 0" "\<not> detaching (conn s)" "2 < c_fd (conn s)"
  shows "\<exists>s' evt. conn_Close sys U fenv oenv s = Some s' \<and> \<not> IsActive (conn s') \<and>
    kern s' = snd (sys_close sys (c_fd (conn s)) (snd (EpollCtl sys (poll_fd (pl s)) EPOLL_CTL_DEL (c_fd (conn s)) evt (kern s)))) \<and>
    (\<exists>fs used. cache_inv (opcache (pl s')) fs used \<and> c_operator (conn s) \<notin> used \<and> c_operator (conn s) \<in> frees (opcache (pl s'))) \<and>
    inputBuffer (conn s') =
      (if lb_Len (inputBuffer (conn s)) = 0 \<or> has_callbacks (conn s) then zero_LinkBuffer else inputBuffer (conn s)) \<and>
    outputBuffer (conn s') =
      (if lb_Len (outputBuffer (conn s)) = 0 \<or> has_callbacks (conn s) then zero_LinkBuffer else outputBuffer (conn s)) \<and>
    connections s' = connections s |` (- set fds) \<and>
    (\<exists>s''. conn_Close sys U fenv oenv s' = Some s'' \<and> kern s'' = kern s' \<and> pl s'' = pl s')"
proof -
  let ?a = "c_operator (conn s)"
  obtain fs used where cache: "cache_inv (opcache (pl s)) fs used" "?a \<in> used" using ok by (auto simp: conn_ok_def)
  have cop: "conn_op (conn s) op" using ok op by (auto simp: conn_ok_def op_at_def)
  obtain s1 evt where s1: "conn_Close sys U fenv oenv s = run_callbacks sys U fenv oenv (closeCallbacks (conn s)) s1"
    "keychain (conn s1) = (keychain (conn s))[closing := user, processing := 1]"
    "core (conn s1) = core (conn s)" "has_callbacks (conn s1) = has_callbacks (conn s)"
    "c_closed (conn s1) = c_closed (conn s)" "detaching (conn s1) = detaching (conn s)"
    "in_heap s1 = in_heap s" "out_heap s1 = out_heap s" "connections s1 = connections s"
    "kern s1 = snd (EpollCtl sys (poll_fd (pl s)) EPOLL_CTL_DEL (c_fd (conn s)) evt (kern s))"
    "pl s1 = set_op (OpPtr ?a) (op\<lparr>detached := 1\<rparr>) (pl s)"
    by (rule closing_run [OF act(1) un(1) op(1) _ op(3)]) (use cop in \<open>auto simp: conn_op_def\<close>)
  define s2 where "s2 = s1\<lparr>connections := connections s |` (- set fds)\<rparr>"
  have e: "conn s2 = conn s1" "kern s2 = kern s1" "connections s2 = connections s |` (- set fds)" "pl s2 = pl s1"
    "in_heap s2 = in_heap s" "out_heap s2 = out_heap s" by (simp_all add: s2_def s1)
  have c: "c_fd (conn s1) = c_fd (conn s)" "c_operator (conn s1) = ?a" "inputBuffer (conn s1) = inputBuffer (conn s)"
    "outputBuffer (conn s1) = outputBuffer (conn s)" using s1(3) by (simp_all add: core_def)
  have k: "keychain (conn s1) ! flushing = 0" using un(2) by (simp add: s1(2) isUnlock_def flushing_def closing_def processing_def)
  have at: "op_at (pl s1) (OpPtr ?a) = Some (op\<lparr>detached := 1\<rparr>)" by (simp add: s1(11) set_op_def op_at_def)
  have inv: "cache_inv (opcache (pl s1)) fs used"
    using put_op_cache_inv [OF cache(1), of ?a op "op\<lparr>detached := 1\<rparr>"] op(1) by (simp add: s1(11) set_op_def op_at_def)
  obtain s' where s': "finalizer sys fenv oenv s2 = Some s'"
    "closed_from ((conn s2)\<lparr>keychain := (keychain (conn s2))[flushing := 2], c_closed := 1\<rparr>) (conn s')"
    "kern s' = snd (sys_close sys (c_fd (conn s2)) (kern s2))" "connections s' = connections s2"
    "cache_inv (opcache (pl s')) fs (used - {c_operator (conn s2)})" "c_operator (conn s2) \<in> frees (opcache (pl s'))"
    by (rule finalizer_ok [of s2 fs used "op\<lparr>detached := 1\<rparr>" sys fenv oenv])
      (use inv cache(2) at op(2) k fd ok in \<open>simp_all add: e c s1(5,6) conn_ok_def\<close>)
  have run: "conn_Close sys U fenv oenv s = Some s'"
    unfolding s1(1) cb run_deletes using s'(1) by (simp add: s2_def s1(9))
  have kc: "keychain (conn s') = (keychain (conn s))[closing := user, processing := 1, flushing := 2]"
    using s'(2) by (auto simp: closed_from_def e s1(2))
  have "\<not> IsActive (conn s')"
    using act(2) by (simp add: kc IsActive_def isCloseBy_def none_def user_def closing_def processing_def flushing_def total_def)
  moreover have "conn_Close sys U fenv oenv s' = Some (upd_conn (force closing user) s')"
    by (rule closed_again) (use act(2) in \<open>simp_all add: kc user_def closing_def processing_def flushing_def total_def\<close>)
  moreover have "inputBuffer (conn s') =
      (if lb_Len (inputBuffer (conn s)) = 0 \<or> has_callbacks (conn s) then zero_LinkBuffer else inputBuffer (conn s))"
    "outputBuffer (conn s') =
      (if lb_Len (outputBuffer (conn s)) = 0 \<or> has_callbacks (conn s) then zero_LinkBuffer else outputBuffer (conn s))"
    using s'(2) s1(4) by (auto simp: closed_from_def e c has_callbacks_def)
  ultimately show ?thesis
    by (intro exI [of _ s'] exI [of _ evt] conjI run exI [of _ fs] exI [of _ "used - {?a}"] exI [of _ "upd_conn (force closing user) s'"])
      (use s'(3-6) in \<open>simp_all add: e c s1(10)\<close>)
qed



end
