(* ===== verification/Server.thy ===== *)
theory Server
  imports ConnClose
begin

section \<open>Listener and server (net\_listener.go, netpoll\_server.go)\<close>

text \<open>
  The server accepts connections in the handler of its listener, keeps them in a map and closes them
  gracefully. The listener is registered with one poller and a new connection with another, which
  share the kernel.
\<close>

subsection \<open>Listener\<close>

text \<open>
  \<open>l_ln\<close>, \<open>l_pconn\<close> and \<open>l_file\<close> are the descriptors of the \<^verbatim>\<open>net.Listener\<close>, the \<^verbatim>\<open>net.PacketConn\<close> and the
  \<^verbatim>\<open>os.File\<close> that the listener holds, each closed by its \<^verbatim>\<open>Close\<close>.
\<close>

record listener =
  l_fd :: int
  l_addr :: Addr
  l_ln :: "int option"
  l_pconn :: "int option"
  l_file :: "int option"

definition addr_Network :: "Addr \<Rightarrow> string" where
  "addr_Network a = (case a of NetTCPAddr _ \<Rightarrow> ''tcp'' | NetUnixAddr net _ \<Rightarrow> net)"

definition UDPAccept :: "error + netFD option" where
  "UDPAccept = Inl (Exc ErrUnsupported ''UDP'')"

text \<open>\<^verbatim>\<open>Accept\<close>; no connection and no error when there is nothing to accept.\<close>

definition ln_Accept ::
    "'k sock_sys \<Rightarrow> (nat \<Rightarrow> string option) \<Rightarrow> listener \<Rightarrow> 'k \<Rightarrow> (error + netFD option) \<times> 'k" where
  "ln_Accept ss ifname ln k =
     (if l_pconn ln \<noteq> None then (UDPAccept, k)
      else case sys_accept ss (l_fd ln) k of
             (Inl e, k) \<Rightarrow> (if e = EAGAIN then Inr None else Inl (Errno e), k)
           | (Inr (fd, sa), k) \<Rightarrow>
               (Inr (Some (zero_netFD\<lparr>nf_fd := fd, localAddr := Some (l_addr ln), nf_network := addr_Network (l_addr ln),
                                     remoteAddr := sockaddrToAddr ifname (Some sa)\<rparr>)), k))"

definition close_held :: "'k sys \<Rightarrow> int option \<Rightarrow> 'k \<Rightarrow> 'k" where
  "close_held sys x k = (case x of None \<Rightarrow> k | Some fd \<Rightarrow> snd (sys_close sys fd k))"

definition ln_Close :: "'k sys \<Rightarrow> listener \<Rightarrow> 'k \<Rightarrow> 'k" where
  "ln_Close sys ln k =
     (let k = (if l_fd ln \<noteq> 0 then snd (sys_close sys (l_fd ln) k) else k);
          k = close_held sys (l_file ln) k;
          k = close_held sys (l_ln ln) k
      in close_held sys (l_pconn ln) k)"

text \<open>
  \<^verbatim>\<open>parseFD\<close>: \<open>file\<close> is the descriptor that \<^verbatim>\<open>File()\<close> of a TCP or Unix listener gives, or its error;
  \<open>supported\<close> says whether the listener is one of these.
\<close>

definition parseFD :: "bool \<Rightarrow> error + int \<Rightarrow> listener \<Rightarrow> error option \<times> listener" where
  "parseFD supported file ln =
     (if \<not> supported then (Some (EText ''listener type can't support''), ln)
      else case file of
             Inl e \<Rightarrow> (Some e, ln\<lparr>l_file := None\<rparr>)
           | Inr fd \<Rightarrow> (None, ln\<lparr>l_file := Some fd, l_fd := fd\<rparr>))"

text \<open>
  The listener closes its descriptor itself and once more through the file it got it from, so that
  another descriptor opened in between is closed in its place.
\<close>

lemma ln_Close_twice:
  assumes "parseFD True (Inr fd) ln0 = (None, ln)" "fd \<noteq> 0" "l_ln ln = None" "l_pconn ln = None"
  shows "ln_Close sys ln k = snd (sys_close sys fd (snd (sys_close sys fd k)))"
  using assms by (auto simp: parseFD_def ln_Close_def close_held_def)

subsection \<open>Server\<close>

datatype srv_handler = SOnRead | SOnHup

text \<open>
  The state of the poller of the listener; \<open>sv_op\<close> is the address of the operator of the server,
  \<open>accepted\<close> the world of the connection that is being accepted, with the map of connections,
  \<open>quits\<close> what \<^verbatim>\<open>onQuit\<close> was called with and \<open>retrying\<close> how many goroutines retry to accept.
\<close>

record ('f, 'k) server = "(srv_handler, 'k) pstate" +
  sv_op :: addr
  sv_ln :: listener
  sv_opts :: "'f options option"
  accepted :: "('f, 'k) cstate"
  quits :: "error list"
  retrying :: nat

definition newServer ::
    "listener \<Rightarrow> 'f options option \<Rightarrow> ('f, 'k) server \<Rightarrow> ('f, 'k) server" where
  "newServer ln opts s = s\<lparr>sv_ln := ln, sv_opts := opts\<rparr>"

definition srv_Control ::
    "'k sys \<Rightarrow> (srv_handler FDOperator \<Rightarrow> srv_handler FDOperator) list \<Rightarrow> PollEvent \<Rightarrow> ('f, 'k) server \<Rightarrow>
     (error option \<times> ('f, 'k) server) option" where
  "srv_Control sys env event s = operator_Control sys env (OpPtr (sv_op s)) event s"

definition onQuit :: "error \<Rightarrow> ('f, 'k) server \<Rightarrow> ('f, 'k) server" where
  "onQuit err s = s\<lparr>quits := quits s @ [err]\<rparr>"

definition srv_Run ::
    "'k sys \<Rightarrow> (srv_handler FDOperator \<Rightarrow> srv_handler FDOperator) list \<Rightarrow> ('f, 'k) server \<Rightarrow>
     (error option \<times> ('f, 'k) server) option" where
  "srv_Run sys env s =
     do {
       let op = zero_FDOperator\<lparr>FD := l_fd (sv_ln s), OnRead := Some SOnRead, OnHup := Some SOnHup,
                                op_poll := Some (poll_id (pl s))\<rparr>;
       let s = s\<lparr>pl := set_op (OpPtr (sv_op s)) op (pl s)\<rparr>;
       (err, s) \<leftarrow> srv_Control sys env PollReadable s;
       Some (err, case err of None \<Rightarrow> s | Some e \<Rightarrow> onQuit e s)
     }"

definition isOutOfFdErr :: "error \<Rightarrow> bool" where
  "isOutOfFdErr err = (case err of Errno e \<Rightarrow> e = EMFILE \<or> e = ENFILE | _ \<Rightarrow> False)"

text \<open>\<^verbatim>\<open>onConnect\<close> of a connection: without a callback it is connected at once.\<close>

definition conn_onConnect :: "('f, 'k) cstate \<Rightarrow> ('f, 'k) cstate" where
  "conn_onConnect s =
     (case onConnectCallback (conn s) of
        None \<Rightarrow> upd_conn (\<lambda>c. snd (changeState connStateNone connStateConnected c)) s
      | Some f \<Rightarrow>
          let (ok, c) = lock connecting (conn s)
          in if \<not> ok then s else snd (onProcess (Some f) (onRequestCallback (conn s)) (s\<lparr>conn := c\<rparr>)))"

text \<open>
  \<^verbatim>\<open>onAccept\<close>. \<open>me\<close> is the new connection and \<open>env\<close> what its poller does after the test that it is active
  and before it is stored.
\<close>

definition onAccept ::
    "globals \<Rightarrow> nat \<Rightarrow> 'k sys \<Rightarrow> 'k sock_sys \<Rightarrow> (Addr option \<Rightarrow> string) \<Rightarrow> (error \<Rightarrow> string) \<Rightarrow>
     ('f \<Rightarrow> ('f, 'k) cstate \<Rightarrow> ('f, 'k) cstate option) \<Rightarrow> ('f connection \<Rightarrow> 'f connection) list \<Rightarrow>
     (conn_handler FDOperator \<Rightarrow> conn_handler FDOperator) list \<Rightarrow> (('f, 'k) cstate \<Rightarrow> ('f, 'k) cstate option) \<Rightarrow>
     nat \<Rightarrow> netFD \<Rightarrow> ('f, 'k) server \<Rightarrow> ('f, 'k) server option" where
  "onAccept g opSize sys ss show_addr txt U fenv oenv env me n s =
     do {
       let c = (accepted s)\<lparr>kern := kern s, conn := zero_connection\<rparr>;
       (_, c) \<leftarrow> conn_init g opSize sys ss show_addr txt U fenv oenv (NetConn n) (sv_opts s) c;
       if \<not> IsActive (conn c) then Some (s\<lparr>kern := kern c, accepted := c\<rparr>)
       else do {
         c \<leftarrow> env c;
         let c = upd_conn (AddCloseCallback (Some (DeleteConn (nf_fd n)))) c;
         let c = c\<lparr>connections := (connections c)(nf_fd n \<mapsto> me)\<rparr>;
         let c = conn_onConnect c;
         Some (s\<lparr>kern := kern c, accepted := c\<rparr>)
       }
     }"

text \<open>
  \<^verbatim>\<open>OnRead\<close>; \<open>accept\<close> is \<^verbatim>\<open>onAccept\<close> with its environment, \<open>txt\<close> the text of an error. The retrying
  goroutine is counted and runs on its own, one iteration at a time.
\<close>

definition srv_OnRead ::
    "'k sys \<Rightarrow> 'k sock_sys \<Rightarrow> (nat \<Rightarrow> string option) \<Rightarrow> (error \<Rightarrow> string) \<Rightarrow> (netFD \<Rightarrow> ('f, 'k) server \<Rightarrow> ('f, 'k) server option) \<Rightarrow>
     ('f, 'k) server \<Rightarrow> (error option \<times> ('f, 'k) server) option" where
  "srv_OnRead sys ss ifname txt accept s =
     (let (r, k) = ln_Accept ss ifname (sv_ln s) (kern s);
          s = s\<lparr>kern := k\<rparr>;
          shutdown = (\<lambda>err s. if sublist ''closed'' (txt err)
                              then do { (_, s) \<leftarrow> srv_Control sys [] PollDetach s; Some (Some err, onQuit err s) }
                              else Some (Some err, s))
      in case r of
           Inr None \<Rightarrow> Some (None, s)
         | Inr (Some n) \<Rightarrow> do { s \<leftarrow> accept n s; Some (None, s) }
         | Inl err \<Rightarrow>
             if isOutOfFdErr err
             then do {
               (cerr, s) \<leftarrow> srv_Control sys [] PollDetach s;
               if cerr \<noteq> None then Some (Some err, s)
               else shutdown err (s\<lparr>retrying := Suc (retrying s)\<rparr>)
             }
             else shutdown err s)"

definition retryTimes :: "nat list" where "retryTimes = [0, 10, 50, 100, 200, 500, 1000]"

text \<open>
  One iteration of the retrying goroutine with the index of its waiting time; the new index, or \<open>None\<close>
  when it is done.
\<close>

definition retry_step ::
    "'k sys \<Rightarrow> 'k sock_sys \<Rightarrow> (nat \<Rightarrow> string option) \<Rightarrow> (srv_handler FDOperator \<Rightarrow> srv_handler FDOperator) list \<Rightarrow>
     (netFD \<Rightarrow> ('f, 'k) server \<Rightarrow> ('f, 'k) server option) \<Rightarrow> nat \<Rightarrow> ('f, 'k) server \<Rightarrow> (nat option \<times> ('f, 'k) server) option" where
  "retry_step sys ss ifname env accept i s =
     (let (r, k) = ln_Accept ss ifname (sv_ln s) (kern s); s = s\<lparr>kern := k\<rparr>
      in case r of
           Inr None \<Rightarrow> do { (_, s) \<leftarrow> srv_Control sys env PollReadable s; Some (None, s\<lparr>retrying := retrying s - 1\<rparr>) }
         | Inr (Some n) \<Rightarrow> do { s \<leftarrow> accept n s; Some (Some 0, s) }
         | Inl _ \<Rightarrow> Some (Some (if i + 1 < length retryTimes then i + 1 else i), s))"

definition srv_OnHup :: "('f, 'k) server \<Rightarrow> ('f, 'k) server" where
  "srv_OnHup s = onQuit (EText ''listener close'') s"

subsection \<open>Graceful shutdown\<close>

text \<open>
  The loop of \<^verbatim>\<open>Close\<close> over the connections of a world \<open>'w\<close>: \<open>keys\<close> lists the map in the order of \<^verbatim>\<open>Range\<close>,
  \<open>idle\<close> and \<open>close\<close> are \<^verbatim>\<open>isIdle\<close> and \<^verbatim>\<open>Close\<close> of a connection. The script says, for each wait, what the
  other goroutines do until the timer fires, or that the context is done; when it is used up the
  loop is still waiting.
\<close>

datatype 'w wait = Tick "'w \<Rightarrow> 'w" | CtxDone error

definition waitTime :: "nat \<Rightarrow> nat" where
  "waitTime activeConn = (if activeConn > 1000 then 1000 else if activeConn < 50 then 50 else activeConn)"

fun close_range ::
    "(nat \<Rightarrow> 'w \<Rightarrow> bool) \<Rightarrow> (nat \<Rightarrow> 'w \<Rightarrow> 'w option) \<Rightarrow> (int \<times> nat) list \<Rightarrow> nat \<Rightarrow> 'w \<Rightarrow> (nat \<times> 'w) option" where
  "close_range idle close [] activeConn w = Some (activeConn, w)"
| "close_range idle close ((fd, c) # cs) activeConn w =
     (if idle c w then do { w \<leftarrow> close c w; close_range idle close cs activeConn w }
      else close_range idle close cs (activeConn + 1) w)"

fun close_loop ::
    "(nat \<Rightarrow> 'w \<Rightarrow> bool) \<Rightarrow> (nat \<Rightarrow> 'w \<Rightarrow> 'w option) \<Rightarrow> ('w \<Rightarrow> (int \<times> nat) list) \<Rightarrow> 'w wait list \<Rightarrow> 'w \<Rightarrow>
     (error option \<times> 'w) option" where
  "close_loop idle close keys env w =
     do {
       (activeConn, w) \<leftarrow> close_range idle close (keys w) 0 w;
       if activeConn = 0 then Some (None, w)
       else case env of
              [] \<Rightarrow> None
            | CtxDone e # _ \<Rightarrow> Some (Some e, w)
            | Tick f # env \<Rightarrow> close_loop idle close keys env (f w)
     }"

declare close_loop.simps [simp del]

definition srv_Close ::
    "'k sys \<Rightarrow> (nat \<Rightarrow> ('f, 'k) cstate \<Rightarrow> bool) \<Rightarrow> (nat \<Rightarrow> ('f, 'k) cstate \<Rightarrow> ('f, 'k) cstate option) \<Rightarrow>
     (('f, 'k) cstate \<Rightarrow> (int \<times> nat) list) \<Rightarrow> ('f, 'k) cstate wait list \<Rightarrow> ('f, 'k) server \<Rightarrow>
     (error option \<times> ('f, 'k) server) option" where
  "srv_Close sys idle close keys env s =
     do {
       (_, s) \<leftarrow> srv_Control sys [] PollDetach s;
       let k = ln_Close sys (sv_ln s) (kern s);
       (err, c) \<leftarrow> close_loop idle close keys env ((accepted s)\<lparr>kern := k\<rparr>);
       Some (err, s\<lparr>kern := kern c, accepted := c\<rparr>)
     }"

subsection \<open>What init leaves of a connection\<close>

definition ident :: "'f connection \<Rightarrow> i32 list \<times> 'f callback list \<times> 32 word \<times> bool \<times> int" where
  "ident c = (keychain c, closeCallbacks c, c_closed c, detaching c, c_fd c)"

lemma operator_Control_frame:
  assumes "operator_Control sys env ptr ev s = Some (e, s')"
  shows "pstate.more s' = pstate.more s" "in_heap s' = in_heap s" "out_heap s' = out_heap s"
  using assms unfolding operator_Control_def poll_Control_def Let_def
  by (auto simp: upd_op_def split: bind_splits prod.splits if_splits)

lemma register_frame:
  assumes "conn_register sys txt U fenv oenv s = Some (None, s')"
  shows "conn s' = conn s" "connections s' = connections s"
proof -
  obtain e s1 where c: "operator_Control sys oenv (OpPtr (c_operator (conn s))) PollReadable s = Some (e, s1)"
    using assms by (auto simp: conn_register_def split: bind_splits)
  then have "e = None" "s1 = s'" using assms by (auto simp: conn_register_def split: option.splits bind_splits)
  then have m: "pstate.more s' = pstate.more s" using operator_Control_frame(1) [OF c] by simp
  show "conn s' = conn s" by (rule conn_more [OF m])
  show "connections s' = connections s" using m by (cases s; cases s') simp
qed

lemma onPrepare_frame:
  assumes "conn_onPrepare sys ss txt U fenv oenv opts s = Some (None, s')" "IsActive (conn s)" "lb_IsEmpty (inputBuffer (conn s))"
    and "\<And>opt. opts = Some opt \<Longrightarrow> o_onPrepare opt = None"
  shows "ident (conn s') = ident (conn s)" "connections s' = connections s"
    "opts = Some opt \<Longrightarrow> o_onRequest opt = Some f \<Longrightarrow> onRequestCallback (conn s') = Some f"
    "opts = Some opt \<Longrightarrow> o_onDisconnect opt = None \<Longrightarrow> onDisconnectCallback (conn s') = onDisconnectCallback (conn s)"
proof -
  have "\<exists>s1. conn_onPrepare sys ss txt U fenv oenv opts s = conn_register sys txt U fenv oenv s1 \<and>
      ident (conn s1) = ident (conn s) \<and> connections s1 = connections s \<and>
      (\<forall>opt f. opts = Some opt \<longrightarrow> o_onRequest opt = Some f \<longrightarrow> onRequestCallback (conn s1) = Some f) \<and>
      (\<forall>opt. opts = Some opt \<longrightarrow> o_onDisconnect opt = None \<longrightarrow> onDisconnectCallback (conn s1) = onDisconnectCallback (conn s))"
  proof (cases opts)
    case None
    then show ?thesis using assms(2)
      by (intro exI [of _ "upd_conn (\<lambda>c. c\<lparr>ctx_set := True\<rparr>) s"])
        (simp add: conn_onPrepare_def ident_def upd_conn_def IsActive_def isCloseBy_def)
  next
    case (Some opt)
    define s3 where "s3 = SetOnRequest (o_onRequest opt) (upd_conn (SetOnDisconnect (o_onDisconnect opt)) (upd_conn (SetOnConnect (o_onConnect opt)) s))"
    let ?s5 = "upd_conn (SetWriteTimeout (o_writeTimeout opt)) (upd_conn (SetReadTimeout (o_readTimeout opt)) s3)"
    define s7 where "s7 = upd_conn (\<lambda>c. c\<lparr>ctx_set := True\<rparr>) (snd (SetIdleTimeout ss (o_idleTimeout opt) ?s5))"
    have c3: "keychain (conn s3) = keychain (conn s)" "ident (conn s3) = ident (conn s)" "connections s3 = connections s"
      "o_onRequest opt = Some f \<longrightarrow> onRequestCallback (conn s3) = Some f"
      "o_onDisconnect opt = None \<longrightarrow> onDisconnectCallback (conn s3) = onDisconnectCallback (conn s)" for f
      using assms(3) unfolding s3_def
      by (auto simp: SetOnRequest_def SetOnDisconnect_def SetOnConnect_def upd_conn_def Let_def ident_def)
    have c7: "conn s7 = (SetWriteTimeout (o_writeTimeout opt) (SetReadTimeout (o_readTimeout opt) (conn s3)))\<lparr>ctx_set := True\<rparr>"
      "connections s7 = connections s3"
      unfolding s7_def by (simp_all add: SetIdleTimeout_def upd_conn_def split_beta)
    have "IsActive (conn s7)" using assms(2) c3(1) unfolding c7(1)
      by (simp add: IsActive_def isCloseBy_def SetWriteTimeout_def SetReadTimeout_def)
    then have "conn_onPrepare sys ss txt U fenv oenv opts s = conn_register sys txt U fenv oenv s7"
      using Some assms(4) by (simp add: conn_onPrepare_def s7_def s3_def)
    moreover have "ident (conn s7) = ident (conn s3)" "onRequestCallback (conn s7) = onRequestCallback (conn s3)"
      "onDisconnectCallback (conn s7) = onDisconnectCallback (conn s3)"
      unfolding c7(1) by (simp_all add: ident_def SetWriteTimeout_def SetReadTimeout_def)
    ultimately show ?thesis using c3 c7(2) Some by (intro exI [of _ s7]) simp
  qed
  then obtain s1 where s1: "conn_register sys txt U fenv oenv s1 = Some (None, s')" "ident (conn s1) = ident (conn s)"
    "connections s1 = connections s"
    "\<forall>opt f. opts = Some opt \<longrightarrow> o_onRequest opt = Some f \<longrightarrow> onRequestCallback (conn s1) = Some f"
    "\<forall>opt. opts = Some opt \<longrightarrow> o_onDisconnect opt = None \<longrightarrow> onDisconnectCallback (conn s1) = onDisconnectCallback (conn s)"
    using assms(1) by auto
  note r = register_frame [OF s1(1)]
  show "ident (conn s') = ident (conn s)" "connections s' = connections s"
    "opts = Some opt \<Longrightarrow> o_onRequest opt = Some f \<Longrightarrow> onRequestCallback (conn s') = Some f"
    "opts = Some opt \<Longrightarrow> o_onDisconnect opt = None \<Longrightarrow> onDisconnectCallback (conn s') = onDisconnectCallback (conn s)"
    using s1 r by simp_all
qed

lemma init_frame:
  fixes s :: "('f, 'k) cstate"
  assumes "conn_init g opSize sys ss show_addr txt U fenv oenv (NetConn n) opts s = Some (None, s')" "conn s = zero_connection"
    and op: "\<And>opt. opts = Some opt \<Longrightarrow> o_onPrepare opt = None"
  shows "ident (conn s') = (replicate total 0, [Finalizer], nf_closed n, nf_detaching n, nf_fd n)" "connections s' = connections s"
    "opts = Some opt \<Longrightarrow> o_onRequest opt = Some f \<Longrightarrow> onRequestCallback (conn s') = Some f"
    "opts = Some opt \<Longrightarrow> o_onDisconnect opt = None \<Longrightarrow> onDisconnectCallback (conn s') = None"
proof -
  obtain bi wi where bi: "NewLinkBuffer g (Some (defaultLinkBufferSize g)) (in_heap s) = Some (bi, wi)"
    using assms(1) by (cases "NewLinkBuffer g (Some (defaultLinkBufferSize g)) (in_heap s)") (auto simp: conn_init_def upd_conn_def)
  obtain bo wo where bo: "NewLinkBuffer g None (out_heap s) = Some (bo, wo)"
    using assms(1) bi by (cases "NewLinkBuffer g None (out_heap s)") (auto simp: conn_init_def upd_conn_def)
  obtain br bp where br: "barrierPool_Get (barrierPool s) = (br, bp)" by fastforce
  define c1 :: "'f connection" where "c1 = initNetFD show_addr (NetConn n) (zero_connection\<lparr>readTrigger := [], writeTrigger := [],
      bookSize := defaultLinkBufferSize g, maxSize := defaultLinkBufferSize g, inputBuffer := bi, outputBuffer := bo, outputBarrier := br,
      c_state := connStateNone\<rparr>)"
  define s1 where "s1 = s\<lparr>in_heap := wi, out_heap := wo, barrierPool := bp, conn := c1\<rparr>"
  have run: "conn_init g opSize sys ss show_addr txt U fenv oenv (NetConn n) opts s =
      do { s \<leftarrow> initFDOperator opSize s1; conn_onPrepare sys ss txt U fenv oenv opts (init_sockopts ss (initFinalizer s)) }"
    using bi bo br assms(2) by (simp add: conn_init_def upd_conn_def set_input_def set_output_def s1_def c1_def)
  then obtain s2 where s2: "initFDOperator opSize s1 = Some s2"
    "conn_onPrepare sys ss txt U fenv oenv opts (init_sockopts ss (initFinalizer s2)) = Some (None, s')"
    using assms(1) by (auto split: bind_splits)
  obtain a where a: "conn s2 = c1\<lparr>c_operator := a\<rparr>" "connections s2 = connections s"
    using s2(1) by (auto simp: initFDOperator_def s1_def upd_conn_def split: bind_splits)
  obtain k z where f: "init_sockopts ss (initFinalizer s2) = upd_conn (\<lambda>c. c\<lparr>supportZeroCopy := z\<rparr>) ((initFinalizer s2)\<lparr>kern := k\<rparr>)"
    using init_sockopts_frame [of ss "initFinalizer s2"] by (elim exE)
  let ?s = "init_sockopts ss (initFinalizer s2)"
  have c: "conn ?s = c1\<lparr>c_operator := a, closeCallbacks := Finalizer # closeCallbacks c1, supportZeroCopy := z\<rparr>"
    "connections ?s = connections s"
    unfolding f using a by (simp_all add: initFinalizer_def upd_conn_def AddCloseCallback_def)
  have len: "lb_IsEmpty bi" using bi by (auto simp: NewLinkBuffer_def lb_IsEmpty_def lb_Len_def zero_LinkBuffer_def split: bind_splits)
  have z: "ident (conn ?s) = (replicate total 0, [Finalizer], nf_closed n, nf_detaching n, nf_fd n)"
    "onDisconnectCallback (conn ?s) = None" "IsActive (conn ?s)" "lb_IsEmpty (inputBuffer (conn ?s))"
    unfolding c using len
    by (simp_all add: ident_def c1_def zero_connection_def initNetFD_def IsActive_def isCloseBy_def none_def closing_def total_def)
  note r = onPrepare_frame [OF s2(2) z(3,4) op]
  show "ident (conn s') = (replicate total 0, [Finalizer], nf_closed n, nf_detaching n, nf_fd n)" "connections s' = connections s"
    "opts = Some opt \<Longrightarrow> o_onRequest opt = Some f \<Longrightarrow> onRequestCallback (conn s') = Some f"
    "opts = Some opt \<Longrightarrow> o_onDisconnect opt = None \<Longrightarrow> onDisconnectCallback (conn s') = None"
    using r z c(2) by simp_all
qed

subsection \<open>A connection that hangs up while it is being accepted\<close>

lemma onHup_served:
  assumes ok: "conn_ok g sys left c" and id: "ident (conn c) = (replicate total 0, [Finalizer], 0, False, fd)"
    and cb: "has_callbacks (conn c)" "onDisconnectCallback (conn c) = None" and fd: "2 < fd"
    and op: "op_at (pl c) (OpPtr (c_operator (conn c))) = Some op" "op_state op = 1"
  obtains c' where "onHup sys U fenv oenv c = Some c'" "connections c' = connections c"
    "keychain (conn c') = [poller, 0, 1, 2]" "onConnectCallback (conn c') = onConnectCallback (conn c)"
proof -
  define c1 where "c1 = triggerWrite (Some (Exc ErrConnClosed ''peer close'')) (triggerRead (Some (Exc ErrEOF ''peer close''))
     ((conn c)\<lparr>keychain := [poller, 0, 0, 0]\<rparr>))"
  define c2 where "c2 = c1\<lparr>keychain := [poller, 0, 1, 0]\<rparr>"
  have kc: "keychain (conn c) = [0, 0, 0, 0]" using id by (simp add: ident_def total_def numeral_eq_Suc)
  have cl: "closeBy poller (conn c) = (True, (conn c)\<lparr>keychain := [poller, 0, 0, 0]\<rparr>)"
    by (simp add: closeBy_def CompareAndSwap_def kc closing_def)
  have c1: "keychain c1 = [poller, 0, 0, 0]" "onDisconnectCallback c1 = None"
    "onConnectCallback c1 = onConnectCallback (conn c)" "onRequestCallback c1 = onRequestCallback (conn c)"
    using cb by (simp_all add: c1_def triggerRead_def triggerWrite_def)
  have lk: "lock processing c1 = (True, c2)" by (simp add: lock_def CompareAndSwap_def c1 c2_def processing_def)
  have c2: "core c2 = core (conn c)" "closeCallbacks c2 = [Finalizer]" "keychain c2 = [poller, 0, 1, 0]" "c_closed c2 = 0" "\<not> detaching c2"
    "onConnectCallback c2 = onConnectCallback (conn c)"
    using id c1 by (simp_all add: c2_def c1_def triggerRead_def triggerWrite_def core_def ident_def)
  have "onHup sys U fenv oenv c = closeCallback sys U fenv oenv True False (c\<lparr>conn := c1\<rparr>)"
    using cb(1) c1 by (auto simp: onHup_def cl upd_conn_def c1_def [symmetric] onDisconnect_def has_callbacks_def)
  then have run: "onHup sys U fenv oenv c = run_callbacks sys U fenv oenv [Finalizer] (c\<lparr>conn := c2\<rparr>)"
    by (simp add: closeCallback_def lk c2)
  obtain fs used where cache: "cache_inv (opcache (pl c)) fs used" "c_operator (conn c) \<in> used" using ok by (auto simp: conn_ok_def)
  have e: "c_operator c2 = c_operator (conn c)" "c_fd c2 = c_fd (conn c)" "inputBuffer c2 = inputBuffer (conn c)"
    "outputBuffer c2 = outputBuffer (conn c)" using c2(1) by (simp_all add: core_def)
  obtain c' where c': "finalizer sys fenv oenv (c\<lparr>conn := c2\<rparr>) = Some c'"
    "closed_from (c2\<lparr>keychain := (keychain c2)[flushing := 2], c_closed := 1\<rparr>) (conn c')" "connections c' = connections c"
    by (rule finalizer_ok [of "c\<lparr>conn := c2\<rparr>" fs used op sys fenv oenv])
      (use cache op fd id ok e c2 in \<open>auto simp: flushing_def conn_ok_def ident_def\<close>)
  show thesis
    by (rule that [of c']) (use run c' c2 in \<open>auto simp: closed_from_def flushing_def\<close>)
qed

lemma onConnect_locked:
  assumes "keychain (conn c) = [poller, 0, 1, 2]"
  shows "keychain (conn (conn_onConnect c)) ! processing = 1" "keychain (conn (conn_onConnect c)) ! closing = poller"
    "connections (conn_onConnect c) = connections c"
  using assms
  by (auto simp: conn_onConnect_def upd_conn_def changeState_def lock_def CompareAndSwap_def onProcess_def processing_def
      connecting_def closing_def split: option.splits)

text \<open>As long as the only connection of the map is not idle, \<^verbatim>\<open>Close\<close> goes on waiting.\<close>

lemma close_range_busy:
  "(\<And>x. x \<in> set cs \<Longrightarrow> \<not> idle (snd x) w) \<Longrightarrow> close_range idle close cs m w = Some (m + length cs, w)"
proof (induction cs arbitrary: m)
  case (Cons x cs)
  then have "\<not> idle (snd x) w" "close_range idle close cs (Suc m) w = Some (Suc m + length cs, w)" by simp_all
  then show ?case by (cases x) simp
qed simp

lemma close_loop_waits:
  assumes "keys w \<noteq> []" "\<And>x. x \<in> set (keys w) \<Longrightarrow> \<not> idle (snd x) w"
  shows "close_loop idle close keys (replicate m (Tick id)) w = None"
  by (induction m) (use assms close_range_busy [of "keys w" idle w close 0] in \<open>simp_all add: close_loop.simps\<close>)

text \<open>
  C36: a connection is lost when it hangs up while it is being accepted. \<^verbatim>\<open>onAccept\<close> tests that the new
  connection is active and then adds the callback that removes it from the map. When the poller
  reports the hang-up in between, it has run the close callbacks without that one and keeps the
  processing lock: the closed connection is stored and stays in the map, it never becomes idle, and
  \<^verbatim>\<open>Close\<close> of the server waits for it for as long as its context allows.
\<close>
theorem accept_race:
  assumes "mcache_ok g" "kernel_ok sys left" "0 < defaultLinkBufferSize g" "defaultLinkBufferSize g < MaxInt32"
    and "world_ok (in_heap (accepted s)) own" "world_ok (out_heap (accepted s)) own'"
    and "cache_inv (opcache (pl (accepted s))) fs used"
    and "length (op_cache (opcache (pl (accepted s)))) + alloc_count opSize < 2 ^ 31" "idle_cache (opcache (pl (accepted s)))"
    and opts: "sv_opts s = Some opt" "o_onPrepare opt = None" "o_onDisconnect opt = None" "o_onRequest opt = Some f"
    and ctl: "\<And>evt k. fst (EpollCtl sys (poll_fd (pl (accepted s))) EPOLL_CTL_ADD (nf_fd n) evt k) = None"
    and n: "nf_closed n = 0" "\<not> nf_detaching n" "2 < nf_fd n"
    and keys: "connections (accepted s) = Map.empty" "\<And>c. finite (dom (connections c)) \<Longrightarrow> set (keys c) = Map.graph (connections c)"
  shows "\<exists>s'. onAccept g opSize sys ss show_addr txt U fenv oenv (onHup sys U fenv oenv) me n s = Some s' \<and>
    connections (accepted s') = [nf_fd n \<mapsto> me] \<and> \<not> IsActive (conn (accepted s')) \<and>
    (\<forall>m. close_loop (\<lambda>_. isIdle) (\<lambda>_. conn_Close sys U fenv oenv) keys (replicate m (Tick id)) (accepted s') = None)"
proof -
  let ?c0 = "(accepted s)\<lparr>kern := kern s, conn := zero_connection\<rparr>"
  have "\<exists>c. conn_init g opSize sys ss show_addr txt U fenv oenv (NetConn n) (sv_opts s) ?c0 = Some (None, c) \<and> conn_ok g sys left c \<and>
    IsActive (conn c) \<and> lb_Len (inputBuffer (conn c)) = 0 \<and> lb_Len (outputBuffer (conn c)) = 0 \<and>
    (\<exists>op. op_at (pl c) (OpPtr (c_operator (conn c))) = Some op \<and> op_state op = 1 \<and> conn_op (conn c) op)"
    by (rule conn_init_ok [OF assms(1-4), where own = own and own' = own' and fs = fs and used = used])
      (use assms(5-9) opts ctl in \<open>simp_all add: conn_fd_def\<close>)
  then obtain c op where c: "conn_init g opSize sys ss show_addr txt U fenv oenv (NetConn n) (sv_opts s) ?c0 = Some (None, c)"
    "conn_ok g sys left c" "IsActive (conn c)" "op_at (pl c) (OpPtr (c_operator (conn c))) = Some op" "op_state op = 1"
    "conn_op (conn c) op" by blast
  have fr: "ident (conn c) = (replicate total 0, [Finalizer], nf_closed n, nf_detaching n, nf_fd n)" "connections c = Map.empty"
    "onRequestCallback (conn c) = Some f" "onDisconnectCallback (conn c) = None"
    using init_frame [OF c(1)] opts keys(1) by auto
  obtain c1 where c1: "onHup sys U fenv oenv c = Some c1" "connections c1 = connections c" "keychain (conn c1) = [poller, 0, 1, 2]"
    by (rule onHup_served [OF c(2) _ _ fr(4) _ c(4,5)]) (use fr n in \<open>auto simp: has_callbacks_def\<close>)
  let ?c2 = "(upd_conn (AddCloseCallback (Some (DeleteConn (nf_fd n)))) c1)\<lparr>connections := [nf_fd n \<mapsto> me]\<rparr>"
  let ?c3 = "conn_onConnect ?c2"
  have run: "onAccept g opSize sys ss show_addr txt U fenv oenv (onHup sys U fenv oenv) me n s =
      Some (s\<lparr>kern := kern ?c3, accepted := ?c3\<rparr>)"
    using c(1,3) c1 fr(2) by (simp add: onAccept_def upd_conn_def Let_def)
  have "keychain (conn ?c2) = [poller, 0, 1, 2]" using c1(3) by (simp add: upd_conn_def AddCloseCallback_def)
  note l = onConnect_locked [OF this]
  have cs: "connections ?c3 = [nf_fd n \<mapsto> me]" using l(3) by simp
  have busy: "\<not> isIdle ?c3" using l(1) by (simp add: isIdle_def isUnlock_def)
  have "set (keys ?c3) = {(nf_fd n, me)}" using keys(2) [of ?c3] cs by (auto simp: Map.graph_def split: if_splits)
  then have "close_loop (\<lambda>_. isIdle) (\<lambda>_. conn_Close sys U fenv oenv) keys (replicate m (Tick id)) ?c3 = None" for m
    by (intro close_loop_waits) (use busy in auto)
  moreover have "\<not> IsActive (conn ?c3)" using l(2) by (simp add: IsActive_def isCloseBy_def poller_def none_def)
  ultimately show ?thesis using run cs by auto
qed

text \<open>The map of connections in the order of the descriptors.\<close>

definition ex_keys :: "('f, 'k) cstate \<Rightarrow> (int \<times> nat) list" where
  "ex_keys c = map (\<lambda>fd. (fd, the (connections c fd))) (sorted_list_of_set (dom (connections c)))"

lemma ex_keys_graph: "finite (dom (connections c)) \<Longrightarrow> set (ex_keys c) = Map.graph (connections c)"
  by (auto simp: ex_keys_def Map.graph_def image_iff)

definition ex_server :: "(nat, byte list \<times> byte list) server" where
  "ex_server = \<lparr>in_heap = ex_empty_world, out_heap = ex_empty_world, kern = ([], []), pl = zero_poll 1, hup_tasks = [], sv_op = 0,
     sv_ln = \<lparr>l_fd = 4, l_addr = NetUnixAddr ''unix'' ''s'', l_ln = None, l_pconn = None, l_file = Some 4\<rparr>,
     sv_opts = Some (zero_options\<lparr>o_onRequest := Some 0\<rparr>), accepted = ex_blank, quits = [], retrying = 0\<rparr>"

theorem accept_race_witness:
  "\<exists>s'. onAccept ex_globals 256 ex_sys ex_sockets (\<lambda>_. ''peer'') (\<lambda>_. '''') (\<lambda>_ _. None) [] [] (onHup ex_sys (\<lambda>_ _. None) [] [])
      7 (zero_netFD\<lparr>nf_fd := 5\<rparr>) ex_server = Some s' \<and> connections (accepted s') = [5 \<mapsto> 7] \<and> \<not> IsActive (conn (accepted s'))"
proof -
  have ok: "world_ok (ex_empty_world\<lparr>nodes := Map.empty\<rparr>) {}" by (simp add: world_ok_def ex_empty_world_def refs_def)
  have "\<exists>s'. onAccept ex_globals 256 ex_sys ex_sockets (\<lambda>_. ''peer'') (\<lambda>_. '''') (\<lambda>_ _. None) [] [] (onHup ex_sys (\<lambda>_ _. None) [] [])
      7 (zero_netFD\<lparr>nf_fd := 5\<rparr>) ex_server = Some s' \<and>
    connections (accepted s') = [nf_fd (zero_netFD\<lparr>nf_fd := 5\<rparr>) \<mapsto> 7] \<and> \<not> IsActive (conn (accepted s')) \<and>
    (\<forall>m. close_loop (\<lambda>_. isIdle) (\<lambda>_. conn_Close ex_sys (\<lambda>_ _. None) [] []) ex_keys (replicate m (Tick id)) (accepted s') = None)"
    by (rule accept_race [OF ex_mcache ex_kernel, where own = "{}" and own' = "{}" and fs = "[]" and used = "{}" and f = 0
      and opt = "zero_options\<lparr>o_onRequest := Some 0\<rparr>"])
      (simp_all add: ok ex_server_def ex_blank_def ex_globals_def MaxInt32_def zero_poll_def new_cache_inv [unfolded newOperatorCache_def]
        idle_cache_def newOperatorCache_def alloc_count_def ex_sys_def zero_netFD_def zero_options_def ex_keys_graph)
  then show ?thesis by auto
qed

subsection \<open>Running out of descriptors\<close>

text \<open>The poller reports the listener \<open>m\<close> times, as a level-triggered poller does while a connection waits.\<close>

fun reports ::
    "'k sys \<Rightarrow> 'k sock_sys \<Rightarrow> (nat \<Rightarrow> string option) \<Rightarrow> (error \<Rightarrow> string) \<Rightarrow> (netFD \<Rightarrow> ('f, 'k) server \<Rightarrow> ('f, 'k) server option) \<Rightarrow>
     nat \<Rightarrow> ('f, 'k) server \<Rightarrow> ('f, 'k) server option" where
  "reports sys ss ifname txt accept 0 s = Some s"
| "reports sys ss ifname txt accept (Suc m) s =
     do { (_, s) \<leftarrow> srv_OnRead sys ss ifname txt accept s; reports sys ss ifname txt accept m s }"

lemma sint_inc: "sint (x :: i32) < 2 ^ 31 - 1 \<Longrightarrow> sint (x + 1) = sint x + 1"
  using sint_greater_eq [of x] by (simp add: sint_word_ariths signed_take_bit_int_eq_self)

lemma OnRead_again:
  assumes op: "op_at (pl s) (OpPtr (sv_op s)) = Some op" "1 \<le> sint (detached op)" "sint (detached op) < 2 ^ 31 - 1"
    and acc: "l_pconn (sv_ln s) = None" "\<And>k. sys_accept ss (l_fd (sv_ln s)) k = (Inl EMFILE, k)"
    and tx: "\<not> sublist ''closed'' (txt (Errno EMFILE))"
  shows "srv_OnRead sys ss ifname txt accept s = Some (Some (Errno EMFILE),
    (upd_op (OpPtr (sv_op s)) (op\<lparr>detached := detached op + 1\<rparr>) s)\<lparr>retrying := Suc (retrying s)\<rparr>)"
proof -
  have "op_Control (\<lambda>_. None) PollDetach op = Some (None, False, op\<lparr>detached := detached op + 1\<rparr>)"
    using sint_inc [OF op(3)] op(2) by (simp add: op_Control_def)
  then have "srv_Control sys [] PollDetach s = Some (None, upd_op (OpPtr (sv_op s)) (op\<lparr>detached := detached op + 1\<rparr>) s)"
    using op(1) by (simp add: srv_Control_def operator_Control_def)
  moreover have "ln_Accept ss ifname (sv_ln s) (kern s) = (Inl (Errno EMFILE), kern s)"
    using acc by (simp add: ln_Accept_def EMFILE_def EAGAIN_def)
  ultimately show ?thesis using tx by (simp add: srv_OnRead_def isOutOfFdErr_def upd_op_def)
qed

text \<open>
  C39: the retries pile up when descriptors run out again. The listener is taken out of the poller by
  a detach, which reaches the kernel only the first time. Once that has happened and the listener is
  registered again, each report of the poller that finds no free descriptor starts one more retrying
  goroutine and makes no system call, so the listener stays registered and is reported again.
\<close>
theorem emfile_retries_pile_up:
  assumes "op_at (pl s) (OpPtr (sv_op s)) = Some op" "1 \<le> sint (detached op)" "sint (detached op) + int m < 2 ^ 31"
    and "l_pconn (sv_ln s) = None" "\<And>k. sys_accept ss (l_fd (sv_ln s)) k = (Inl EMFILE, k)"
    and "\<not> sublist ''closed'' (txt (Errno EMFILE))"
  shows "\<exists>s'. reports sys ss ifname txt accept m s = Some s' \<and> retrying s' = retrying s + m \<and> kern s' = kern s"
  using assms(1-5)
proof (induction m arbitrary: s op)
  case (Suc m)
  let ?op = "op\<lparr>detached := detached op + 1\<rparr>"
  let ?s = "(upd_op (OpPtr (sv_op s)) ?op s)\<lparr>retrying := Suc (retrying s)\<rparr>"
  have l: "sint (detached op) < 2 ^ 31 - 1" using Suc.prems(3) by simp
  have step: "srv_OnRead sys ss ifname txt accept s = Some (Some (Errno EMFILE), ?s)"
    by (rule OnRead_again [OF Suc.prems(1,2) l Suc.prems(4)]) (rule Suc.prems(5), rule assms(6))
  have "\<exists>s'. reports sys ss ifname txt accept m ?s = Some s' \<and> retrying s' = retrying ?s + m \<and> kern s' = kern ?s"
    by (rule Suc.IH [of ?s ?op])
      (use Suc.prems sint_inc [OF l] in \<open>simp_all add: upd_op_def set_op_def op_at_def\<close>)
  then show ?case using step by (auto simp: upd_op_def)
qed simp

theorem emfile_retries_pile_up_witness:
  "\<exists>s'. reports ex_sys (ex_sockets\<lparr>sys_accept := \<lambda>_ k. (Inl EMFILE, k)\<rparr>) (\<lambda>_. None) (\<lambda>_. ''too many open files'') (\<lambda>_ _. None) 1000
     (ex_server\<lparr>pl := set_op (OpPtr 0) (zero_FDOperator\<lparr>detached := 1\<rparr>) (pl ex_server)\<rparr>) = Some s' \<and> retrying s' = 1000"
proof -
  let ?s = "ex_server\<lparr>pl := set_op (OpPtr 0) (zero_FDOperator\<lparr>detached := 1\<rparr>) (pl ex_server)\<rparr>"
  have "\<exists>s'. reports ex_sys (ex_sockets\<lparr>sys_accept := \<lambda>_ k. (Inl EMFILE, k)\<rparr>) (\<lambda>_. None) (\<lambda>_. ''too many open files'') (\<lambda>_ _. None) 1000
      ?s = Some s' \<and> retrying s' = retrying ?s + 1000 \<and> kern s' = kern ?s"
    by (rule emfile_retries_pile_up [of _ "zero_FDOperator\<lparr>detached := 1\<rparr>"])
      (simp_all add: ex_server_def set_op_def op_at_def sublist_code)
  then show ?thesis by (auto simp: ex_server_def)
qed

end
