(* ===== verification/EventLoop.thy ===== *)
theory EventLoop
  imports Errors Options
begin

section \<open>The event loop (netpoll\_unix.go)\<close>

text \<open>
  The event loop runs a server and a manager of named pipes, waits until both have stopped and shuts
  them down. Its fields are guarded by a mutex; the channel \<^verbatim>\<open>stop\<close> has room for one value. The calls
  of any number of goroutines are interleaved; what the server and the manager return is arbitrary.
\<close>

subsection \<open>State and bodies\<close>

text \<open>
  \<open>mu\<close> is the goroutine that holds the mutex; \<open>svr\<close> and \<open>fifoManager\<close> say whether the pointers are set. The
  options, which the loop only hands on to the server and the manager, are made by \<open>evl_options\<close>.
\<close>

record eventLoop =
  mu :: "nat option"
  svr :: bool
  fifoManager :: bool
  stop_chan :: "error option list"
  svrRunning :: bool
  fifoRunning :: bool
  forceQuit :: bool

definition evl_options :: "'f option \<Rightarrow> 'f Option list \<Rightarrow> 'f options" where
  "evl_options onRequest ops = fold (\<lambda>f opts. f opts) ops (zero_options\<lparr>o_onRequest := onRequest\<rparr>)"

definition NewEventLoop :: eventLoop where
  "NewEventLoop = \<lparr>mu = None, svr = False, fifoManager = False, stop_chan = [], svrRunning = False, fifoRunning = False,
     forceQuit = False\<rparr>"

definition Serve_start :: "eventLoop \<Rightarrow> eventLoop" where
  "Serve_start e = e\<lparr>svr := True, svrRunning := True\<rparr>"

definition ServeAll_start :: "eventLoop \<Rightarrow> eventLoop" where
  "ServeAll_start e = e\<lparr>svr := True, svrRunning := True, fifoManager := True, fifoRunning := True\<rparr>"

definition ServeFifo_start :: "eventLoop \<Rightarrow> eventLoop" where
  "ServeFifo_start e = e\<lparr>fifoManager := True, fifoRunning := True\<rparr>"

definition Shutdown_start :: "eventLoop \<Rightarrow> eventLoop" where
  "Shutdown_start e = e\<lparr>forceQuit := True, svr := False, fifoManager := False, svrRunning := False, fifoRunning := False\<rparr>"

definition quit :: "error option \<Rightarrow> eventLoop \<Rightarrow> eventLoop" where
  "quit err e = (if length (stop_chan e) < 1 then e\<lparr>stop_chan := stop_chan e @ [err]\<rparr> else e)"

definition checkQuit :: "error option \<Rightarrow> eventLoop \<Rightarrow> eventLoop" where
  "checkQuit err e = (if forceQuit e \<or> (\<not> svrRunning e \<and> \<not> fifoRunning e) then quit err e else e)"

definition onServerQuit :: "error option \<Rightarrow> eventLoop \<Rightarrow> eventLoop" where
  "onServerQuit err e = checkQuit err (e\<lparr>svrRunning := False\<rparr>)"

definition onFifoManagerQuit :: "error option \<Rightarrow> eventLoop \<Rightarrow> eventLoop" where
  "onFifoManagerQuit err e = checkQuit err (e\<lparr>fifoRunning := False\<rparr>)"

definition GetFifoManager :: "eventLoop \<Rightarrow> error option" where
  "GetFifoManager e = (if \<not> fifoManager e then Some (EText ''fifo manager not initialized'') else None)"

text \<open>How \<^verbatim>\<open>Shutdown\<close> combines the two errors; the text that wraps both is left out.\<close>

definition combine :: "error option \<Rightarrow> error option \<Rightarrow> error option" where
  "combine svrErr fifoErr =
     (if svrErr = None \<and> fifoErr = None then None
      else if svrErr = None then fifoErr
      else if fifoErr = None then svrErr
      else Some (EText ''failed to close server and fifo manager''))"

subsection \<open>Goroutines\<close>

datatype evl_call = Serve | ServeAll | ServeFifo | Shutdown | GetManager

datatype component = TheServer | TheFifoManager

text \<open>
  Where a goroutine is: before the mutex of a call, in \<^verbatim>\<open>svr.Run\<close> with the mutex held, before the mutex of
  \<^verbatim>\<open>onServerQuit\<close> or \<^verbatim>\<open>onFifoManagerQuit\<close> with the place it returns to, before the unlock of \<^verbatim>\<open>Serve\<close>, in
  \<^verbatim>\<open>waitQuit\<close>, in the parts of \<^verbatim>\<open>Shutdown\<close> after the mutex, or returned with a result.
\<close>

datatype evl_pc =
    AtLock evl_call
  | InRun
  | AtQuit component "error option" evl_pc
  | AtUnlock
  | InWaitQuit
  | Closing bool bool
  | ClosingFifo "error option" bool
  | Quitting "error option" "error option"
  | Returned "error option"

definition component_quit :: "component \<Rightarrow> error option \<Rightarrow> eventLoop \<Rightarrow> eventLoop" where
  "component_quit c err = (case c of TheServer \<Rightarrow> onServerQuit err | TheFifoManager \<Rightarrow> onFifoManagerQuit err)"

text \<open>
  A section between \<^verbatim>\<open>Lock\<close> and \<^verbatim>\<open>Unlock\<close> that calls nothing is one step. \<open>poller\<close> is a call of \<^verbatim>\<open>onQuit\<close> by
  the server from a handler of its poller.
\<close>

inductive evl_step :: "eventLoop \<times> (nat \<Rightarrow> evl_pc option) \<Rightarrow> eventLoop \<times> (nat \<Rightarrow> evl_pc option) \<Rightarrow> bool" where
  call: "ps i = None \<Longrightarrow> evl_step (e, ps) (e, ps(i \<mapsto> AtLock c))"
| convert: "ps i = None \<Longrightarrow> evl_step (e, ps) (e, ps(i \<mapsto> Returned (Some err)))"
| serve: "ps i = Some (AtLock Serve) \<Longrightarrow> mu e = None \<Longrightarrow> evl_step (e, ps) ((Serve_start e)\<lparr>mu := Some i\<rparr>, ps(i \<mapsto> InRun))"
| serve_all: "ps i = Some (AtLock ServeAll) \<Longrightarrow> mu e = None \<Longrightarrow>
    evl_step (e, ps) ((ServeAll_start e)\<lparr>mu := Some i\<rparr>, ps(i \<mapsto> InRun))"
| serve_fifo: "ps i = Some (AtLock ServeFifo) \<Longrightarrow> mu e = None \<Longrightarrow> evl_step (e, ps) (ServeFifo_start e, ps(i \<mapsto> InWaitQuit))"
| shutdown: "ps i = Some (AtLock Shutdown) \<Longrightarrow> mu e = None \<Longrightarrow>
    evl_step (e, ps) (Shutdown_start e, ps(i \<mapsto> Closing (svr e) (fifoManager e)))"
| get_manager: "ps i = Some (AtLock GetManager) \<Longrightarrow> mu e = None \<Longrightarrow> evl_step (e, ps) (e, ps(i \<mapsto> Returned (GetFifoManager e)))"
| run_ok: "ps i = Some InRun \<Longrightarrow> evl_step (e, ps) (e, ps(i \<mapsto> AtUnlock))"
| run_fails: "ps i = Some InRun \<Longrightarrow> evl_step (e, ps) (e, ps(i \<mapsto> AtQuit TheServer (Some err) AtUnlock))"
| unlock: "ps i = Some AtUnlock \<Longrightarrow> evl_step (e, ps) (e\<lparr>mu := None\<rparr>, ps(i \<mapsto> InWaitQuit))"
| poller: "ps i = None \<Longrightarrow> evl_step (e, ps) (e, ps(i \<mapsto> AtQuit TheServer (Some err) (Returned None)))"
| on_quit: "ps i = Some (AtQuit c err k) \<Longrightarrow> mu e = None \<Longrightarrow> evl_step (e, ps) (component_quit c err e, ps(i \<mapsto> k))"
| wait_quit: "ps i = Some InWaitQuit \<Longrightarrow> stop_chan e = r # rs \<Longrightarrow> evl_step (e, ps) (e\<lparr>stop_chan := rs\<rparr>, ps(i \<mapsto> Returned r))"
| close_server: "ps i = Some (Closing sv ff) \<Longrightarrow> sv \<or> err = None \<Longrightarrow> evl_step (e, ps) (e, ps(i \<mapsto> ClosingFifo err ff))"
| close_fifo: "ps i = Some (ClosingFifo svrErr True) \<Longrightarrow>
    evl_step (e, ps) (e, ps(i \<mapsto> AtQuit TheFifoManager err (Quitting svrErr err)))"
| no_fifo: "ps i = Some (ClosingFifo svrErr False) \<Longrightarrow> evl_step (e, ps) (e, ps(i \<mapsto> Quitting svrErr None))"
| quit: "ps i = Some (Quitting svrErr fifoErr) \<Longrightarrow>
    evl_step (e, ps) (quit None e, ps(i \<mapsto> Returned (combine svrErr fifoErr)))"

definition evl_reachable :: "eventLoop \<times> (nat \<Rightarrow> evl_pc option) \<Rightarrow> bool" where
  "evl_reachable c \<longleftrightarrow> evl_step\<^sup>*\<^sup>* (NewEventLoop, Map.empty) c"

subsection \<open>Invariant\<close>

text \<open>The places where the mutex is held, and those that only \<^verbatim>\<open>Shutdown\<close> reaches.\<close>

fun holds :: "evl_pc \<Rightarrow> bool" where
  "holds InRun = True"
| "holds AtUnlock = True"
| "holds (AtQuit _ _ k) = holds k"
| "holds _ = False"

fun shutting :: "evl_pc \<Rightarrow> bool" where
  "shutting (Closing _ _) = True"
| "shutting (ClosingFifo _ _) = True"
| "shutting (Quitting _ _) = True"
| "shutting (AtQuit _ _ k) = shutting k"
| "shutting _ = False"

definition evl_inv :: "eventLoop \<times> (nat \<Rightarrow> evl_pc option) \<Rightarrow> bool" where
  "evl_inv c \<longleftrightarrow> (case c of (e, ps) \<Rightarrow>
     (\<forall>i p. ps i = Some p \<longrightarrow> holds p \<longrightarrow> mu e = Some i) \<and>
     (\<forall>i. mu e = Some i \<longrightarrow> (\<exists>p. ps i = Some p \<and> holds p)) \<and>
     (\<forall>i p. ps i = Some p \<longrightarrow> shutting p \<longrightarrow> forceQuit e) \<and> length (stop_chan e) \<le> 1)"

lemmas evl_defs = Serve_start_def ServeAll_start_def ServeFifo_start_def Shutdown_start_def quit_def checkQuit_def
  onServerQuit_def onFifoManagerQuit_def component_quit_def

lemma quits_frame [simp]:
  "mu (quit err e) = mu e" "forceQuit (quit err e) = forceQuit e" "mu (component_quit c err e) = mu e"
  "forceQuit (component_quit c err e) = forceQuit e"
  by (simp_all add: evl_defs split: component.splits)

lemma quits_room: "length (stop_chan e) \<le> 1 \<Longrightarrow> length (stop_chan (quit err e)) \<le> 1"
  "length (stop_chan e) \<le> 1 \<Longrightarrow> length (stop_chan (component_quit c err e)) \<le> 1"
  by (auto simp: evl_defs split: component.splits)

lemma evl_invD:
  assumes "evl_inv (e, ps)"
  shows "ps i = Some p \<Longrightarrow> mu e = Some i \<longleftrightarrow> holds p" "ps i = None \<Longrightarrow> mu e \<noteq> Some i"
    "ps i = Some p \<Longrightarrow> shutting p \<Longrightarrow> forceQuit e" "length (stop_chan e) \<le> 1"
proof -
  have a: "\<And>i p. ps i = Some p \<Longrightarrow> holds p \<Longrightarrow> mu e = Some i" and b: "\<And>i. mu e = Some i \<Longrightarrow> \<exists>p. ps i = Some p \<and> holds p"
    and "\<And>i p. ps i = Some p \<Longrightarrow> shutting p \<Longrightarrow> forceQuit e" "length (stop_chan e) \<le> 1"
    using assms unfolding evl_inv_def case_prod_conv by blast+
  then show "ps i = Some p \<Longrightarrow> shutting p \<Longrightarrow> forceQuit e" "length (stop_chan e) \<le> 1" by blast+
  show "ps i = Some p \<Longrightarrow> mu e = Some i \<longleftrightarrow> holds p" using a [of i p] b [of i] by (metis option.inject)
  show "ps i = None \<Longrightarrow> mu e \<noteq> Some i" using b [of i] by auto
qed

lemma evl_inv_upd:
  assumes "evl_inv (e, ps)" "mu e' = (if holds p then Some i else if mu e = Some i then None else mu e)"
    "holds p \<Longrightarrow> mu e = None \<or> mu e = Some i" "shutting p \<Longrightarrow> forceQuit e'" "forceQuit e \<Longrightarrow> forceQuit e'"
    "length (stop_chan e') \<le> 1"
  shows "evl_inv (e', ps(i \<mapsto> p))"
proof -
  have "mu e' = Some j" if "(ps(i \<mapsto> p)) j = Some q" "holds q" for j q
    using that assms(2,3) evl_invD(1) [OF assms(1), of j q] by (cases "j = i") auto
  moreover have "\<exists>q. (ps(i \<mapsto> p)) j = Some q \<and> holds q" if "mu e' = Some j" for j
    using that assms(1,2) by (cases "j = i") (auto simp: evl_inv_def split: if_splits)
  moreover have "forceQuit e'" if "(ps(i \<mapsto> p)) j = Some q" "shutting q" for j q
    using that assms(4,5) evl_invD(3) [OF assms(1), of j q] by (cases "j = i") auto
  ultimately show ?thesis using assms(6) unfolding evl_inv_def case_prod_conv by blast
qed

lemmas start_defs = Serve_start_def ServeAll_start_def ServeFifo_start_def Shutdown_start_def

text \<open>A step that neither takes nor gives back the mutex.\<close>

lemma evl_inv_keep:
  assumes inv: "evl_inv (e, ps)"
    and "case ps i of None \<Rightarrow> \<not> holds p \<and> \<not> shutting p | Some q \<Rightarrow> holds p = holds q \<and> (shutting p \<longrightarrow> shutting q)"
    and "mu e' = mu e" "forceQuit e' = forceQuit e" "length (stop_chan e) \<le> 1 \<Longrightarrow> length (stop_chan e') \<le> 1"
  shows "evl_inv (e', ps(i \<mapsto> p))"
  by (rule evl_inv_upd [OF inv])
    (use assms evl_invD(1-3) [OF inv, of i] evl_invD(4) [OF inv] in \<open>auto split: option.splits\<close>)

lemma evl_step_inv: "evl_step c c' \<Longrightarrow> evl_inv c \<Longrightarrow> evl_inv c'"
proof (induction rule: evl_step.induct)
  case (serve ps i e)
  note inv = evl_invD(1-3) [OF serve(3), of i] evl_invD(4) [OF serve(3)]
  show ?case by (rule evl_inv_upd [OF serve(3)]) (use serve inv in \<open>auto simp: start_defs\<close>)
next
  case (serve_all ps i e)
  note inv = evl_invD(1-3) [OF serve_all(3), of i] evl_invD(4) [OF serve_all(3)]
  show ?case by (rule evl_inv_upd [OF serve_all(3)]) (use serve_all inv in \<open>auto simp: start_defs\<close>)
next
  case (shutdown ps i e)
  note inv = evl_invD(1-3) [OF shutdown(3), of i] evl_invD(4) [OF shutdown(3)]
  show ?case by (rule evl_inv_upd [OF shutdown(3)]) (use shutdown inv in \<open>auto simp: start_defs\<close>)
next
  case (unlock ps i e)
  note inv = evl_invD(1-3) [OF unlock(2), of i] evl_invD(4) [OF unlock(2)]
  show ?case by (rule evl_inv_upd [OF unlock(2)]) (use unlock inv in \<open>auto simp: start_defs\<close>)
qed (erule evl_inv_keep, auto simp: start_defs intro: quits_room [simplified])+

lemma evl_reachable_inv:
  assumes "evl_reachable c"
  shows "evl_inv c"
proof -
  have "evl_step\<^sup>*\<^sup>* (NewEventLoop, Map.empty) c \<Longrightarrow> evl_inv c"
  proof (induction rule: rtranclp_induct)
    case base
    then show ?case by (simp add: evl_inv_def NewEventLoop_def)
  next
    case (step c c')
    then show ?case using evl_step_inv by blast
  qed
  then show ?thesis using assms by (simp add: evl_reachable_def)
qed

subsection \<open>Serve when the listener cannot be registered\<close>

definition stuck :: "nat \<Rightarrow> evl_pc \<Rightarrow> eventLoop \<times> (nat \<Rightarrow> evl_pc option) \<Rightarrow> bool" where
  "stuck i p c \<longleftrightarrow> evl_inv c \<and> snd c i = Some p \<and> holds p \<and> (\<exists>w err k. p = AtQuit w err k)"

lemma stuck_step:
  assumes "evl_step c c'" "stuck i p c"
  shows "stuck i p c' \<and> (\<forall>j a. snd c j = Some (AtLock a) \<longrightarrow> snd c' j = Some (AtLock a))"
proof -
  have inv: "evl_inv c" and p: "snd c i = Some p" "holds p" and q: "\<exists>w err k. p = AtQuit w err k"
    using assms(2) by (simp_all add: stuck_def)
  obtain e ps where c: "c = (e, ps)" by fastforce
  have mu: "mu e = Some i" using evl_invD(1) [OF inv [unfolded c], of i p] p c by simp
  have un: "ps j = Some AtUnlock \<Longrightarrow> False" "ps j = Some InRun \<Longrightarrow> False" for j
    using evl_invD(1) [OF inv [unfolded c], of j] mu p(1) q c by auto
  from assms(1) c mu p(1) q un
  have "snd c' i = Some p" "\<forall>j a. snd c j = Some (AtLock a) \<longrightarrow> snd c' j = Some (AtLock a)"
    by (cases rule: evl_step.cases; auto)+
  then show ?thesis using evl_step_inv [OF assms(1) inv] p(2) q by (simp add: stuck_def)
qed

text \<open>
  C38: \<^verbatim>\<open>Serve\<close> deadlocks when the listener cannot be registered. It holds the mutex while \<^verbatim>\<open>Run\<close> calls
  \<^verbatim>\<open>onServerQuit\<close>, which takes the same mutex: whatever happens afterwards, the goroutine waits for the
  mutex it holds, and no call of \<^verbatim>\<open>Serve\<close>, \<^verbatim>\<open>Shutdown\<close> or \<^verbatim>\<open>GetFifoManager\<close> that waits for it proceeds.
\<close>
theorem Serve_blocks_for_ever:
  assumes "evl_reachable (e, ps)" "ps i = Some InRun"
    and "evl_step\<^sup>*\<^sup>* (e, ps(i \<mapsto> AtQuit TheServer (Some err) AtUnlock)) (e', ps')"
  shows "ps' i = Some (AtQuit TheServer (Some err) AtUnlock) \<and> mu e' = Some i \<and>
    (\<forall>j a. ps j = Some (AtLock a) \<longrightarrow> ps' j = Some (AtLock a))"
proof -
  let ?p = "AtQuit TheServer (Some err) AtUnlock"
  let ?c = "(e, ps(i \<mapsto> ?p))"
  have "evl_inv ?c"
    by (rule evl_step_inv [OF evl_step.run_fails evl_reachable_inv [OF assms(1)]]) (rule assms(2))
  then have s: "stuck i ?p ?c" by (simp add: stuck_def)
  have "evl_step\<^sup>*\<^sup>* ?c c' \<Longrightarrow> stuck i ?p c' \<and> (\<forall>j a. snd ?c j = Some (AtLock a) \<longrightarrow> snd c' j = Some (AtLock a))" for c'
  proof (induction rule: rtranclp_induct)
    case base
    then show ?case using s by blast
  next
    case (step c1 c2)
    then show ?case using stuck_step [of c1 c2 i ?p] by blast
  qed
  note r = this [OF assms(3)]
  have "mu e' = Some i" using r evl_invD(1) [of e' ps' i ?p] by (simp add: stuck_def)
  moreover have "ps' j = Some (AtLock a)" if "ps j = Some (AtLock a)" for j a
    using r that assms(2) by (cases "j = i") auto
  ultimately show ?thesis using r by (simp add: stuck_def)
qed

lemma reach_init: "evl_reachable (NewEventLoop, Map.empty)"
  by (simp add: evl_reachable_def)

lemma reach_step: "evl_reachable (e, ps) \<Longrightarrow> evl_step (e, ps) (e', ps') \<Longrightarrow> ps' = qs \<Longrightarrow> evl_reachable (e', qs)"
  unfolding evl_reachable_def by (blast intro: rtranclp.rtrancl_into_rtrancl)

lemma reach_serve:
  assumes "mu e = None" "evl_reachable (e, ps)" "ps i = None"
  shows "evl_reachable ((Serve_start e)\<lparr>mu := Some i\<rparr>, ps(i \<mapsto> InRun))"
proof -
  have "evl_reachable (e, ps(i \<mapsto> AtLock Serve))" by (rule reach_step [OF assms(2) evl_step.call [where i = i]]) (simp_all add: assms)
  then show ?thesis by (rule reach_step [OF _ evl_step.serve [where i = i]]) (simp_all add: assms)
qed

theorem Serve_blocks_for_ever_witness:
  "\<exists>e ps. evl_reachable (e, ps) \<and> ps 0 = Some (AtQuit TheServer (Some (Errno 24)) AtUnlock) \<and> ps 1 = Some (AtLock Shutdown) \<and>
     (\<forall>e' ps'. evl_step\<^sup>*\<^sup>* (e, ps) (e', ps') \<longrightarrow> mu e' = Some 0 \<and> ps' 1 = Some (AtLock Shutdown))"
proof -
  let ?e = "(Serve_start NewEventLoop)\<lparr>mu := Some 0\<rparr>" and ?q = "Map.empty(0 \<mapsto> InRun)"
  let ?p = "AtQuit TheServer (Some (Errno 24)) AtUnlock"
  have "evl_reachable (?e, ?q)" by (rule reach_serve [OF _ reach_init]) (simp_all add: NewEventLoop_def)
  then have r: "evl_reachable (?e, ?q(1 \<mapsto> AtLock Shutdown))"
    by (rule reach_step [OF _ evl_step.call [where i = 1]]) simp_all
  then have r': "evl_reachable (?e, ?q(1 \<mapsto> AtLock Shutdown, 0 \<mapsto> ?p))" 
    by (rule reach_step [OF _ evl_step.run_fails [where i = 0 and err = "Errno 24"]]) (simp_all add: fun_eq_iff)
  have "mu e' = Some 0 \<and> ps' 1 = Some (AtLock Shutdown)"
    if "evl_step\<^sup>*\<^sup>* (?e, ?q(1 \<mapsto> AtLock Shutdown, 0 \<mapsto> ?p)) (e', ps')" for e' ps'
    using Serve_blocks_for_ever [OF r _ that] by simp
  then show ?thesis using r' by (intro exI [of _ ?e] exI [of _ "?q(1 \<mapsto> AtLock Shutdown, 0 \<mapsto> ?p)"]) simp
qed

subsection \<open>When Serve returns\<close>

text \<open>
  C37: \<^verbatim>\<open>Serve\<close>, \<^verbatim>\<open>ServeAll\<close> and \<^verbatim>\<open>ServeFifo\<close> return only what some step has put into \<^verbatim>\<open>stop\<close>. In every interleaving
  a step puts a value there only when the loop is being shut down, or when neither the server nor
  the manager of named pipes runs any more.
\<close>
theorem quit_only_when_stopped:
  assumes "evl_reachable (e, ps)" "evl_step (e, ps) (e', ps')" "length (stop_chan e) < length (stop_chan e')"
  shows "forceQuit e' \<or> (\<not> svrRunning e' \<and> \<not> fifoRunning e')"
proof -
  note inv = evl_invD(3) [OF evl_reachable_inv [OF assms(1)]]
  from assms(2,3) inv show ?thesis
    by (cases rule: evl_step.cases) (fastforce simp: evl_defs split: if_splits component.splits)+
qed

lemma reach_served:
  assumes "mu e = None" "evl_reachable (e, ps)" "ps i = None"
  shows "evl_reachable (Serve_start e, ps(i \<mapsto> InWaitQuit))"
proof -
  have "evl_reachable ((Serve_start e)\<lparr>mu := Some i\<rparr>, ps(i \<mapsto> AtUnlock))"
    by (rule reach_step [OF reach_serve [OF assms] evl_step.run_ok [where i = i]]) simp_all
  then have "evl_reachable ((Serve_start e)\<lparr>mu := Some i\<rparr>\<lparr>mu := None\<rparr>, ps(i \<mapsto> InWaitQuit))"
    by (rule reach_step [OF _ evl_step.unlock [where i = i]]) simp_all
  moreover have "(Serve_start e)\<lparr>mu := Some i\<rparr>\<lparr>mu := None\<rparr> = Serve_start e" using assms(1) by (cases e) (simp add: Serve_start_def)
  ultimately show ?thesis by simp
qed

theorem quit_only_when_stopped_witness:
  "\<exists>e ps e' ps'. evl_reachable (e, ps) \<and> svrRunning e \<and> evl_step (e, ps) (e', ps') \<and> stop_chan e' = [Some (EText ''listener close'')] \<and>
     \<not> svrRunning e' \<and> \<not> fifoRunning e'"
proof -
  let ?e = "Serve_start NewEventLoop" and ?err = "Some (EText ''listener close'')"
  let ?ps = "Map.empty(0 \<mapsto> InWaitQuit, 1 \<mapsto> AtQuit TheServer ?err (Returned None))"
  let ?e' = "component_quit TheServer ?err ?e"
  have "evl_reachable (?e, Map.empty(0 \<mapsto> InWaitQuit))" by (rule reach_served [OF _ reach_init]) (simp_all add: NewEventLoop_def)
  then have r: "evl_reachable (?e, ?ps)" by (rule reach_step [OF _ evl_step.poller [where i = 1]]) simp_all
  have s: "evl_step (?e, ?ps) (?e', ?ps(1 \<mapsto> Returned None))"
    by (rule evl_step.on_quit) (simp_all add: Serve_start_def NewEventLoop_def)
  have e: "stop_chan ?e = []" "stop_chan ?e' = [?err]" "\<not> forceQuit ?e'" "svrRunning ?e"
    by (simp_all add: evl_defs NewEventLoop_def)
  then have "\<not> svrRunning ?e' \<and> \<not> fifoRunning ?e'" using quit_only_when_stopped [OF r s] by simp
  then show ?thesis using r s e by blast
qed

subsection \<open>Serve and ServeFifo side by side\<close>

lemma reach_shutdown:
  assumes "mu e = None" "svr e" "fifoManager e" "stop_chan e = []" "evl_reachable (e, ps)" "ps i = None"
  shows "evl_reachable ((Shutdown_start e)\<lparr>stop_chan := [None]\<rparr>, ps(i \<mapsto> Returned None))"
proof -
  let ?e = "Shutdown_start e"
  have "evl_reachable (e, ps(i \<mapsto> AtLock Shutdown))" by (rule reach_step [OF assms(5) evl_step.call [where i = i]]) (simp_all add: assms)
  then have "evl_reachable (?e, ps(i \<mapsto> Closing True True))"
    by (rule reach_step [OF _ evl_step.shutdown [where i = i]]) (simp_all add: assms)
  then have "evl_reachable (?e, ps(i \<mapsto> ClosingFifo None True))"
    by (rule reach_step [OF _ evl_step.close_server [where i = i and sv = True and ff = True and err = None]]) simp_all
  then have "evl_reachable (?e, ps(i \<mapsto> AtQuit TheFifoManager None (Quitting None None)))"
    by (rule reach_step [OF _ evl_step.close_fifo [where i = i and svrErr = None and err = None]]) simp_all
  then have "evl_reachable (component_quit TheFifoManager None ?e, ps(i \<mapsto> Quitting None None))"
    by (rule reach_step [OF _ evl_step.on_quit [where i = i]]) (simp_all add: assms Shutdown_start_def)
  then have "evl_reachable (quit None (component_quit TheFifoManager None ?e), ps(i \<mapsto> Returned (combine None None)))"
    by (rule reach_step [OF _ evl_step.quit [where i = i and svrErr = None and fifoErr = None]]) simp_all
  moreover have "quit None (component_quit TheFifoManager None ?e) = ?e\<lparr>stop_chan := [None]\<rparr>"
    using assms(4) by (simp add: evl_defs)
  ultimately show ?thesis by (simp add: combine_def)
qed

text \<open>
  C40: \<^verbatim>\<open>Shutdown\<close> can leave a goroutine waiting. \<^verbatim>\<open>Serve\<close> and \<^verbatim>\<open>ServeFifo\<close> of one loop, in two goroutines, wait for
  the same channel, and the values that the shutdown of the manager and \<^verbatim>\<open>Shutdown\<close> itself send may
  share its one place: there is a run in which \<^verbatim>\<open>Serve\<close> and \<^verbatim>\<open>Shutdown\<close> have returned, nobody else is left and
  \<^verbatim>\<open>ServeFifo\<close> waits for ever.
\<close>
theorem Shutdown_leaves_waiter:
  "\<exists>e ps. evl_reachable (e, ps) \<and> dom ps = {0, 1, 2} \<and> ps 0 = Some (Returned None) \<and> ps 1 = Some InWaitQuit \<and>
     ps 2 = Some (Returned None) \<and> stop_chan e = [] \<and> forceQuit e"
proof -
  let ?e1 = "Serve_start NewEventLoop" let ?e2 = "ServeFifo_start ?e1" let ?e3 = "(Shutdown_start ?e2)\<lparr>stop_chan := [None]\<rparr>"
  have "evl_reachable (?e1, Map.empty(0 \<mapsto> InWaitQuit))" by (rule reach_served [OF _ reach_init]) (simp_all add: NewEventLoop_def)
  then have "evl_reachable (?e1, Map.empty(0 \<mapsto> InWaitQuit, 1 \<mapsto> AtLock ServeFifo))"
    by (rule reach_step [OF _ evl_step.call [where i = 1]]) simp_all
  then have "evl_reachable (?e2, Map.empty(0 \<mapsto> InWaitQuit, 1 \<mapsto> InWaitQuit))"
    by (rule reach_step [OF _ evl_step.serve_fifo [where i = 1]]) (simp_all add: Serve_start_def NewEventLoop_def)
  then have "evl_reachable (?e3, Map.empty(0 \<mapsto> InWaitQuit, 1 \<mapsto> InWaitQuit, 2 \<mapsto> Returned None))"
    by (intro reach_shutdown) (simp_all add: evl_defs NewEventLoop_def)
  then have "evl_reachable (?e3\<lparr>stop_chan := []\<rparr>, Map.empty(0 \<mapsto> Returned None, 1 \<mapsto> InWaitQuit, 2 \<mapsto> Returned None))"
    by (rule reach_step [OF _ evl_step.wait_quit [where i = 0 and r = None and rs = "[]"]]) (simp_all add: fun_eq_iff)
  then show ?thesis
    by (intro exI [of _ "?e3\<lparr>stop_chan := []\<rparr>"] exI [of _ "Map.empty(0 \<mapsto> Returned None, 1 \<mapsto> InWaitQuit, 2 \<mapsto> Returned None)"] conjI)
      (auto simp: Shutdown_start_def)
qed

end
