(* ===== verification/Spec2Isabelle.thy ===== *)
theory Spec2Isabelle
  imports Errors LinkBufferQueue SysIO Locker Operator PollManager ShardQueue ConnPoll Lifecycle FifoWrite Dial Server EventLoop
begin

text \<open>
  \<^bold>\<open>Netpoll, a network library for Go on top of epoll.\<close>

  \<^bold>\<open>The program.\<close> Bytes live in link buffers: chains of reference-counted nodes over byte arrays with
  three cursors (read, flush, write). A poller waits for events of file descriptors and calls the
  handlers of their operators; for a connection it reads into the input buffer (\<^verbatim>\<open>inputs\<close>, \<^verbatim>\<open>inputAck\<close>) and
  sends from the output buffer (\<^verbatim>\<open>outputs\<close>, \<^verbatim>\<open>outputAck\<close>). Operators come from a cache that each poller has.
  A connection guards its callbacks, its flushing and its closing with four lock words. A manager
  opens pollers and balances descriptors over them. A server accepts connections, an event loop runs
  a server and named pipes and shuts them down, and a dialler makes outgoing connections. A shard
  queue lets many goroutines write to one connection.

  \<^bold>\<open>Conventions.\<close> A Go \<^verbatim>\<open>int\<close> that counts bytes is an \<open>int\<close>; counters, lock words and error numbers that the
  code reads as machine words are words and wrap around. A pair of a value and an error is a sum or
  an optional error. \<open>None\<close> as the value of an operation stands for a panic, for a loop that does not
  end or for a goroutine that is still blocked. Pointer-chasing loops are partial functions in the
  option monad, and the theorems show that they return. What other goroutines do while an operation
  waits is an argument, a list of moves, and \<open>None\<close> is the result when the list is used up; the fuel of
  \<^verbatim>\<open>Until\<close> of a connection bounds its rounds in the same way. Concurrent parts (locks, operator cache,
  shard queue, life of a connection, event loop) are step relations over any number of goroutines.
  System calls are fields of the records \<open>sys\<close> and \<open>sock_sys\<close> over a kernel state; what the proofs need of
  them is in \<open>kernel_ok\<close>, \<open>readv_ok\<close>, \<open>send_ok\<close> and \<open>epoll_ok\<close>, and of the byte allocator \<^verbatim>\<open>mcache\<close> in \<open>mcache_ok\<close>.

  \<^bold>\<open>Theories.\<close>
  \<^item> \<open>Prelude\<close>, \<open>Slices\<close>: vocabulary; Go slices as windows of arrays on a heap, \<^verbatim>\<open>malloc\<close> and \<^verbatim>\<open>free\<close> of nocopy.go.
  \<^item> \<open>Errors\<close>: connection\_errors.go. Every error number has its text.
  \<^item> \<open>Nodes\<close>, \<open>LinkBuffer\<close>, \<open>LinkBufferW\<close>: nocopy\_linkbuffer.go, one definition per method and per loop, on a
    heap of nodes with the pool. \<open>LinkBufferInv\<close> has the invariant \<open>lb_inv\<close> and the abstraction \<open>stream\<close>;
    \<open>LinkBufferAdvance\<close>, \<open>LinkBufferRead\<close>, \<open>LinkBufferReadOps\<close>, \<open>LinkBufferPeek\<close>, \<open>LinkBufferReader\<close> show the
    readers, \<open>LinkBufferRelease\<close> the reference counts, \<open>LinkBufferLink\<close>, \<open>LinkBufferWrite\<close>, \<open>LinkBufferWriter\<close> the
    writers, \<open>LinkBufferBook\<close> and \<open>LinkBufferSend\<close> the two sides of the poller. \<open>LinkBufferQueue\<close> states the
    contract of a buffer as the locale \<open>byte_buffer\<close>, interprets it, and shows that a buffer refines a queue.
  \<^item> \<open>SysIO\<close>: sys\_exec.go, sys\_sendmsg\_linux.go, net\_io.go; vectors for \<^verbatim>\<open>readv\<close> and \<^verbatim>\<open>sendmsg\<close> and their bounds.
  \<^item> \<open>Locker\<close>: connection\_lock.go, fifo\_lock.go; the locale \<open>key_lock\<close> (mutual exclusion, \<^verbatim>\<open>stop\<close>) is interpreted
    for both and, in \<open>Operator\<close>, for the state word of an operator.
  \<^item> \<open>Operator\<close>: fd\_operator.go, fd\_operator\_cache.go; no operator is handed out twice, a detach
    reaches the poller once.
  \<^item> \<open>Poll\<close>: poll\_default.go, poll\_default\_linux.go: opening, \<^verbatim>\<open>Control\<close>, the event handler, \<^verbatim>\<open>Wait\<close>, \<^verbatim>\<open>Trigger\<close>. \<open>PollInv\<close>
    states what the poller asks of the owner of an operator as the locale \<open>operator_owner\<close> and proves its
    handler once for all owners.
  \<^item> \<open>PollManager\<close>: poll\_manager.go, poll\_loadbalance.go.
  \<^item> \<open>Connection\<close>: connection\_impl.go, connection\_reactor.go, connection\_onevent.go. \<open>ConnInv\<close> has the
    invariant \<open>conn_ok\<close> and interprets \<open>operator_owner\<close>; \<open>ConnPoll\<close> composes poller and connection: what arrives
    is appended to the input, what is sent is a prefix of the output, \<^verbatim>\<open>Wait\<close> is safe and stops. \<open>ConnInit\<close> is
    \<^verbatim>\<open>init\<close>, which establishes \<open>conn_ok\<close>, and \<open>ConnClose\<close> shows what \<^verbatim>\<open>Close\<close> gives back. \<open>Lifecycle\<close> interleaves tasks,
    callbacks, hang-up and close.
  \<^item> \<open>ShardQueue\<close>: mux/shard\_queue.go; no getter is lost or called twice in any interleaving.
  \<^item> \<open>Options\<close>: netpoll\_options.go. \<open>FifoRead\<close>, \<open>FifoWrite\<close>: the two ends of named pipes.
  \<^item> \<open>Sockets\<close>, \<open>Dial\<close>: net\_tcpsock.go, net\_unixsock.go, net\_sock.go, net\_netfd.go, net\_netfd\_conn.go,
    net\_polldesc.go and the socket options; \<open>Dial\<close> waits for a connection with a poller of its own.
  \<^item> \<open>Server\<close>: net\_listener.go, netpoll\_server.go. \<open>EventLoop\<close>: netpoll\_unix.go.

  \<^bold>\<open>What the theorems show.\<close> Each operation returns what its contract says, errors included, and keeps the
  invariant; bytes are neither lost nor reordered between writer and reader, kernel and buffer;
  callbacks exclude each other and close callbacks run at most once unless a callback panics;
  descriptors and operators are given back once. The theorems of kind error exhibit runs in which
  the code does not do what it means to: a lost disconnect callback, a second run of the close
  callbacks after a panic, a reader of a pipe that is not woken, a writer whose second back-pressure
  fails, \<^verbatim>\<open>MallocAck(0)\<close>, an empty poll manager, a connection that hangs up while it is accepted, retries
  that pile up, the deadlock of \<^verbatim>\<open>Serve\<close> and a waiter that \<^verbatim>\<open>Shutdown\<close> leaves behind.

  \<^bold>\<open>Bounds.\<close> Counters are assumed below their wrap-around where the code relies on it: fewer than \<open>2 ^ 31\<close>
  operators in a cache and calls of detach, fewer than \<open>2 ^ 32\<close> calls of \<^verbatim>\<open>Trigger\<close> between two wake-ups, the
  counter of \<^verbatim>\<open>Add\<close> of a shard queue not negative; the theorems name these hypotheses. The invariant
  \<open>conn_ok\<close> speaks of a poller with one registered connection besides the wake-up descriptor; the
  handler of the poller is proved for any owner of operators.

  \<^bold>\<open>Not modelled.\<close> nocopy\_readwriter.go adapts a buffer to a reader or writer of the user and loops over
  foreign code. fifo\_connection\_impl.go and fifo\_manager.go pair the two ends of pipes and keep them in
  maps; of the manager only what the event loop sees of it is there. nocopy\_linkbuffer\_race.go and
  poll\_default\_linux\_race.go are builds for the race detector; the files for BSD, Windows, arm64 and
  loong64 are other builds of what is modelled for Linux. The name resolution in net\_dialer.go,
  \<^verbatim>\<open>CreateListener\<close> and \<^verbatim>\<open>ConvertListener\<close> only call package net. The setters of netpoll\_unix.go, the logger and the
  task runner start or configure third-party code. Timers fire at any time, and log messages are left out.
\<close>

end
